(* ===== verification/Itc_Prelude.thy ===== *)
theory Itc_Prelude
  imports Main "HOL-Library.Word"
begin

text \<open>
  Shared base of the development: the machine types of the C++ code, the ways an
  operation can fail to return normally, sequencing of fallible operations, and the
  generic facts on words that the components use.
\<close>

unbundle bit_operations_syntax

section \<open>Machine types\<close>

type_synonym u8 = "8 word"
type_synonym u32 = "32 word"
type_synonym i32 = "32 word"   \<comment> \<open>read with \<open>sint\<close>\<close>
type_synonym u64 = "64 word"
type_synonym ptr = "64 word"   \<comment> \<open>\<open>uintptr_t\<close>\<close>

abbreviation nullptr :: ptr where
  "nullptr \<equiv> 0"

section \<open>Operations that do not return normally\<close>

text \<open>
  \<open>Blocked\<close>: the call spins or sleeps, and does so for ever if no other thread runs.
  The other constructors are what the C++ abstract machine calls undefined behaviour or
  an abnormal end, one constructor for each kind the code can run into.
\<close>

datatype stop =
    Blocked          \<comment> \<open>waits for another thread\<close>
  | AssertFailed     \<comment> \<open>a failed \<open>assert\<close>\<close>
  | WildAccess       \<comment> \<open>a read or write outside every live block: null, freed, out of range\<close>
  | InvalidFree      \<comment> \<open>\<open>delete[]\<close> of something that is not a live block\<close>
  | BadAlloc         \<comment> \<open>\<open>std::bad_alloc\<close>\<close>
  | EndDeref         \<comment> \<open>an end iterator dereferenced\<close>
  | BadThread        \<comment> \<open>a pthread call on a thread that has already been joined\<close>

type_synonym 'a res = "stop + 'a"

fun and_then :: "'e + 'a \<Rightarrow> ('a \<Rightarrow> 'e + 'b) \<Rightarrow> 'e + 'b" where
  "and_then (Inl e) f = Inl e"
| "and_then (Inr x) f = f x"

lemma and_then_Inr_iff: "and_then r f = Inr y \<longleftrightarrow> (\<exists>x. r = Inr x \<and> f x = Inr y)"
  by (cases r) auto

lemma and_then_Inl_iff:
  "and_then r f = Inl e \<longleftrightarrow> r = Inl e \<or> (\<exists>x. r = Inr x \<and> f x = Inl e)"
  by (cases r) auto

lemma and_then_assoc: "and_then (and_then r f) g = and_then r (\<lambda>x. and_then (f x) g)"
  by (cases r) auto

lemma and_then_cong [fundef_cong]:
  "r = r' \<Longrightarrow> (\<And>x. r' = Inr x \<Longrightarrow> f x = f' x) \<Longrightarrow> and_then r f = and_then r' f'"
  by (cases r') auto

section \<open>Word facts\<close>

named_theorems word_nat "unsigned values of word expressions"

lemma unat_of_nat_less [word_nat]:
  "n < 2 ^ LENGTH('a) \<Longrightarrow> unat (of_nat n :: 'a::len word) = n"
  by (simp add: unat_of_nat take_bit_nat_eq_self)

lemma signed_shift_32:
  fixes x :: int
  assumes "0 \<le> x" "x < 2 ^ 32"
  shows "(x + 2 ^ 31) mod 2 ^ 32 - 2 ^ 31 = (if x < 2 ^ 31 then x else x - 2 ^ 32)"
proof (cases "x < 2 ^ 31")
  case True
  then show ?thesis using assms by simp
next
  case False
  have "(x + 2 ^ 31) mod 2 ^ 32 = (x + 2 ^ 31 - 2 ^ 32) mod 2 ^ 32"
    by (rule minus_mod_self2 [symmetric])
  also have "\<dots> = x + 2 ^ 31 - 2 ^ 32"
    using False assms by (intro mod_pos_pos_trivial) auto
  finally show ?thesis using False by simp
qed

lemma sint_u32:
  "sint (w :: u32) = (if unat w < 2 ^ 31 then int (unat w) else int (unat w) - 2 ^ 32)"
proof -
  have "sint w = (uint w + 2 ^ 31) mod 2 ^ 32 - 2 ^ 31"
    by (simp add: sint_uint signed_take_bit_eq_take_bit_shift take_bit_eq_mod)
  also have "\<dots> = (if uint w < 2 ^ 31 then uint w else uint w - 2 ^ 32)"
    using uint_lt2p [of w] by (intro signed_shift_32) simp_all
  finally show ?thesis
    unfolding uint_nat
    by (simp only: of_nat_less_numeral_power_cancel_iff)
qed

lemma sint_pos_u32:
  fixes w :: u32
  assumes "0 < sint w"
  shows "unat w < 2 ^ 31" "sint w = int (unat w)" "0 < unat w"
proof -
  have "int (unat w) < 2 ^ 32" using uint_lt2p [of w] by simp
  then show less: "unat w < 2 ^ 31" using assms unfolding sint_u32 by (cases "unat w < 2 ^ 31") simp_all
  then show eq: "sint w = int (unat w)" by (simp only: sint_u32 if_True)
  from assms show "0 < unat w" unfolding eq by (simp only: of_nat_0_less_iff)
qed

lemma sint_u32_of_int:
  fixes k :: int
  assumes "- (2 ^ 31) \<le> k" "k < 2 ^ 31"
  shows "sint (word_of_int k :: u32) = k"
proof -
  have "signed_take_bit 31 k = k" using assms by (intro signed_take_bit_int_eq_self) simp_all
  then show ?thesis by (simp add: signed_of_int)
qed

lemma sint_u32_diff:
  assumes "- (2 ^ 31) \<le> int a - int b" "int a - int b < 2 ^ 31"
  shows "sint (of_nat a - of_nat b :: u32) = int a - int b"
proof -
  have "(of_nat a - of_nat b :: u32) = word_of_int (int a - int b)" by simp
  then show ?thesis by (simp only: sint_u32_of_int [OF assms])
qed

lemma sint_u32_window:
  fixes a b n :: nat
  assumes "a < b + n" "n \<le> 2 ^ 30" "b < 2 ^ 31"
  shows "sint (of_nat a - of_nat b :: u32) = int a - int b"
  by (rule sint_u32_diff) (use assms in simp_all)

lemma sint_u64_small:
  assumes "unat (w :: 64 word) < 2 ^ 63"
  shows "sint w = int (unat w)"
proof -
  have "int (unat w) < 2 ^ 63" using assms by (simp only: of_nat_less_numeral_power_cancel_iff)
  then have w: "uint w < 2 ^ 63" by simp
  have "sint w = (uint w + 2 ^ 63) mod 2 ^ 64 - 2 ^ 63"
    by (simp add: sint_uint signed_take_bit_eq_take_bit_shift take_bit_eq_mod)
  also have "\<dots> = uint w" using w by (simp add: mod_pos_pos_trivial)
  finally show ?thesis by simp
qed

text \<open>The counters of the queue are 32 bits wide and wrap; a power of two divides their range.\<close>

lemma unat_plus_mod_pow2:
  fixes a b :: u32
  assumes "k \<le> 32"
  shows "unat (a + b) mod 2 ^ k = (unat a + unat b) mod 2 ^ k"
proof -
  have "(2::nat) ^ k dvd 2 ^ 32" using assms by (rule le_imp_power_dvd)
  then show ?thesis by (simp add: unat_word_ariths mod_mod_cancel)
qed

lemma unat_diff_of_add:
  fixes t :: u32
  assumes "n < 2 ^ 32"
  shows "unat (t + of_nat n - t) = n"
  using assms by (simp add: unat_of_nat_less)

lemma pow2_word_unat:
  assumes "k < LENGTH('a)"
  shows "unat (2 ^ k :: 'a::len word) = 2 ^ k"
proof -
  have "(2::nat) ^ k < 2 ^ LENGTH('a)" using assms by (intro power_strict_increasing) auto
  then have "unat (of_nat (2 ^ k) :: 'a word) = 2 ^ k" by (rule unat_of_nat_less)
  then show ?thesis by (simp only: of_nat_power of_nat_numeral)
qed

end
