(* ===== verification/Queue_Index.thy ===== *)
theory Queue_Index
  imports Itc_Prelude
begin

text \<open>
  The index arithmetic of \<open>itcLockFreeQueue.h\<close>: the rounding of the template's
  \<open>SIZE\<close> to a power of two and the remapping of slot indices that keeps neighbouring
  slots on different cache lines. The lemmas describe both bit by bit; from that come the
  facts the queue relies on: the rounded size divides the range of the 32-bit counters,
  and remapping is a self-inverse permutation of the slots.
\<close>

section \<open>Remapping of slot indices\<close>

definition GetCacheLineIndexBits :: "nat \<Rightarrow> nat" where
  "GetCacheLineIndexBits elementsPerCacheLine =
     (if elementsPerCacheLine = 256 then 8
      else if elementsPerCacheLine = 128 then 7
      else if elementsPerCacheLine = 64 then 6
      else if elementsPerCacheLine = 32 then 5
      else if elementsPerCacheLine = 16 then 4
      else if elementsPerCacheLine = 8 then 3
      else if elementsPerCacheLine = 4 then 2
      else if elementsPerCacheLine = 2 then 1
      else 0)"

definition GetIndexShuffleBits :: "u32 \<Rightarrow> u32 \<Rightarrow> nat \<Rightarrow> nat" where
  "GetIndexShuffleBits minimizeContention sz elementsPerCacheLine =
     (if minimizeContention = 0 then 0
      else let bits = GetCacheLineIndexBits elementsPerCacheLine;
               minSize = push_bit (bits * 2) (1 :: u32)
           in if sz < minSize then 0 else bits)"

definition remapIndex :: "nat \<Rightarrow> u32 \<Rightarrow> u32" where
  "remapIndex BITS index =
     (if BITS = 0 then index
      else let mix_mask = push_bit BITS 1 - 1;
               mix = (index XOR drop_bit BITS index) AND mix_mask
           in (index XOR mix) XOR push_bit BITS mix)"

lemma bit_remapIndex:
  assumes "2 * b \<le> 32"
  shows "bit (remapIndex b i) n =
    (if n < b then bit i (n + b) else if n < 2 * b then bit i (n - b) else bit i n)"
  using assms
  by (auto simp: remapIndex_def Let_def push_bit_of_1 bit_simps add.commute [of b]
      simp flip: mask_eq_exp_minus_1 dest: bit_imp_le_length)

lemma remapIndex_involution:
  assumes "2 * b \<le> 32"
  shows "remapIndex b (remapIndex b i) = i"
  using assms by (intro bit_word_eqI) (auto simp: bit_remapIndex)

lemma less_pow2_iff_no_high_bits:
  fixes w :: "'a::len word"
  shows "unat w < 2 ^ k \<longleftrightarrow> (\<forall>n\<ge>k. \<not> bit w n)"
proof -
  have "unat w < 2 ^ k \<longleftrightarrow> take_bit k (unat w) = unat w"
    by (simp add: take_bit_nat_eq_self_iff)
  also have "\<dots> \<longleftrightarrow> (\<forall>n. bit (unat w) n \<longrightarrow> n < k)"
    by (auto simp: bit_eq_iff bit_take_bit_iff)
  also have "\<dots> \<longleftrightarrow> (\<forall>n\<ge>k. \<not> bit w n)"
    by (auto simp: bit_unsigned_iff dest: bit_imp_le_length simp flip: linorder_not_less)
  finally show ?thesis .
qed

lemma remapIndex_bound:
  assumes "2 * b \<le> k" "k \<le> 32" "unat i < 2 ^ k"
  shows "unat (remapIndex b i) < 2 ^ k"
  using assms by (auto simp: less_pow2_iff_no_high_bits bit_remapIndex)

lemma remapIndex_inj: "2 * b \<le> 32 \<Longrightarrow> remapIndex b i = remapIndex b j \<longleftrightarrow> i = j"
  by (metis remapIndex_involution)

lemma remapIndex_permutes:
  assumes "2 * b \<le> k" "k \<le> 32"
  shows "bij_betw (remapIndex b) {i. unat i < 2 ^ k} {i. unat i < 2 ^ k}"
  using assms
  by (intro bij_betw_byWitness [where f' = "remapIndex b"])
     (auto simp: remapIndex_bound remapIndex_involution)

text \<open>
  What the remapping is for: two slots that would share a cache line (their indices differ
  only in the low \<open>b\<close> bits, a line holding \<open>2 ^ b\<close> slots) are moved to different lines.
\<close>

lemma remapIndex_low_bits:
  assumes "2 * b \<le> 32"
  shows "take_bit b (drop_bit b (remapIndex b i)) = take_bit b i"
  using assms by (intro bit_word_eqI) (auto simp: bit_simps bit_remapIndex)

lemma remapIndex_separates:
  assumes "2 * b \<le> 32" "drop_bit b i = drop_bit b j" "i \<noteq> j"
  shows "drop_bit b (remapIndex b i) \<noteq> drop_bit b (remapIndex b j)"
proof
  assume "drop_bit b (remapIndex b i) = drop_bit b (remapIndex b j)"
  then have "take_bit b i = take_bit b j"
    using remapIndex_low_bits [OF assms(1)] by metis
  then have "i = j"
    using assms(2) bits_ident [of b i] bits_ident [of b j] by metis
  with assms(3) show False by simp
qed

lemma GetCacheLineIndexBits_le: "GetCacheLineIndexBits e \<le> 8"
  by (simp add: GetCacheLineIndexBits_def)

text \<open>The bits chosen for a power-of-two size always fit it, so the remapping stays in range.\<close>

lemma GetIndexShuffleBits_fits:
  assumes "k < 32"
  shows "2 * GetIndexShuffleBits m (2 ^ k) e \<le> k"
proof (cases "m = 0 \<or> (2 ^ k :: u32) < push_bit (GetCacheLineIndexBits e * 2) 1")
  case True
  then show ?thesis by (auto simp: GetIndexShuffleBits_def Let_def)
next
  case False
  define b where "b = GetCacheLineIndexBits e"
  have "b * 2 < 32" using GetCacheLineIndexBits_le [of e] by (simp add: b_def)
  from False have "(2 ^ (b * 2) :: u32) \<le> 2 ^ k"
    by (simp add: b_def not_less)
  then have "(2::nat) ^ (b * 2) \<le> 2 ^ k"
    using \<open>b * 2 < 32\<close> assms pow2_word_unat [where 'a = 32] by (simp add: word_le_nat_alt)
  then have "b * 2 \<le> k" by (rule power_le_imp_le_exp [rotated]) simp
  with False show ?thesis by (auto simp: GetIndexShuffleBits_def Let_def b_def)
qed

section \<open>Rounding a size up to a power of two\<close>

fun orEqual :: "'a::len word \<Rightarrow> nat list \<Rightarrow> 'a word" where
  "orEqual x [] = x"
| "orEqual x (u # rest) = orEqual (x OR drop_bit u x) rest"

definition roundUpToPowerOf2 :: "u32 \<Rightarrow> u32" where
  "roundUpToPowerOf2 a = orEqual (a - 1) [1, 2, 4, 8, 16] + 1"

definition roundUpToPowerOf2_64 :: "u64 \<Rightarrow> u64" where
  "roundUpToPowerOf2_64 a = orEqual (a - 1) [1, 2, 4, 8, 16, 32] + 1"

text \<open>\<open>smeared x y d\<close>: \<open>y\<close> has every bit that lies less than \<open>d\<close> places below a bit of \<open>x\<close>.\<close>

definition smeared :: "'a::len word \<Rightarrow> 'a word \<Rightarrow> nat \<Rightarrow> bool" where
  "smeared x y d \<longleftrightarrow> (\<forall>n. bit y n \<longleftrightarrow> (\<exists>e<d. bit x (n + e)))"

lemma smeared_refl: "smeared x x 1"
  by (simp add: smeared_def)

lemma smeared_step:
  assumes "smeared x y d"
  shows "smeared x (y OR drop_bit d y) (d + d)"
  unfolding smeared_def
proof
  fix n
  have "bit (y OR drop_bit d y) n \<longleftrightarrow> bit y n \<or> bit y (d + n)"
    by (simp add: bit_simps)
  also have "\<dots> \<longleftrightarrow> (\<exists>e<d. bit x (n + e)) \<or> (\<exists>e<d. bit x (d + n + e))"
    using assms by (simp add: smeared_def)
  also have "\<dots> \<longleftrightarrow> (\<exists>e<d + d. bit x (n + e))"
  proof (intro iffI; elim disjE exE conjE)
    fix e assume "e < d + d" "bit x (n + e)"
    then show "(\<exists>e<d. bit x (n + e)) \<or> (\<exists>e<d. bit x (d + n + e))"
      by (cases "e < d") (auto intro: exI [of _ "e - d"])
  next
    fix e assume "e < d" "bit x (n + e)"
    then show "\<exists>e<d + d. bit x (n + e)"
      by (intro exI [of _ e]) simp
  next
    fix e assume "e < d" "bit x (d + n + e)"
    then show "\<exists>e<d + d. bit x (n + e)"
      by (intro exI [of _ "d + e"]) (simp add: ac_simps)
  qed
  finally show "bit (y OR drop_bit d y) n = (\<exists>e<d + d. bit x (n + e))" .
qed

lemma smeared_orEqual_32: "smeared x (orEqual x [1, 2, 4, 8, 16]) 32"
proof -
  note s = smeared_step [OF smeared_refl [of x]]
  note s = smeared_step [OF s]
  note s = smeared_step [OF s]
  note s = smeared_step [OF s]
  note s = smeared_step [OF s]
  then show ?thesis by (simp add: numeral_eq_Suc)
qed

lemma smeared_orEqual_64: "smeared x (orEqual x [1, 2, 4, 8, 16, 32]) 64"
proof -
  have "orEqual x [1, 2, 4, 8, 16, 32] =
      orEqual x [1, 2, 4, 8, 16] OR drop_bit 32 (orEqual x [1, 2, 4, 8, 16])"
    by simp
  with smeared_step [OF smeared_orEqual_32 [of x]] show ?thesis by simp
qed

lemma smeared_full_mask:
  fixes x y :: "'a::len word"
  assumes "smeared x y d" "LENGTH('a) \<le> d" "k \<le> LENGTH('a)"
    and below: "unat x < 2 ^ k" and least: "\<And>j. unat x < 2 ^ j \<Longrightarrow> k \<le> j"
  shows "y = mask k"
proof (rule bit_word_eqI)
  fix n assume n: "n < LENGTH('a)"
  show "bit y n = bit (mask k :: 'a word) n"
  proof (cases "n < k")
    case True
    then have "\<not> unat x < 2 ^ n" using least leD by blast
    then obtain m where "m \<ge> n" "bit x m" by (auto simp: less_pow2_iff_no_high_bits)
    moreover have "m < LENGTH('a)" using \<open>bit x m\<close> by (rule bit_imp_le_length)
    ultimately have "\<exists>e<d. bit x (n + e)"
      using assms(2) by (intro exI [of _ "m - n"]) auto
    with True n show ?thesis using assms(1) by (simp add: smeared_def bit_simps)
  next
    case False
    then have "\<not> bit x (n + e)" for e
      using below by (auto simp: less_pow2_iff_no_high_bits)
    with False show ?thesis using assms(1) by (simp add: smeared_def bit_simps)
  qed
qed

lemma Least_pow2:
  fixes m :: nat
  shows "m \<le> 2 ^ (LEAST k. m \<le> 2 ^ k)" and "m \<le> 2 ^ j \<Longrightarrow> (LEAST k. m \<le> 2 ^ k) \<le> j"
proof -
  have "m \<le> 2 ^ m" using less_exp [of m] by simp
  then show "m \<le> 2 ^ (LEAST k. m \<le> 2 ^ k)" by (rule LeastI)
  show "m \<le> 2 ^ j \<Longrightarrow> (LEAST k. m \<le> 2 ^ k) \<le> j" by (rule Least_le)
qed

lemma roundUp_word:
  fixes a :: "'a::len word"
  assumes "smeared (a - 1) y (LENGTH('a))" "a \<noteq> 0"
  shows "y + 1 = 2 ^ (LEAST k. unat a \<le> 2 ^ k)"
proof -
  define k where "k = (LEAST k. unat a \<le> 2 ^ k)"
  have "unat a = Suc (unat (a - 1))"
    using assms(2) by (simp add: unat_minus_one unat_gt_0)
  then have *: "unat (a - 1) < 2 ^ j \<longleftrightarrow> unat a \<le> 2 ^ j" for j
    by linarith
  have "unat a \<le> 2 ^ LENGTH('a)" by (simp add: less_imp_le)
  then have "k \<le> LENGTH('a)" unfolding k_def by (rule Least_pow2(2))
  then have "y = mask k"
    using assms(1) Least_pow2 by (intro smeared_full_mask [of "a - 1"]) (auto simp: * k_def)
  then show ?thesis by (simp add: mask_eq_exp_minus_1 k_def)
qed

definition queue_size :: "u32 \<Rightarrow> u32 \<Rightarrow> u32" where
  "queue_size minimizeContention sz = (if minimizeContention \<noteq> 0 then roundUpToPowerOf2 sz else sz)"

section \<open>What the queue relies on\<close>

lemma roundUp_overflow:
  fixes a :: "'a::len word"
  assumes "2 ^ (LENGTH('a) - 1) < unat a"
  shows "(2 :: 'a word) ^ (LEAST k. unat a \<le> 2 ^ k) = 0"
proof -
  have "LENGTH('a) - 1 < (LEAST k. unat a \<le> 2 ^ k)"
  proof (rule ccontr)
    assume "\<not> LENGTH('a) - 1 < (LEAST k. unat a \<le> 2 ^ k)"
    then have "(2::nat) ^ (LEAST k. unat a \<le> 2 ^ k) \<le> 2 ^ (LENGTH('a) - 1)"
      by (intro power_increasing) auto
    with Least_pow2(1) [of "unat a"] assms show False by linarith
  qed
  then show ?thesis by (simp add: exp_eq_zero_iff)
qed

lemma roundUp_unat:
  fixes a y :: "'a::len word"
  assumes "smeared (a - 1) y (LENGTH('a))"
  shows "unat (y + 1) =
    (if a = 0 \<or> 2 ^ (LENGTH('a) - 1) < unat a then 0 else 2 ^ (LEAST k. unat a \<le> 2 ^ k))"
proof (cases "a = 0")
  case True
  then have "bit y n" if "n < LENGTH('a)" for n
    using assms that by (auto simp: smeared_def bit_simps intro!: exI [of _ 0])
  then have "y = - 1" by (intro bit_word_eqI) simp
  with True show ?thesis by simp
next
  case False
  then have y: "y + 1 = 2 ^ (LEAST k. unat a \<le> 2 ^ k)" using assms by (rule roundUp_word [rotated])
  show ?thesis
  proof (cases "2 ^ (LENGTH('a) - 1) < unat a")
    case True
    then show ?thesis by (simp add: y roundUp_overflow)
  next
    case fits: False
    then have "(LEAST k. unat a \<le> 2 ^ k) \<le> LENGTH('a) - 1" by (intro Least_pow2(2)) simp
    also have "\<dots> < LENGTH('a)" by simp
    finally have "unat (2 ^ (LEAST k. unat a \<le> 2 ^ k) :: 'a word) = 2 ^ (LEAST k. unat a \<le> 2 ^ k)"
      by (rule pow2_word_unat)
    with False fits show ?thesis by (simp add: y)
  qed
qed

text \<open>For every argument, at both widths, \<open>roundUpToPowerOf2\<close> returns the least power of two
  that is not below the argument, and wraps to 0 exactly for 0 and for the arguments above the
  greatest power of two of the width.\<close>

theorem roundUpToPowerOf2_least:
  "unat (roundUpToPowerOf2 a) =
     (if a = 0 \<or> 2 ^ 31 < unat a then 0 else 2 ^ (LEAST k. unat a \<le> 2 ^ k)) \<and>
   unat (roundUpToPowerOf2_64 b) =
     (if b = 0 \<or> 2 ^ 63 < unat b then 0 else 2 ^ (LEAST k. unat b \<le> 2 ^ k))"
  using roundUp_unat [of a "orEqual (a - 1) [1, 2, 4, 8, 16]"] smeared_orEqual_32 [of "a - 1"]
    roundUp_unat [of b "orEqual (b - 1) [1, 2, 4, 8, 16, 32]"] smeared_orEqual_64 [of "b - 1"]
  by (simp add: roundUpToPowerOf2_def roundUpToPowerOf2_64_def del: orEqual.simps)

text \<open>When the bits are chosen: for a line of \<open>2 ^ c\<close> elements, if the queue has at least as many
  lines as a line has elements.\<close>

lemma GetCacheLineIndexBits_pow2:
  "e \<in> {2, 4, 8, 16, 32, 64, 128, 256} \<Longrightarrow> e = 2 ^ GetCacheLineIndexBits e"
  "e \<notin> {2, 4, 8, 16, 32, 64, 128, 256} \<Longrightarrow> GetCacheLineIndexBits e = 0"
  by (auto simp: GetCacheLineIndexBits_def)

lemma GetIndexShuffleBits_chosen:
  assumes "k < 32"
  shows "GetIndexShuffleBits m (2 ^ k) e =
    (if m \<noteq> 0 \<and> e \<in> {2, 4, 8, 16, 32, 64, 128, 256} \<and> e * e \<le> 2 ^ k
     then GetCacheLineIndexBits e else 0)"
proof (cases "e \<in> {2, 4, 8, 16, 32, 64, 128, 256}")
  case True
  define c where "c = GetCacheLineIndexBits e"
  have c: "c * 2 < 32" "e = 2 ^ c"
    using GetCacheLineIndexBits_le [of e] GetCacheLineIndexBits_pow2(1) [OF True] by (simp_all add: c_def)
  have "(2 ^ k :: u32) < push_bit (c * 2) 1 \<longleftrightarrow> (2::nat) ^ k < 2 ^ (c * 2)"
    using c(1) assms pow2_word_unat [where 'a = 32, of k] pow2_word_unat [where 'a = 32, of "c * 2"]
    by (simp add: word_less_nat_alt push_bit_of_1)
  also have "\<dots> \<longleftrightarrow> \<not> e * e \<le> 2 ^ k"
    by (simp only: c(2) mult_2_right power_add not_le)
  finally show ?thesis using True by (simp add: GetIndexShuffleBits_def Let_def c_def del: insert_iff)
qed (simp add: GetIndexShuffleBits_def Let_def GetCacheLineIndexBits_pow2(2) del: insert_iff)

lemma unat_div_pow2: "unat (i :: 'a::len word) div 2 ^ b = unat (drop_bit b i)"
  using unat_drop_bit_eq [of b i] by (simp only: drop_bit_eq_div [where 'a = nat])

text \<open>C34: The index remapping of a queue of \<open>2 ^ k\<close> slots, \<open>e\<close> of which share a cache line, is a
  permutation of the slot indices and its own inverse. If contention is to be minimised, \<open>e\<close> is
  one of the powers of two from 2 to 256 and the queue has at least \<open>e * e\<close> slots, any two slots
  of one cache line are moved to different lines; in every other case the remapping is the
  identity. (A line is \<open>e\<close> consecutive indices from a multiple of \<open>e\<close>.)\<close>

theorem slot_remapping_correct:
  fixes m :: u32 and e k :: nat
  assumes "k < 32"
  defines "b \<equiv> GetIndexShuffleBits m (2 ^ k) e"
  shows "bij_betw (remapIndex b) {i. unat i < 2 ^ k} {i. unat i < 2 ^ k} \<and>
    (\<forall>i. remapIndex b (remapIndex b i) = i) \<and>
    (if m \<noteq> 0 \<and> e \<in> {2, 4, 8, 16, 32, 64, 128, 256} \<and> e * e \<le> 2 ^ k
     then \<forall>i j. i \<noteq> j \<and> unat i div e = unat j div e \<longrightarrow>
            unat (remapIndex b i) div e \<noteq> unat (remapIndex b j) div e
     else \<forall>i. remapIndex b i = i)"
proof -
  let ?chosen = "m \<noteq> 0 \<and> e \<in> {2, 4, 8, 16, 32, 64, 128, 256} \<and> e * e \<le> 2 ^ k"
  have fits: "2 * b \<le> k" unfolding b_def using assms(1) by (rule GetIndexShuffleBits_fits)
  have "unat (remapIndex b i) div e \<noteq> unat (remapIndex b j) div e"
    if "?chosen" "i \<noteq> j" "unat i div e = unat j div e" for i j
  proof -
    have "b = GetCacheLineIndexBits e"
      using that(1) GetIndexShuffleBits_chosen [OF assms(1)] by (simp add: b_def del: insert_iff)
    then have e: "e = 2 ^ b" using GetCacheLineIndexBits_pow2(1) that(1) by blast
    have "drop_bit b i = drop_bit b j" using that(3) unfolding e unat_div_pow2 by (rule unsigned_word_eqI)
    then have "drop_bit b (remapIndex b i) \<noteq> drop_bit b (remapIndex b j)"
      using remapIndex_separates [of b i j] fits assms(1) that(2) by simp
    then show ?thesis unfolding e unat_div_pow2 by (metis unsigned_word_eqI)
  qed
  moreover have "remapIndex b i = i" if "\<not> ?chosen" for i
  proof -
    have "b = 0" unfolding b_def GetIndexShuffleBits_chosen [OF assms(1)] using that by (rule if_not_P)
    then show ?thesis by (simp add: remapIndex_def)
  qed
  ultimately show ?thesis
    using fits assms(1) by (auto simp: remapIndex_permutes remapIndex_involution simp del: insert_iff)
qed

theorem slot_remapping_correct_witness:
  "bij_betw (remapIndex 3) {i. unat i < 256} {i. unat i < 256} \<and> remapIndex 3 1 = 8 \<and>
   unat (remapIndex 3 1) div 8 \<noteq> unat (remapIndex 3 6) div 8 \<and>
   (\<forall>i. remapIndex (GetIndexShuffleBits 1 16 8) i = i)"
proof -
  have b: "GetIndexShuffleBits 1 256 8 = 3" by code_simp
  have "remapIndex 3 1 = 8" by code_simp
  moreover have "(1 :: u32) \<noteq> 6 \<and> unat (1 :: u32) div 8 = unat (6 :: u32) div 8" by simp
  with slot_remapping_correct [of 8 1 8]
  have "bij_betw (remapIndex 3) {i. unat i < 256} {i. unat i < 256}"
    "unat (remapIndex 3 1) div 8 \<noteq> unat (remapIndex 3 6) div 8"
    by (simp_all add: b)
  moreover have "\<forall>i. remapIndex (GetIndexShuffleBits 1 16 8) i = i"
    using slot_remapping_correct [of 4 1 8] by simp
  ultimately show ?thesis by blast
qed

end
