(* ===== verification/Queue_Interface.thy ===== *)
theory Queue_Interface
  imports Itc_Prelude
begin

text \<open>
  The contract the clients of the queue rely on (the mailbox and the container of free
  entries): a bounded first-in first-out sequence. Its laws speak of a call made while no
  other thread is inside the queue. The last lemmas are the client's view: what a run of
  pushes and a run of pops does to the contents.
\<close>

locale bounded_fifo =
  fixes inv :: "'q \<Rightarrow> bool"
    and contents :: "'q \<Rightarrow> 'a list"
    and valid :: "'a \<Rightarrow> bool"
    and cap :: nat
    and try_push :: "'a \<Rightarrow> 'q \<Rightarrow> (bool \<times> 'q) res"
    and try_pop :: "'q \<Rightarrow> ('a option \<times> 'q) res"
    and push :: "'a \<Rightarrow> 'q \<Rightarrow> 'q res"
    and pop :: "'q \<Rightarrow> ('a \<times> 'q) res"
    and size_of :: "'q \<Rightarrow> u32"
  assumes contents_bound: "inv q \<Longrightarrow> length (contents q) \<le> cap"
    and cap_bound: "inv q \<Longrightarrow> cap \<le> 2 ^ 30"
    and contents_valid: "inv q \<Longrightarrow> x \<in> set (contents q) \<Longrightarrow> valid x"
    and try_push_room: "inv q \<Longrightarrow> valid x \<Longrightarrow> length (contents q) < cap \<Longrightarrow>
      \<exists>q'. try_push x q = Inr (True, q') \<and> inv q' \<and> contents q' = contents q @ [x]"
    and try_push_full: "inv q \<Longrightarrow> length (contents q) = cap \<Longrightarrow> try_push x q = Inr (False, q)"
    and try_pop_some: "inv q \<Longrightarrow> contents q = x # xs \<Longrightarrow>
      \<exists>q'. try_pop q = Inr (Some x, q') \<and> inv q' \<and> contents q' = xs"
    and try_pop_none: "inv q \<Longrightarrow> contents q = [] \<Longrightarrow> try_pop q = Inr (None, q)"
    and push_room: "inv q \<Longrightarrow> valid x \<Longrightarrow> length (contents q) < cap \<Longrightarrow>
      \<exists>q'. push x q = Inr q' \<and> inv q' \<and> contents q' = contents q @ [x]"
    and push_full: "inv q \<Longrightarrow> valid x \<Longrightarrow> length (contents q) = cap \<Longrightarrow> push x q = Inl Blocked"
    and pop_some: "inv q \<Longrightarrow> contents q = x # xs \<Longrightarrow>
      \<exists>q'. pop q = Inr (x, q') \<and> inv q' \<and> contents q' = xs"
    and pop_none: "inv q \<Longrightarrow> contents q = [] \<Longrightarrow> pop q = Inl Blocked"
    and size_of_contents: "inv q \<Longrightarrow> size_of q = of_nat (length (contents q))"
begin

lemma unat_size_of: "inv q \<Longrightarrow> unat (size_of q) = length (contents q)"
  using contents_bound [of q] cap_bound [of q]
  by (simp add: size_of_contents unat_of_nat_less)

lemma size_of_zero_iff: "inv q \<Longrightarrow> size_of q = 0 \<longleftrightarrow> contents q = []"
  by (metis length_0_conv unat_eq_zero unat_size_of)

lemma try_pop_total: "inv q \<Longrightarrow> \<exists>r q'. try_pop q = Inr (r, q') \<and> inv q'"
  by (cases "contents q") (auto dest: try_pop_some try_pop_none)

lemma try_pop_cases:
  assumes "inv q"
  obtains "contents q = []" "try_pop q = Inr (None, q)"
    | x xs q' where "contents q = x # xs" "try_pop q = Inr (Some x, q')" "inv q'"
        "contents q' = xs"
  using assms by (cases "contents q") (auto dest: try_pop_some try_pop_none)

lemma push_cases:
  assumes "inv q" "valid x"
  obtains "length (contents q) = cap" "push x q = Inl Blocked"
    | q' where "length (contents q) < cap" "push x q = Inr q'" "inv q'"
        "contents q' = contents q @ [x]"
  using assms contents_bound [OF assms(1)] push_full [OF assms] push_room [OF assms]
  by (meson le_neq_implies_less)

lemma pop_after_push_empty:
  assumes "inv q" "valid x" "contents q = []" "0 < cap" "push x q = Inr q'"
  shows "\<exists>q''. pop q' = Inr (x, q'') \<and> inv q'' \<and> contents q'' = []"
proof -
  have "inv q'" "contents q' = [x]"
    using assms push_room [OF assms(1,2)] by auto
  then show ?thesis by (rule pop_some)
qed

end

end
