(* ===== verification/LockFree_Queue.thy ===== *)
theory LockFree_Queue
  imports Queue_Index Queue_Interface
begin

text \<open>
  The operations of \<open>LockFreeQueueBase\<close> and \<open>LockFreeQueue\<close> (\<open>itcLockFreeQueue.h\<close>) as
  one thread sees them while no other thread is inside the queue: every compare-exchange
  finds what the thread has just loaded, and a thread that has to wait for a slot waits for
  ever (\<open>Blocked\<close>). The interleaved operations are the subject of \<open>Queue_Interleaving\<close>.
  The representation invariant ties the wrapping 32-bit counters to the slots; under it the
  queue refines the bounded list of \<open>Queue_Interface\<close>.
\<close>

section \<open>State and operations\<close>

record 'a lfq_cfg =
  lq_size :: u32     \<comment> \<open>\<open>m_size\<close>\<close>
  lq_bits :: nat     \<comment> \<open>\<open>SHUFFLE_BITS\<close>\<close>
  lq_nil :: 'a       \<comment> \<open>\<open>NIL\<close>\<close>

definition CACHE_LINE_SIZE :: nat where
  "CACHE_LINE_SIZE = 64"

definition lfq_template :: "u32 \<Rightarrow> u32 \<Rightarrow> 'a \<Rightarrow> nat \<Rightarrow> 'a lfq_cfg" where
  "lfq_template minimizeContention sz nil sizeofT =
     \<lparr>lq_size = queue_size minimizeContention sz,
      lq_bits = GetIndexShuffleBits minimizeContention (queue_size minimizeContention sz)
                  (CACHE_LINE_SIZE div sizeofT),
      lq_nil = nil\<rparr>"

record 'a lfq =
  q_head :: u32
  q_tail :: u32
  q_elems :: "'a list"

definition lfq_new :: "'a lfq_cfg \<Rightarrow> 'a lfq" where
  "lfq_new c = \<lparr>q_head = 0, q_tail = 0, q_elems = replicate (unat (lq_size c)) (lq_nil c)\<rparr>"

definition lfq_slot :: "'a lfq_cfg \<Rightarrow> u32 \<Rightarrow> nat" where
  "lfq_slot c ticket = unat (remapIndex (lq_bits c) (ticket mod lq_size c))"

definition doPush :: "'a lfq_cfg \<Rightarrow> 'a \<Rightarrow> u32 \<Rightarrow> 'a lfq \<Rightarrow> 'a lfq res" where
  "doPush c element head q =
     (if element = lq_nil c then Inl AssertFailed
      else if q_elems q ! lfq_slot c head \<noteq> lq_nil c then Inl Blocked
      else Inr (q\<lparr>q_elems := (q_elems q)[lfq_slot c head := element]\<rparr>))"

definition doPop :: "'a lfq_cfg \<Rightarrow> u32 \<Rightarrow> 'a lfq \<Rightarrow> ('a \<times> 'a lfq) res" where
  "doPop c tail q =
     (let element = q_elems q ! lfq_slot c tail
      in if element = lq_nil c then Inl Blocked
         else Inr (element, q\<lparr>q_elems := (q_elems q)[lfq_slot c tail := lq_nil c]\<rparr>))"

definition tryPush :: "'a lfq_cfg \<Rightarrow> 'a \<Rightarrow> 'a lfq \<Rightarrow> (bool \<times> 'a lfq) res" where
  "tryPush c element q =
     (let head = q_head q
      in if sint (head - q_tail q) \<ge> sint (lq_size c) then Inr (False, q)
         else and_then (doPush c element head (q\<lparr>q_head := head + 1\<rparr>)) (\<lambda>q'. Inr (True, q')))"

definition tryPop :: "'a lfq_cfg \<Rightarrow> 'a lfq \<Rightarrow> ('a option \<times> 'a lfq) res" where
  "tryPop c q =
     (let tail = q_tail q
      in if sint (q_head q - tail) \<le> 0 then Inr (None, q)
         else and_then (doPop c tail (q\<lparr>q_tail := tail + 1\<rparr>)) (\<lambda>(x, q'). Inr (Some x, q')))"

definition lfq_push :: "'a lfq_cfg \<Rightarrow> 'a \<Rightarrow> 'a lfq \<Rightarrow> 'a lfq res" where
  "lfq_push c element q = doPush c element (q_head q) (q\<lparr>q_head := q_head q + 1\<rparr>)"

definition lfq_pop :: "'a lfq_cfg \<Rightarrow> 'a lfq \<Rightarrow> ('a \<times> 'a lfq) res" where
  "lfq_pop c q = doPop c (q_tail q) (q\<lparr>q_tail := q_tail q + 1\<rparr>)"

definition lfq_size :: "'a lfq \<Rightarrow> u32" where
  "lfq_size q = word_of_int (max (sint (q_head q - q_tail q)) 0)"

definition lfq_empty :: "'a lfq \<Rightarrow> bool" where
  "lfq_empty q \<longleftrightarrow> lfq_size q = 0"

definition lfq_full :: "'a lfq_cfg \<Rightarrow> 'a lfq \<Rightarrow> bool" where
  "lfq_full c q \<longleftrightarrow> lfq_size q \<ge> lq_size c"

definition lfq_capacity :: "'a lfq_cfg \<Rightarrow> u32" where
  "lfq_capacity c = lq_size c"

text \<open>The special members of the base class move the counters, not the elements.\<close>

definition base_copy :: "'a lfq \<Rightarrow> u32 \<times> u32" where
  "base_copy other = (q_head other, q_tail other)"

definition base_assign :: "'a lfq \<Rightarrow> 'a lfq \<Rightarrow> 'a lfq" where
  "base_assign other q = q\<lparr>q_head := q_head other, q_tail := q_tail other\<rparr>"

definition base_swap :: "'a lfq \<times> 'a lfq \<Rightarrow> 'a lfq \<times> 'a lfq" where
  "base_swap = (\<lambda>(q, other).
     let h = q_head q; t = q_tail q
     in (q\<lparr>q_head := q_head other, q_tail := q_tail other\<rparr>, other\<lparr>q_head := h, q_tail := t\<rparr>))"

lemma base_members:
  "base_copy (base_assign other q) = base_copy other" "base_swap (base_swap x) = x"
  "lfq_size (base_assign other q) = lfq_size other" "q_elems (base_assign other q) = q_elems q"
  by (simp_all add: base_copy_def base_assign_def base_swap_def lfq_size_def Let_def split: prod.split)

text \<open>Taking an element from a queue that is not empty makes it smaller, on any state: the
  loops that drain a queue end.\<close>

lemma tail_advance_shrinks:
  assumes "\<not> lfq_empty q" "q_head q' = q_head q" "q_tail q' = q_tail q + 1"
  shows "unat (lfq_size q') < unat (lfq_size q)"
proof -
  let ?d = "q_head q - q_tail q"
  have pos: "0 < sint ?d"
    using assms(1) by (auto simp: lfq_empty_def lfq_size_def max_def split: if_splits)
  have small: "unat ?d < 2 ^ 31" "sint ?d = int (unat ?d)" "0 < unat ?d"
    using sint_pos_u32 [OF pos] .
  have "?d \<noteq> 0" using pos by auto
  then have "unat (?d - 1) = unat ?d - 1" by (rule unat_minus_one)
  then have "unat (q_head q' - q_tail q') = unat ?d - 1" by (simp add: assms(2,3) algebra_simps)
  then have "sint (q_head q' - q_tail q') = int (unat ?d - 1)"
    using small(1) by (simp add: sint_u32 del: of_nat_diff)
  then have "lfq_size q' = of_nat (unat ?d - 1)" by (simp add: lfq_size_def del: of_nat_diff)
  then have "unat (lfq_size q') = unat ?d - 1"
    using small(1) by (simp add: unat_of_nat_less del: of_nat_diff)
  moreover have "lfq_size q = of_nat (unat ?d)" unfolding lfq_size_def small(2) by simp
  then have "unat (lfq_size q) = unat ?d" by simp
  ultimately show ?thesis using small(3) by linarith
qed

lemma lfq_pop_shrinks:
  assumes "\<not> lfq_empty q" "lfq_pop c q = Inr (x, q')"
  shows "unat (lfq_size q') < unat (lfq_size q)"
  using assms(2)
  by (intro tail_advance_shrinks [OF assms(1)]) (auto simp: lfq_pop_def doPop_def Let_def split: if_splits)

lemma tryPop_shrinks:
  assumes "\<not> lfq_empty q" "tryPop c q = Inr (r, q')"
  shows "unat (lfq_size q') < unat (lfq_size q)"
proof -
  have "0 < sint (q_head q - q_tail q)"
    using assms(1) by (auto simp: lfq_empty_def lfq_size_def max_def split: if_splits)
  then show ?thesis
    using assms(2)
    by (intro tail_advance_shrinks [OF assms(1)])
      (auto simp: tryPop_def Let_def doPop_def and_then_Inr_iff split: if_splits)
qed

section \<open>Representation invariant\<close>

definition cfg_ok :: "'a lfq_cfg \<Rightarrow> bool" where
  "cfg_ok c \<longleftrightarrow> (\<exists>k \<in> set [0..<31]. lq_size c = 2 ^ k \<and> 2 * lq_bits c \<le> k)"

definition lfq_count :: "'a lfq \<Rightarrow> nat" where
  "lfq_count q = unat (q_head q - q_tail q)"

definition lfq_ok :: "'a lfq_cfg \<Rightarrow> 'a lfq \<Rightarrow> bool" where
  "lfq_ok c q \<longleftrightarrow> cfg_ok c \<and> length (q_elems q) = unat (lq_size c) \<and>
     lfq_count q \<le> unat (lq_size c) \<and>
     (\<forall>i \<in> set [0..<unat (lq_size c)].
        q_elems q ! lfq_slot c (q_tail q + of_nat i) \<noteq> lq_nil c \<longleftrightarrow> i < lfq_count q)"

definition lfq_list :: "'a lfq_cfg \<Rightarrow> 'a lfq \<Rightarrow> 'a list" where
  "lfq_list c q = map (\<lambda>i. q_elems q ! lfq_slot c (q_tail q + of_nat i)) [0..<lfq_count q]"

lemma cfg_okE:
  assumes "cfg_ok c"
  obtains k where "k \<le> 30" "lq_size c = 2 ^ k" "unat (lq_size c) = 2 ^ k" "2 * lq_bits c \<le> k"
proof -
  from assms obtain k where "k < 31" "lq_size c = 2 ^ k" "2 * lq_bits c \<le> k"
    by (auto simp: cfg_ok_def)
  then show thesis by (intro that [of k]) (simp_all add: pow2_word_unat)
qed

lemma cfg_ok_bound: "cfg_ok c \<Longrightarrow> unat (lq_size c) \<le> 2 ^ 30"
proof (elim cfg_okE)
  fix k assume "k \<le> 30" and eq: "unat (lq_size c) = 2 ^ k"
  then have "(2::nat) ^ k \<le> 2 ^ 30" by (intro power_increasing) auto
  then show ?thesis by (simp only: eq)
qed

lemma cfg_ok_pos: "cfg_ok c \<Longrightarrow> 0 < unat (lq_size c)"
  by (elim cfg_okE) simp

lemma cfg_ok_sint: "cfg_ok c \<Longrightarrow> sint (lq_size c) = int (unat (lq_size c))"
  using cfg_ok_bound [of c] by (simp add: sint_u32)

lemma lfq_slot_less: "cfg_ok c \<Longrightarrow> lfq_slot c w < unat (lq_size c)"
  unfolding lfq_slot_def by (elim cfg_okE) (simp add: remapIndex_bound unat_mod)

text \<open>Within a window of \<open>lq_size\<close> consecutive tickets no slot is used twice.\<close>

lemma mod_window_inj:
  fixes a i j n :: nat
  assumes "(a + i) mod n = (a + j) mod n" "i < n" "j < n"
  shows "i = j"
proof -
  have le: "i' = j'" if "(a + i') mod n = (a + j') mod n" "i' \<le> j'" "j' < n" for i' j'
  proof -
    have "n dvd (a + j') - (a + i')"
      using that by (intro mod_eq_dvd_iff_nat [THEN iffD1]) simp_all
    then have "n dvd j' - i'" by simp
    moreover have "j' - i' < n" using that by simp
    ultimately have "j' - i' = 0" by (metis nat_dvd_not_less neq0_conv)
    with that show ?thesis by simp
  qed
  show ?thesis
    using assms le [of i j] le [of j i] by (metis nat_le_linear)
qed

lemma unat_ticket_mod:
  assumes "k \<le> 32"
  shows "unat (t + of_nat i :: u32) mod 2 ^ k = (unat t + i) mod 2 ^ k"
proof -
  have "(2::nat) ^ k dvd 2 ^ 32" using assms by (rule le_imp_power_dvd)
  then have "unat (of_nat i :: u32) mod 2 ^ k = i mod 2 ^ k"
    by (simp add: unat_of_nat take_bit_eq_mod mod_mod_cancel)
  then show ?thesis
    using assms by (simp add: unat_plus_mod_pow2) (metis mod_add_right_eq)
qed

lemma lfq_slot_eq_iff:
  assumes "cfg_ok c" "i < unat (lq_size c)" "j < unat (lq_size c)"
  shows "lfq_slot c (t + of_nat i) = lfq_slot c (t + of_nat j) \<longleftrightarrow> i = j"
proof
  assume eq: "lfq_slot c (t + of_nat i) = lfq_slot c (t + of_nat j)"
  from assms(1) obtain k where k: "k \<le> 30" "lq_size c = 2 ^ k" "unat (lq_size c) = 2 ^ k"
      "2 * lq_bits c \<le> k" by (rule cfg_okE)
  have "2 * lq_bits c \<le> 32" using k by linarith
  moreover have "remapIndex (lq_bits c) ((t + of_nat i) mod lq_size c)
      = remapIndex (lq_bits c) ((t + of_nat j) mod lq_size c)"
    using eq by (simp only: lfq_slot_def word_unat_eq_iff)
  ultimately have "(t + of_nat i) mod lq_size c = (t + of_nat j) mod lq_size c"
    by (simp add: remapIndex_inj)
  then have "unat ((t + of_nat i) mod lq_size c) = unat ((t + of_nat j) mod lq_size c)"
    by (rule arg_cong)
  then have "unat (t + of_nat i) mod 2 ^ k = unat (t + of_nat j) mod 2 ^ k"
    by (simp only: unat_mod k(3))
  then have "(unat t + i) mod 2 ^ k = (unat t + j) mod 2 ^ k"
    using k(1) by (simp only: unat_ticket_mod)
  then show "i = j"
    using assms(2,3) unfolding k(3) by (rule mod_window_inj)
qed simp

lemma lfq_slot_periodic:
  assumes "cfg_ok c"
  shows "lfq_slot c (t + lq_size c) = lfq_slot c t"
proof -
  from assms obtain k where k: "k \<le> 30" "lq_size c = 2 ^ k" "unat (lq_size c) = 2 ^ k"
      "2 * lq_bits c \<le> k" by (rule cfg_okE)
  have "unat (t + lq_size c) mod 2 ^ k = unat t mod 2 ^ k"
    using k by (simp add: unat_plus_mod_pow2)
  then have "(t + lq_size c) mod lq_size c = t mod lq_size c"
    using k by (metis unat_mod word_unat_eq_iff)
  then show ?thesis by (simp add: lfq_slot_def)
qed

section \<open>The queue refines a bounded list\<close>

lemma lfq_okD:
  assumes "lfq_ok c q"
  shows "cfg_ok c" "length (q_elems q) = unat (lq_size c)" "lfq_count q \<le> unat (lq_size c)"
    and "i < unat (lq_size c) \<Longrightarrow>
      q_elems q ! lfq_slot c (q_tail q + of_nat i) \<noteq> lq_nil c \<longleftrightarrow> i < lfq_count q"
  using assms by (auto simp: lfq_ok_def)

lemma length_lfq_list [simp]: "length (lfq_list c q) = lfq_count q"
  by (simp add: lfq_list_def)

lemma lfq_count_diff:
  assumes "lfq_ok c q"
  shows "sint (q_head q - q_tail q) = int (lfq_count q)"
proof -
  have "lfq_count q \<le> 2 ^ 30"
    using lfq_okD [OF assms] cfg_ok_bound [of c] by linarith
  then show ?thesis by (simp add: sint_u32 lfq_count_def)
qed

lemma lfq_head: "q_head q = q_tail q + of_nat (lfq_count q)"
  by (simp add: lfq_count_def)

lemma lfq_count_word: "lfq_count q = n \<longleftrightarrow> q_head q - q_tail q = of_nat n"
  if "n < 2 ^ 32"
  using that by (auto simp: lfq_count_def unat_of_nat_less)

text \<open>What storing at the head and clearing at the tail do to the represented list.\<close>

lemma lfq_store:
  assumes ok: "lfq_ok c q" and x: "x \<noteq> lq_nil c" and room: "lfq_count q < unat (lq_size c)"
  defines "q' \<equiv> q\<lparr>q_head := q_head q + 1,
                 q_elems := (q_elems q)[lfq_slot c (q_head q) := x]\<rparr>"
  shows "lfq_ok c q'" "lfq_list c q' = lfq_list c q @ [x]"
proof -
  let ?n = "lfq_count q" and ?N = "unat (lq_size c)"
  note D = lfq_okD [OF ok]
  have N: "?N \<le> 2 ^ 30" using D(1) by (rule cfg_ok_bound)
  have slot_head: "lfq_slot c (q_head q) = lfq_slot c (q_tail q + of_nat ?n)"
    by (simp add: lfq_count_def)
  have cnt: "lfq_count q' = Suc ?n"
  proof (subst lfq_count_word)
    show "Suc ?n < 2 ^ 32" using room N by simp
    show "q_head q' - q_tail q' = of_nat (Suc ?n)"
      by (simp add: q'_def lfq_count_def)
  qed
  have nth: "q_elems q' ! lfq_slot c (q_tail q' + of_nat i) =
      (if i = ?n then x else q_elems q ! lfq_slot c (q_tail q + of_nat i))" if "i < ?N" for i
    using that room D(2) lfq_slot_less [OF D(1)]
    by (simp add: q'_def slot_head nth_list_update lfq_slot_eq_iff [OF D(1)])
  have len: "length (q_elems q') = ?N" using D(2) by (simp add: q'_def)
  show "lfq_ok c q'"
    unfolding lfq_ok_def using D room x by (auto simp: nth cnt less_Suc_eq len)
  show "lfq_list c q' = lfq_list c q @ [x]"
    using room by (simp add: lfq_list_def cnt nth)
qed

lemma lfq_clear:
  assumes ok: "lfq_ok c q" and some: "0 < lfq_count q"
  defines "q' \<equiv> q\<lparr>q_tail := q_tail q + 1,
                 q_elems := (q_elems q)[lfq_slot c (q_tail q) := lq_nil c]\<rparr>"
  shows "lfq_ok c q'" "lfq_list c q = q_elems q ! lfq_slot c (q_tail q) # lfq_list c q'"
    and "q_elems q ! lfq_slot c (q_tail q) \<noteq> lq_nil c"
proof -
  let ?n = "lfq_count q" and ?N = "unat (lq_size c)"
  note D = lfq_okD [OF ok]
  have N: "?N \<le> 2 ^ 30" using D(1) by (rule cfg_ok_bound)
  have cnt: "lfq_count q' = ?n - 1"
  proof (subst lfq_count_word)
    show "?n - 1 < 2 ^ 32" using D(3) N by simp
    show "q_head q' - q_tail q' = of_nat (?n - 1)"
      using some by (simp add: q'_def lfq_count_def of_nat_diff)
  qed
  have nth: "q_elems q' ! lfq_slot c (q_tail q' + of_nat i) =
      (if i = ?N - 1 then lq_nil c else q_elems q ! lfq_slot c (q_tail q + of_nat (Suc i)))"
    if i: "i < ?N" for i
  proof (cases "i = ?N - 1")
    case True
    then have "of_nat (Suc i) = lq_size c" using i by simp
    then have "q_tail q' + of_nat i = q_tail q + lq_size c"
      by (simp add: q'_def)
    then have "lfq_slot c (q_tail q' + of_nat i) = lfq_slot c (q_tail q)"
      by (simp only: lfq_slot_periodic [OF D(1)])
    with True show ?thesis using D(2) lfq_slot_less [OF D(1)] by (simp add: q'_def)
  next
    case False
    then have "lfq_slot c (q_tail q + of_nat (Suc i)) \<noteq> lfq_slot c (q_tail q + of_nat 0)"
      using i by (subst lfq_slot_eq_iff [OF D(1)]) auto
    with False show ?thesis by (simp add: q'_def ac_simps)
  qed
  show "q_elems q ! lfq_slot c (q_tail q) \<noteq> lq_nil c"
    using D(4) [of 0] some D(3) by simp
  have len: "length (q_elems q') = ?N" using D(2) by (simp add: q'_def)
  show "lfq_ok c q'"
    unfolding lfq_ok_def using D(1-3) some D(4) by (auto simp: nth cnt len simp del: of_nat_Suc)
  have "[0..<?n] = 0 # map Suc [0..<?n - 1]"
    using some by (simp add: map_Suc_upt upt_conv_Cons)
  then show "lfq_list c q = q_elems q ! lfq_slot c (q_tail q) # lfq_list c q'"
    using D(3) some by (auto simp: lfq_list_def cnt nth simp del: of_nat_Suc)
qed

lemma lfq_list_valid: "lfq_ok c q \<Longrightarrow> x \<in> set (lfq_list c q) \<Longrightarrow> x \<noteq> lq_nil c"
  by (auto simp: lfq_list_def lfq_ok_def)

lemma lfq_head_slot_free:
  assumes "lfq_ok c q" "lfq_count q < unat (lq_size c)"
  shows "q_elems q ! lfq_slot c (q_head q) = lq_nil c"
  using lfq_okD(4) [OF assms] by (simp add: lfq_count_def)

lemma lfq_head_slot_taken:
  assumes "lfq_ok c q" "lfq_count q = unat (lq_size c)"
  shows "q_elems q ! lfq_slot c (q_head q) \<noteq> lq_nil c"
proof -
  note D = lfq_okD [OF assms(1)]
  have "q_head q - q_tail q = lq_size c"
    using assms(2) by (simp add: lfq_count_def word_unat_eq_iff)
  then have "q_head q = q_tail q + lq_size c"
    by (simp add: diff_eq_eq add.commute)
  then have "lfq_slot c (q_head q) = lfq_slot c (q_tail q + of_nat 0)"
    by (simp add: lfq_slot_periodic [OF D(1)])
  then show ?thesis using D(4) [of 0] cfg_ok_pos [OF D(1)] assms(2) by simp
qed

lemma lfq_tail_slot_free:
  assumes "lfq_ok c q" "lfq_count q = 0"
  shows "q_elems q ! lfq_slot c (q_tail q) = lq_nil c"
  using lfq_okD(4) [OF assms(1), of 0] cfg_ok_pos [OF lfq_okD(1) [OF assms(1)]] assms(2) by simp

lemmas lfq_op_defs = tryPush_def tryPop_def lfq_push_def lfq_pop_def doPush_def doPop_def Let_def

lemma lfq_try_push:
  assumes "lfq_ok c q" "x \<noteq> lq_nil c" "lfq_count q < unat (lq_size c)"
  shows "\<exists>q'. tryPush c x q = Inr (True, q') \<and> lfq_ok c q' \<and> lfq_list c q' = lfq_list c q @ [x]"
proof -
  have "\<not> sint (lq_size c) \<le> sint (q_head q - q_tail q)"
    using assms(3) lfq_count_diff [OF assms(1)] cfg_ok_sint [OF lfq_okD(1) [OF assms(1)]]
    by (simp only: of_nat_le_iff not_le)
  then show ?thesis
    using assms lfq_store [OF assms] lfq_head_slot_free [OF assms(1,3)]
    by (simp add: lfq_op_defs)
qed

lemma lfq_try_push_full:
  assumes "lfq_ok c q" "lfq_count q = unat (lq_size c)"
  shows "tryPush c x q = Inr (False, q)"
  using assms lfq_count_diff [OF assms(1)] cfg_ok_sint [OF lfq_okD(1) [OF assms(1)]]
  by (simp add: lfq_op_defs)

lemma lfq_try_pop:
  assumes "lfq_ok c q" "lfq_list c q = x # xs"
  shows "\<exists>q'. tryPop c q = Inr (Some x, q') \<and> lfq_ok c q' \<and> lfq_list c q' = xs"
proof -
  have "0 < lfq_count q" using assms(2) by (metis length_greater_0_conv length_lfq_list list.discI)
  then show ?thesis
    using assms lfq_clear [OF assms(1)] lfq_count_diff [OF assms(1)] by (simp add: lfq_op_defs)
qed

lemma lfq_try_pop_empty:
  assumes "lfq_ok c q" "lfq_list c q = []"
  shows "tryPop c q = Inr (None, q)"
  using assms lfq_count_diff [OF assms(1)] by (simp add: lfq_op_defs lfq_list_def)

lemma lfq_push_room:
  assumes "lfq_ok c q" "x \<noteq> lq_nil c" "lfq_count q < unat (lq_size c)"
  shows "\<exists>q'. lfq_push c x q = Inr q' \<and> lfq_ok c q' \<and> lfq_list c q' = lfq_list c q @ [x]"
  using assms lfq_store [OF assms] lfq_head_slot_free [OF assms(1,3)] by (simp add: lfq_op_defs)

lemma lfq_push_full:
  assumes "lfq_ok c q" "x \<noteq> lq_nil c" "lfq_count q = unat (lq_size c)"
  shows "lfq_push c x q = Inl Blocked"
  using assms lfq_head_slot_taken [OF assms(1,3)] by (simp add: lfq_op_defs)

lemma lfq_pop_some:
  assumes "lfq_ok c q" "lfq_list c q = x # xs"
  shows "\<exists>q'. lfq_pop c q = Inr (x, q') \<and> lfq_ok c q' \<and> lfq_list c q' = xs"
proof -
  have "0 < lfq_count q" using assms(2) by (metis length_greater_0_conv length_lfq_list list.discI)
  then show ?thesis using assms lfq_clear [OF assms(1)] by (simp add: lfq_op_defs)
qed

lemma lfq_pop_empty:
  assumes "lfq_ok c q" "lfq_list c q = []"
  shows "lfq_pop c q = Inl Blocked"
  using assms lfq_tail_slot_free [OF assms(1)] by (simp add: lfq_op_defs lfq_list_def)

lemma lfq_size_count: "lfq_ok c q \<Longrightarrow> lfq_size q = of_nat (lfq_count q)"
  by (simp add: lfq_size_def lfq_count_diff)

interpretation lfq: bounded_fifo "lfq_ok c" "lfq_list c" "\<lambda>x. x \<noteq> lq_nil c" "unat (lq_size c)"
    "tryPush c" "tryPop c" "lfq_push c" "lfq_pop c" lfq_size
  for c :: "'a lfq_cfg"
  by unfold_locales
    (auto simp: lfq_okD cfg_ok_bound [simplified] lfq_size_count lfq_try_push lfq_try_push_full
      lfq_try_pop_empty lfq_push_room lfq_push_full lfq_pop_empty
      intro: lfq_try_pop lfq_pop_some dest: lfq_list_valid)

lemma lfq_new_ok: "cfg_ok c \<Longrightarrow> lfq_ok c (lfq_new c)"
  by (simp add: lfq_ok_def lfq_new_def lfq_count_def lfq_slot_less)

lemma lfq_new_list: "lfq_list c (lfq_new c) = []"
  by (simp add: lfq_list_def lfq_new_def lfq_count_def)

text \<open>Every queue type of the program (contention minimised, at most \<open>2 ^ 30\<close> slots) is well formed.\<close>

lemma roundUp_pow2:
  assumes "a \<noteq> 0"
  shows "roundUpToPowerOf2 a = 2 ^ (LEAST k. unat a \<le> 2 ^ k)"
  unfolding roundUpToPowerOf2_def
  using assms smeared_orEqual_32 [of "a - 1"]
  by (intro roundUp_word) (simp_all del: orEqual.simps)

lemma cfg_ok_template:
  assumes "m \<noteq> 0" "0 < unat sz" "unat sz \<le> 2 ^ 30"
  shows "cfg_ok (lfq_template m sz nil e)"
proof -
  define k where "k = (LEAST k. unat sz \<le> 2 ^ k)"
  have "k \<le> 30" unfolding k_def using assms(3) by (rule Least_pow2(2))
  moreover have "sz \<noteq> 0" using assms(2) by auto
  then have "queue_size m sz = 2 ^ k"
    using assms(1) by (simp add: queue_size_def roundUp_pow2 k_def)
  ultimately show ?thesis
    using GetIndexShuffleBits_fits [of k m "CACHE_LINE_SIZE div e"]
    by (auto simp: cfg_ok_def lfq_template_def intro!: bexI [of _ k])
qed

section \<open>Runs of operations\<close>

text \<open>
  A run of calls made by one thread, against the same run on a bounded list. \<open>Blocked\<close>
  ends the run of both: the blocking push of a full queue and the blocking pop of an empty
  one do not return.
\<close>

datatype 'a queue_op = OpTryPush 'a | OpTryPop | OpPush 'a | OpPop | OpSize

datatype 'a queue_ret = RetPushed bool | RetPopped "'a option" | RetSize u32

fun queue_op_valid :: "'a \<Rightarrow> 'a queue_op \<Rightarrow> bool" where
  "queue_op_valid nil (OpTryPush x) \<longleftrightarrow> x \<noteq> nil"
| "queue_op_valid nil (OpPush x) \<longleftrightarrow> x \<noteq> nil"
| "queue_op_valid nil _ \<longleftrightarrow> True"

fun lfq_do :: "'a lfq_cfg \<Rightarrow> 'a queue_op \<Rightarrow> 'a lfq \<Rightarrow> ('a queue_ret \<times> 'a lfq) res" where
  "lfq_do c (OpTryPush x) q = and_then (tryPush c x q) (\<lambda>(b, q'). Inr (RetPushed b, q'))"
| "lfq_do c OpTryPop q = and_then (tryPop c q) (\<lambda>(r, q'). Inr (RetPopped r, q'))"
| "lfq_do c (OpPush x) q = and_then (lfq_push c x q) (\<lambda>q'. Inr (RetPushed True, q'))"
| "lfq_do c OpPop q = and_then (lfq_pop c q) (\<lambda>(x, q'). Inr (RetPopped (Some x), q'))"
| "lfq_do c OpSize q = Inr (RetSize (lfq_size q), q)"

fun fifo_do :: "nat \<Rightarrow> 'a queue_op \<Rightarrow> 'a list \<Rightarrow> ('a queue_ret \<times> 'a list) res" where
  "fifo_do cap (OpTryPush x) xs =
     (if length xs < cap then Inr (RetPushed True, xs @ [x]) else Inr (RetPushed False, xs))"
| "fifo_do cap OpTryPop [] = Inr (RetPopped None, [])"
| "fifo_do cap OpTryPop (x # xs) = Inr (RetPopped (Some x), xs)"
| "fifo_do cap (OpPush x) xs =
     (if length xs < cap then Inr (RetPushed True, xs @ [x]) else Inl Blocked)"
| "fifo_do cap OpPop [] = Inl Blocked"
| "fifo_do cap OpPop (x # xs) = Inr (RetPopped (Some x), xs)"
| "fifo_do cap OpSize xs = Inr (RetSize (of_nat (length xs)), xs)"

fun run_ops :: "('op \<Rightarrow> 's \<Rightarrow> ('r \<times> 's) res) \<Rightarrow> 'op list \<Rightarrow> 's \<Rightarrow> ('r list \<times> 's) res" where
  "run_ops f [] s = Inr ([], s)"
| "run_ops f (x # xs) s =
     and_then (f x s) (\<lambda>(r, s'). and_then (run_ops f xs s') (\<lambda>(rs, s''). Inr (r # rs, s'')))"

lemma lfq_do_simulates:
  assumes "lfq_ok c q" "queue_op_valid (lq_nil c) x"
  shows "(\<exists>r q'. lfq_do c x q = Inr (r, q') \<and> lfq_ok c q' \<and>
            fifo_do (unat (lq_size c)) x (lfq_list c q) = Inr (r, lfq_list c q')) \<or>
         lfq_do c x q = Inl Blocked \<and> fifo_do (unat (lq_size c)) x (lfq_list c q) = Inl Blocked"
proof (cases x)
  case (OpTryPush y)
  with assms show ?thesis
    using lfq.contents_bound [OF assms(1)] lfq.try_push_room [OF assms(1), of y]
      lfq.try_push_full [OF assms(1), of y]
    by (cases "length (lfq_list c q) < unat (lq_size c)") auto
next
  case OpTryPop
  from assms(1) show ?thesis
    unfolding OpTryPop by (rule lfq.try_pop_cases) (auto simp: assms(1))
next
  case (OpPush y)
  with assms(2) have "y \<noteq> lq_nil c" by simp
  from assms(1) this OpPush show ?thesis by (cases rule: lfq.push_cases) auto
next
  case OpPop
  with assms(1) show ?thesis
    by (cases "lfq_list c q") (auto dest: lfq.pop_some lfq.pop_none)
next
  case OpSize
  with assms(1) show ?thesis by (simp add: lfq.size_of_contents)
qed

text \<open>C2: Run from any well-formed state of the queue, at whatever value the wrapping 32-bit
  counters stand, every sequence of try-push, try-pop, push, pop and size calls returns
  exactly what the same sequence returns on a bounded list (blocking where the list model
  blocks), and leaves the queue well formed and holding that list.\<close>

theorem lfq_run_refines_fifo:
  assumes "lfq_ok c q" "list_all (queue_op_valid (lq_nil c)) ops"
  shows "map_sum id (apsnd (lfq_list c)) (run_ops (lfq_do c) ops q) =
           run_ops (fifo_do (unat (lq_size c))) ops (lfq_list c q) \<and>
         (\<forall>rs q'. run_ops (lfq_do c) ops q = Inr (rs, q') \<longrightarrow> lfq_ok c q')"
  using assms
proof (induction ops arbitrary: q)
  case (Cons x ops)
  from Cons.prems lfq_do_simulates [of c q x] consider
      (returns) r q' where "lfq_do c x q = Inr (r, q')" "lfq_ok c q'"
        "fifo_do (unat (lq_size c)) x (lfq_list c q) = Inr (r, lfq_list c q')"
    | (blocks) "lfq_do c x q = Inl Blocked"
        "fifo_do (unat (lq_size c)) x (lfq_list c q) = Inl Blocked"
    by auto
  then show ?case
  proof cases
    case returns
    with Cons.IH [of q'] Cons.prems show ?thesis
      by (cases "run_ops (lfq_do c) ops q'";
          cases "run_ops (fifo_do (unat (lq_size c))) ops (lfq_list c q')") auto
  qed simp
qed simp

definition wrap_queue :: "nat lfq" where
  "wrap_queue = (lfq_new (lfq_template 1 3 (0::nat) 8))\<lparr>q_head := - 1, q_tail := - 1\<rparr>"

theorem lfq_run_refines_fifo_witness:
  "map_sum id (apsnd (lfq_list (lfq_template 1 3 0 8)))
     (run_ops (lfq_do (lfq_template 1 3 0 8)) [OpPush 5, OpTryPush 7, OpPop, OpSize] wrap_queue) =
   Inr ([RetPushed True, RetPushed True, RetPopped (Some 5), RetSize 1], [7])"
proof -
  have ok: "lfq_ok (lfq_template 1 3 0 8) wrap_queue" by code_simp
  have sz: "unat (lq_size (lfq_template 1 3 (0::nat) 8)) = 4" by code_simp
  have ls: "lfq_list (lfq_template 1 3 0 8) wrap_queue = []" by code_simp
  have "list_all (queue_op_valid (lq_nil (lfq_template 1 3 0 8)))
      [OpPush 5, OpTryPush 7, OpPop, OpSize :: nat queue_op]" by code_simp
  from lfq_run_refines_fifo [OF ok this] show ?thesis
    by (simp add: sz ls)
qed

end
