(* ===== verification/Queue_SPSC.thy ===== *)
theory Queue_SPSC
  imports LockFree_Queue
begin

text \<open>
  The branch of \<open>itcLockFreeQueue.h\<close> for one producer and one consumer (\<open>m_isSPSC\<close>): plain loads
  and stores of the counters and of the slots in the place of the compare-exchanges. Each atomic
  access is one move of the thread that makes it; a thread is deterministic, the order of the two
  threads is arbitrary. The model is sequentially consistent. A spinning iteration that changes
  nothing is no move. The second part is \<open>benchmarkSPSC\<close> of \<open>itcLockFreeQueueTest.cc\<close>.
\<close>

section \<open>Moves\<close>

datatype 'a producer =
    PIdle
  | PCheck 'a u32    \<comment> \<open>\<open>tryPush\<close>, \<open>head\<close> loaded; next: load \<open>m_tail\<close> and compare\<close>
  | PBump 'a u32     \<comment> \<open>next: store \<open>head + 1\<close>\<close>
  | PWait 'a u32     \<comment> \<open>\<open>doPushAtomic\<close>; next: load the slot\<close>
  | PStore 'a u32    \<comment> \<open>the slot was empty; next: store the element\<close>

datatype 'a consumer =
    CIdle
  | CCheck u32       \<comment> \<open>\<open>tryPop\<close>, \<open>tail\<close> loaded; next: load \<open>m_head\<close> and compare\<close>
  | CBump u32        \<comment> \<open>next: store \<open>tail + 1\<close>\<close>
  | CWait u32        \<comment> \<open>\<open>doPopAtomic\<close>; next: load the slot\<close>
  | CClear u32 'a    \<comment> \<open>the slot held the element; next: store \<open>NIL\<close> and return it\<close>

record 'a spsc =
  sp_q :: "'a lfq"
  sp_prod :: "'a producer"
  sp_cons :: "'a consumer"
  gh_stored :: "'a list"      \<comment> \<open>elements stored, in order\<close>
  gh_delivered :: "'a list"   \<comment> \<open>elements returned, in order\<close>

definition spsc_new :: "'a lfq_cfg \<Rightarrow> 'a spsc" where
  "spsc_new c = \<lparr>sp_q = lfq_new c, sp_prod = PIdle, sp_cons = CIdle, gh_stored = [], gh_delivered = []\<rparr>"

definition spsc_call_tryPush :: "'a \<Rightarrow> 'a spsc \<Rightarrow> 'a spsc" where
  "spsc_call_tryPush x s = s\<lparr>sp_prod := PCheck x (q_head (sp_q s))\<rparr>"

definition spsc_call_push :: "'a \<Rightarrow> 'a spsc \<Rightarrow> 'a spsc" where
  "spsc_call_push x s = s\<lparr>sp_prod := PBump x (q_head (sp_q s))\<rparr>"

definition spsc_call_tryPop :: "'a spsc \<Rightarrow> 'a spsc" where
  "spsc_call_tryPop s = s\<lparr>sp_cons := CCheck (q_tail (sp_q s))\<rparr>"

definition spsc_call_pop :: "'a spsc \<Rightarrow> 'a spsc" where
  "spsc_call_pop s = s\<lparr>sp_cons := CBump (q_tail (sp_q s))\<rparr>"

fun spsc_push_move :: "'a lfq_cfg \<Rightarrow> 'a spsc \<Rightarrow> 'a spsc option" where
  "spsc_push_move c s =
     (let q = sp_q s in
      case sp_prod s of
        PIdle \<Rightarrow> None
      | PCheck x head \<Rightarrow>
          if sint (head - q_tail q) \<ge> sint (lq_size c) then Some (s\<lparr>sp_prod := PIdle\<rparr>)
          else Some (s\<lparr>sp_prod := PBump x head\<rparr>)
      | PBump x head \<Rightarrow> Some (s\<lparr>sp_q := q\<lparr>q_head := head + 1\<rparr>, sp_prod := PWait x head\<rparr>)
      | PWait x head \<Rightarrow>
          if q_elems q ! lfq_slot c head \<noteq> lq_nil c then None
          else Some (s\<lparr>sp_prod := PStore x head\<rparr>)
      | PStore x head \<Rightarrow>
          Some (s\<lparr>sp_q := q\<lparr>q_elems := (q_elems q)[lfq_slot c head := x]\<rparr>, sp_prod := PIdle,
                  gh_stored := gh_stored s @ [x]\<rparr>))"

fun spsc_pop_move :: "'a lfq_cfg \<Rightarrow> 'a spsc \<Rightarrow> 'a spsc option" where
  "spsc_pop_move c s =
     (let q = sp_q s in
      case sp_cons s of
        CIdle \<Rightarrow> None
      | CCheck tail \<Rightarrow>
          if sint (q_head q - tail) \<le> 0 then Some (s\<lparr>sp_cons := CIdle\<rparr>)
          else Some (s\<lparr>sp_cons := CBump tail\<rparr>)
      | CBump tail \<Rightarrow> Some (s\<lparr>sp_q := q\<lparr>q_tail := tail + 1\<rparr>, sp_cons := CWait tail\<rparr>)
      | CWait tail \<Rightarrow>
          let element = q_elems q ! lfq_slot c tail
          in if element = lq_nil c then None else Some (s\<lparr>sp_cons := CClear tail element\<rparr>)
      | CClear tail element \<Rightarrow>
          Some (s\<lparr>sp_q := q\<lparr>q_elems := (q_elems q)[lfq_slot c tail := lq_nil c]\<rparr>, sp_cons := CIdle,
                  gh_delivered := gh_delivered s @ [element]\<rparr>))"

declare spsc_push_move.simps [simp del] spsc_pop_move.simps [simp del]

inductive spsc_step :: "'a lfq_cfg \<Rightarrow> 'a spsc \<Rightarrow> 'a spsc \<Rightarrow> bool" for c s where
  try_push: "sp_prod s = PIdle \<Longrightarrow> x \<noteq> lq_nil c \<Longrightarrow> spsc_step c s (spsc_call_tryPush x s)"
| push: "sp_prod s = PIdle \<Longrightarrow> x \<noteq> lq_nil c \<Longrightarrow> spsc_step c s (spsc_call_push x s)"
| try_pop: "sp_cons s = CIdle \<Longrightarrow> spsc_step c s (spsc_call_tryPop s)"
| pop: "sp_cons s = CIdle \<Longrightarrow> spsc_step c s (spsc_call_pop s)"
| producer: "spsc_push_move c s = Some s' \<Longrightarrow> spsc_step c s s'"
| consumer: "spsc_pop_move c s = Some s' \<Longrightarrow> spsc_step c s s'"

inductive spsc_reachable :: "'a lfq_cfg \<Rightarrow> 'a spsc \<Rightarrow> bool" for c where
  start: "spsc_reachable c (spsc_new c)"
| step: "spsc_reachable c s \<Longrightarrow> spsc_step c s s' \<Longrightarrow> spsc_reachable c s'"

text \<open>A schedule that is given: each action is a call or the next move of a thread.\<close>

datatype 'a spsc_action = ActTryPush 'a | ActPush 'a | ActTryPop | ActPop | ActProducer | ActConsumer

fun spsc_act :: "'a lfq_cfg \<Rightarrow> 'a spsc_action \<Rightarrow> 'a spsc \<Rightarrow> 'a spsc option" where
  "spsc_act c (ActTryPush x) s = (if sp_prod s = PIdle \<and> x \<noteq> lq_nil c then Some (spsc_call_tryPush x s) else None)"
| "spsc_act c (ActPush x) s = (if sp_prod s = PIdle \<and> x \<noteq> lq_nil c then Some (spsc_call_push x s) else None)"
| "spsc_act c ActTryPop s = (if sp_cons s = CIdle then Some (spsc_call_tryPop s) else None)"
| "spsc_act c ActPop s = (if sp_cons s = CIdle then Some (spsc_call_pop s) else None)"
| "spsc_act c ActProducer s = spsc_push_move c s"
| "spsc_act c ActConsumer s = spsc_pop_move c s"

fun spsc_run :: "'a lfq_cfg \<Rightarrow> 'a spsc_action list \<Rightarrow> 'a spsc \<Rightarrow> 'a spsc option" where
  "spsc_run c [] s = Some s"
| "spsc_run c (a # as) s = Option.bind (spsc_act c a s) (spsc_run c as)"

lemma spsc_act_step: "spsc_act c a s = Some s' \<Longrightarrow> spsc_step c s s'"
  by (cases a) (auto intro: spsc_step.intros split: if_splits)

lemma spsc_run_reachable: "spsc_reachable c s \<Longrightarrow> spsc_run c as s = Some s' \<Longrightarrow> spsc_reachable c s'"
  by (induction as arbitrary: s) (auto simp: bind_eq_Some_conv, meson spsc_act_step spsc_reachable.step)

section \<open>The invariant\<close>

text \<open>Of the elements stored, the first \<open>length (gh_delivered s)\<close> have been delivered and the others lie
  in their slots; each thread is at most one ticket ahead of what it has done.\<close>

fun prod_at :: "'a lfq_cfg \<Rightarrow> nat \<Rightarrow> nat \<Rightarrow> 'a producer \<Rightarrow> u32 \<Rightarrow> bool" where
  "prod_at c p d PIdle head \<longleftrightarrow> head = of_nat p"
| "prod_at c p d (PCheck x h) head \<longleftrightarrow> head = of_nat p \<and> h = of_nat p \<and> x \<noteq> lq_nil c"
| "prod_at c p d (PBump x h) head \<longleftrightarrow> head = of_nat p \<and> h = of_nat p \<and> x \<noteq> lq_nil c"
| "prod_at c p d (PWait x h) head \<longleftrightarrow> head = of_nat (Suc p) \<and> h = of_nat p \<and> x \<noteq> lq_nil c"
| "prod_at c p d (PStore x h) head \<longleftrightarrow>
     head = of_nat (Suc p) \<and> h = of_nat p \<and> x \<noteq> lq_nil c \<and> p < d + unat (lq_size c)"

fun cons_at :: "'a lfq_cfg \<Rightarrow> 'a list \<Rightarrow> nat \<Rightarrow> 'a consumer \<Rightarrow> u32 \<Rightarrow> bool" where
  "cons_at c xs d CIdle tail \<longleftrightarrow> tail = of_nat d"
| "cons_at c xs d (CCheck t) tail \<longleftrightarrow> tail = of_nat d \<and> t = of_nat d"
| "cons_at c xs d (CBump t) tail \<longleftrightarrow> tail = of_nat d \<and> t = of_nat d"
| "cons_at c xs d (CWait t) tail \<longleftrightarrow> tail = of_nat (Suc d) \<and> t = of_nat d"
| "cons_at c xs d (CClear t y) tail \<longleftrightarrow> tail = of_nat (Suc d) \<and> t = of_nat d \<and> d < length xs \<and> y = xs ! d"

definition slots_hold :: "'a lfq_cfg \<Rightarrow> 'a list \<Rightarrow> nat \<Rightarrow> 'a list \<Rightarrow> bool" where
  "slots_hold c xs d es \<longleftrightarrow> length es = unat (lq_size c) \<and> d \<le> length xs \<and>
     length xs \<le> d + unat (lq_size c) \<and> lq_nil c \<notin> set xs \<and>
     (\<forall>i < unat (lq_size c). es ! lfq_slot c (of_nat d + of_nat i) =
        (if d + i < length xs then xs ! (d + i) else lq_nil c))"

definition spsc_inv :: "'a lfq_cfg \<Rightarrow> 'a spsc \<Rightarrow> bool" where
  "spsc_inv c s \<longleftrightarrow> gh_delivered s = take (length (gh_delivered s)) (gh_stored s) \<and>
     slots_hold c (gh_stored s) (length (gh_delivered s)) (q_elems (sp_q s)) \<and>
     prod_at c (length (gh_stored s)) (length (gh_delivered s)) (sp_prod s) (q_head (sp_q s)) \<and>
     cons_at c (gh_stored s) (length (gh_delivered s)) (sp_cons s) (q_tail (sp_q s))"

lemma slots_hold_new: "slots_hold c [] 0 (replicate (unat (lq_size c)) (lq_nil c))" if "cfg_ok c"
  using lfq_slot_less [OF that] by (simp add: slots_hold_def)

lemma slots_hold_last:
  assumes "cfg_ok c" "slots_hold c xs d es" "length xs = d + unat (lq_size c)"
  shows "es ! lfq_slot c (of_nat (length xs)) = xs ! d" "d < length xs"
proof -
  have "lfq_slot c (of_nat (length xs)) = lfq_slot c (of_nat d + of_nat 0)"
    using lfq_slot_periodic [OF assms(1), of "of_nat d"] assms(3) by simp
  then show "es ! lfq_slot c (of_nat (length xs)) = xs ! d"
    using assms cfg_ok_pos [OF assms(1)] by (auto simp: slots_hold_def)
  show "d < length xs" using assms(3) cfg_ok_pos [OF assms(1)] by simp
qed

lemma slots_hold_store:
  assumes "cfg_ok c" "slots_hold c xs d es" "length xs < d + unat (lq_size c)" "x \<noteq> lq_nil c"
  shows "slots_hold c (xs @ [x]) d (es[lfq_slot c (of_nat (length xs)) := x])"
proof -
  let ?N = "unat (lq_size c)" and ?es = "es[lfq_slot c (of_nat (length xs)) := x]"
  define n where "n = length xs - d"
  have n: "n < ?N" "length xs = d + n" using assms(2,3) by (auto simp: slots_hold_def n_def)
  have es: "length es = ?N" using assms(2) by (simp add: slots_hold_def)
  have "?es ! lfq_slot c (of_nat d + of_nat i) = (if d + i < length (xs @ [x]) then (xs @ [x]) ! (d + i) else lq_nil c)"
    if i: "i < ?N" for i
  proof (cases "i = n")
    case True
    then show ?thesis using es lfq_slot_less [OF assms(1)] n(2) by (simp add: nth_append)
  next
    case False
    then have "lfq_slot c (of_nat d + of_nat i) \<noteq> lfq_slot c (of_nat (length xs))"
      using lfq_slot_eq_iff [OF assms(1) i n(1), of "of_nat d"] n(2) by simp
    then have "?es ! lfq_slot c (of_nat d + of_nat i) = (if d + i < length xs then xs ! (d + i) else lq_nil c)"
      using assms(2) i by (simp add: slots_hold_def)
    with False show ?thesis using n(2) by (simp add: nth_append)
  qed
  then show ?thesis using assms(2-4) by (simp add: slots_hold_def)
qed

lemma slots_hold_clear:
  assumes "cfg_ok c" "slots_hold c xs d es" "d < length xs"
  shows "slots_hold c xs (Suc d) (es[lfq_slot c (of_nat d) := lq_nil c])"
proof -
  let ?N = "unat (lq_size c)" and ?es = "es[lfq_slot c (of_nat d) := lq_nil c]"
  have es: "length es = ?N" "length xs \<le> d + ?N" "lq_nil c \<notin> set xs" using assms(2) by (auto simp: slots_hold_def)
  have "?es ! lfq_slot c (of_nat (Suc d) + of_nat i) =
      (if Suc d + i < length xs then xs ! (Suc d + i) else lq_nil c)" if i: "i < ?N" for i
  proof (cases "Suc i < ?N")
    case True
    have "lfq_slot c (of_nat d + of_nat (Suc i)) = lfq_slot c (of_nat d + of_nat 0) \<longleftrightarrow> Suc i = 0"
      using lfq_slot_eq_iff [OF assms(1) True] cfg_ok_pos [OF assms(1)] by blast
    moreover have "es ! lfq_slot c (of_nat d + of_nat (Suc i)) =
        (if d + Suc i < length xs then xs ! (d + Suc i) else lq_nil c)"
      using assms(2) True unfolding slots_hold_def by blast
    ultimately show ?thesis by (simp add: add.commute add.left_commute)
  next
    case False
    with i have N: "Suc i = ?N" by simp
    have "of_nat (Suc d) + of_nat i = of_nat d + lq_size c"
      using arg_cong [OF N, of "of_nat :: nat \<Rightarrow> u32"] by (simp add: algebra_simps)
    then have "lfq_slot c (of_nat (Suc d) + of_nat i) = lfq_slot c (of_nat d)"
      using lfq_slot_periodic [OF assms(1), of "of_nat d"] by (simp only:)
    then show ?thesis using lfq_slot_less [OF assms(1)] es N by simp
  qed
  then show ?thesis using assms(2,3) es by (simp add: slots_hold_def)
qed

lemma slots_hold_at:
  assumes "cfg_ok c" "slots_hold c xs d es"
  shows "es ! lfq_slot c (of_nat d) = (if d < length xs then xs ! d else lq_nil c)"
proof -
  have "es ! lfq_slot c (of_nat d + of_nat 0) = (if d + 0 < length xs then xs ! (d + 0) else lq_nil c)"
    using assms(2) cfg_ok_pos [OF assms(1)] unfolding slots_hold_def by blast
  then show ?thesis by simp
qed

lemma slots_hold_not_nil: "slots_hold c xs d es \<Longrightarrow> i < length xs \<Longrightarrow> xs ! i \<noteq> lq_nil c"
  unfolding slots_hold_def by (metis nth_mem)

text \<open>A slot found empty by the producer is free to store to, and one found occupied by the consumer
  holds the oldest element.\<close>

lemma empty_slot_free:
  assumes "cfg_ok c" "slots_hold c xs d es" "es ! lfq_slot c (of_nat (length xs)) = lq_nil c"
  shows "length xs < d + unat (lq_size c)"
proof (rule ccontr)
  assume "\<not> length xs < d + unat (lq_size c)"
  then have "length xs = d + unat (lq_size c)" using assms(2) by (simp add: slots_hold_def)
  from slots_hold_last [OF assms(1,2) this] slots_hold_not_nil [OF assms(2)] assms(3) show False by auto
qed

lemma occupied_slot_oldest:
  assumes "cfg_ok c" "slots_hold c xs d es" "es ! lfq_slot c (of_nat d) \<noteq> lq_nil c"
  shows "d < length xs" "es ! lfq_slot c (of_nat d) = xs ! d"
  using slots_hold_at [OF assms(1,2)] assms(3) by (auto split: if_splits)

text \<open>What a move of one thread changes does not disturb what is known of the other.\<close>

lemma prod_at_delivered: "prod_at c p d P h \<Longrightarrow> prod_at c p (Suc d) P h"
  by (cases P) auto

lemma cons_at_stored: "cons_at c xs d C t \<Longrightarrow> cons_at c (xs @ [x]) d C t"
  by (cases C) (auto simp: nth_append)

lemma spsc_inv_new: "cfg_ok c \<Longrightarrow> spsc_inv c (spsc_new c)"
  by (simp add: spsc_inv_def spsc_new_def lfq_new_def slots_hold_new)

lemma spsc_inv_push_move:
  assumes "cfg_ok c" "spsc_inv c s" "spsc_push_move c s = Some s'"
  shows "spsc_inv c s'"
proof (cases "sp_prod s")
  case (PWait x h)
  with assms empty_slot_free [OF assms(1), of "gh_stored s"] show ?thesis
    by (auto simp: spsc_inv_def spsc_push_move.simps Let_def split: if_splits)
next
  case (PStore x h)
  with assms(2) have "slots_hold c (gh_stored s @ [x]) (length (gh_delivered s))
      ((q_elems (sp_q s))[lfq_slot c (of_nat (length (gh_stored s))) := x])"
    by (intro slots_hold_store [OF assms(1)]) (auto simp: spsc_inv_def)
  moreover have "length (gh_delivered s) \<le> length (gh_stored s)"
    using assms(2) by (simp add: spsc_inv_def slots_hold_def)
  ultimately show ?thesis
    using assms(2,3) PStore by (auto simp: spsc_inv_def spsc_push_move.simps Let_def cons_at_stored)
qed (use assms in \<open>auto simp: spsc_inv_def spsc_push_move.simps Let_def split: if_splits\<close>)

lemma spsc_inv_pop_move:
  assumes "cfg_ok c" "spsc_inv c s" "spsc_pop_move c s = Some s'"
  shows "spsc_inv c s'"
proof (cases "sp_cons s")
  case (CWait t)
  with assms occupied_slot_oldest [OF assms(1), of "gh_stored s"] show ?thesis
    by (auto simp: spsc_inv_def spsc_pop_move.simps Let_def split: if_splits)
next
  case (CClear t y)
  let ?d = "length (gh_delivered s)"
  from CClear assms(2) have y: "?d < length (gh_stored s)" "y = gh_stored s ! ?d" "t = of_nat ?d"
    "gh_delivered s = take ?d (gh_stored s)" by (auto simp: spsc_inv_def)
  then have "gh_delivered s @ [y] = take (Suc ?d) (gh_stored s)" by (metis take_Suc_conv_app_nth)
  with y CClear assms slots_hold_clear [OF assms(1) _ y(1)] show ?thesis
    by (auto simp: spsc_inv_def spsc_pop_move.simps Let_def prod_at_delivered)
qed (use assms in \<open>auto simp: spsc_inv_def spsc_pop_move.simps Let_def split: if_splits\<close>)

lemma spsc_inv_call:
  assumes "spsc_inv c s"
  shows "sp_prod s = PIdle \<Longrightarrow> x \<noteq> lq_nil c \<Longrightarrow> spsc_inv c (spsc_call_tryPush x s)"
    and "sp_prod s = PIdle \<Longrightarrow> x \<noteq> lq_nil c \<Longrightarrow> spsc_inv c (spsc_call_push x s)"
    and "sp_cons s = CIdle \<Longrightarrow> spsc_inv c (spsc_call_tryPop s)"
    and "sp_cons s = CIdle \<Longrightarrow> spsc_inv c (spsc_call_pop s)"
  using assms
  by (simp_all add: spsc_inv_def spsc_call_tryPush_def spsc_call_push_def spsc_call_tryPop_def spsc_call_pop_def)

lemma spsc_step_inv:
  assumes "spsc_step c s s'" "cfg_ok c" "spsc_inv c s"
  shows "spsc_inv c s'"
  using assms by (cases rule: spsc_step.cases) (auto intro: spsc_inv_call spsc_inv_push_move spsc_inv_pop_move)

lemma spsc_reachable_inv: "spsc_reachable c s \<Longrightarrow> cfg_ok c \<Longrightarrow> spsc_inv c s"
  by (induction rule: spsc_reachable.induct) (auto intro: spsc_inv_new spsc_step_inv)

section \<open>What the two threads can rely on\<close>

text \<open>The counters differ by what is held, give or take the call each thread is in.\<close>

lemma spsc_bounds:
  assumes "spsc_inv c s" "cfg_ok c"
  shows "length (gh_delivered s) \<le> length (gh_stored s)"
    and "length (gh_stored s) \<le> length (gh_delivered s) + unat (lq_size c)" "unat (lq_size c) \<le> 2 ^ 30"
  using assms cfg_ok_bound by (auto simp: spsc_inv_def slots_hold_def)

lemma spsc_push_refused:
  assumes "spsc_inv c s" "cfg_ok c" "sp_prod s = PCheck x h"
    and "sint (h - q_tail (sp_q s)) \<ge> sint (lq_size c)"
  shows "length (gh_stored s) = length (gh_delivered s) + unat (lq_size c)"
proof -
  let ?p = "length (gh_stored s)" and ?d = "length (gh_delivered s)"
  note B = spsc_bounds [OF assms(1,2)]
  have h: "h = of_nat ?p" using assms(1,3) by (simp add: spsc_inv_def)
  obtain e where e: "q_tail (sp_q s) = of_nat (?d + e)" "e \<le> 1"
    using assms(1) by (cases "sp_cons s") (auto simp: spsc_inv_def intro: that [of 0] that [of 1])
  have "sint (h - q_tail (sp_q s)) = int ?p - int (?d + e)"
    unfolding h e(1) using B e(2) by (intro sint_u32_diff) simp_all
  then have "int (unat (lq_size c)) \<le> int ?p - int (?d + e)"
    using assms(4) by (simp only: cfg_ok_sint [OF assms(2)])
  then have "?d + e + unat (lq_size c) \<le> ?p" by linarith
  then show ?thesis using B(2) by linarith
qed

lemma spsc_pop_refused:
  assumes "spsc_inv c s" "cfg_ok c" "sp_cons s = CCheck t" "sint (q_head (sp_q s) - t) \<le> 0"
  shows "length (gh_stored s) = length (gh_delivered s)"
proof -
  let ?p = "length (gh_stored s)" and ?d = "length (gh_delivered s)"
  note B = spsc_bounds [OF assms(1,2)]
  have t: "t = of_nat ?d" using assms(1,3) by (simp add: spsc_inv_def)
  obtain e where e: "q_head (sp_q s) = of_nat (?p + e)" "e \<le> 1"
    using assms(1) by (cases "sp_prod s") (auto simp: spsc_inv_def intro: that [of 0] that [of 1])
  have "sint (q_head (sp_q s) - t) = int (?p + e) - int ?d"
    unfolding t e(1) using B e(2) by (intro sint_u32_diff) simp_all
  then show ?thesis using assms(4) B(1) by simp
qed

lemma spsc_push_waits:
  assumes "spsc_inv c s" "cfg_ok c" "sp_prod s \<noteq> PIdle" "spsc_push_move c s = None"
  shows "length (gh_stored s) = length (gh_delivered s) + unat (lq_size c)"
proof -
  from assms(3,4) obtain x h where w: "sp_prod s = PWait x h" "q_elems (sp_q s) ! lfq_slot c h \<noteq> lq_nil c"
    by (cases "sp_prod s") (auto simp: spsc_push_move.simps Let_def split: if_splits)
  let ?n = "length (gh_stored s) - length (gh_delivered s)"
  have S: "slots_hold c (gh_stored s) (length (gh_delivered s)) (q_elems (sp_q s))" "h = of_nat (length (gh_stored s))"
    using assms(1) w(1) by (auto simp: spsc_inv_def)
  note B = spsc_bounds [OF assms(1,2)]
  show ?thesis
  proof (rule ccontr)
    assume "\<not> ?thesis"
    then have "?n < unat (lq_size c)" using B by simp
    moreover have "of_nat (length (gh_delivered s)) + of_nat ?n = h" unfolding S(2) using B(1)
      by (metis le_add_diff_inverse of_nat_add)
    ultimately have "q_elems (sp_q s) ! lfq_slot c h =
      (if length (gh_delivered s) + ?n < length (gh_stored s) then gh_stored s ! (length (gh_delivered s) + ?n) else lq_nil c)"
      using S(1) unfolding slots_hold_def by metis
    with w(2) B(1) show False by simp
  qed
qed

lemma spsc_pop_waits:
  assumes "spsc_inv c s" "cfg_ok c" "sp_cons s \<noteq> CIdle" "spsc_pop_move c s = None"
  shows "length (gh_stored s) = length (gh_delivered s)"
proof -
  from assms(3,4) obtain t where w: "sp_cons s = CWait t" "q_elems (sp_q s) ! lfq_slot c t = lq_nil c"
    by (cases "sp_cons s") (auto simp: spsc_pop_move.simps Let_def split: if_splits)
  have S: "slots_hold c (gh_stored s) (length (gh_delivered s)) (q_elems (sp_q s))" "t = of_nat (length (gh_delivered s))"
    using assms(1) w(1) by (auto simp: spsc_inv_def)
  from slots_hold_at [OF assms(2) S(1)] w(2) slots_hold_not_nil [OF S(1)] spsc_bounds(1) [OF assms(1,2)]
  show ?thesis by (auto simp: S(2) split: if_splits)
qed

lemma spsc_idle_lfq:
  assumes "spsc_inv c s" "cfg_ok c" "sp_prod s = PIdle" "sp_cons s = CIdle"
  shows "lfq_ok c (sp_q s)" "lfq_list c (sp_q s) = drop (length (gh_delivered s)) (gh_stored s)"
proof -
  let ?p = "length (gh_stored s)" and ?d = "length (gh_delivered s)"
  note B = spsc_bounds [OF assms(1,2)]
  have q: "q_head (sp_q s) = of_nat ?p" "q_tail (sp_q s) = of_nat ?d"
    and S: "slots_hold c (gh_stored s) ?d (q_elems (sp_q s))"
    using assms by (simp_all add: spsc_inv_def)
  have "q_head (sp_q s) - q_tail (sp_q s) = of_nat (?p - ?d)" unfolding q using B(1) by (simp add: of_nat_diff)
  then have cnt: "lfq_count (sp_q s) = ?p - ?d" using B by (subst lfq_count_word) simp_all
  have at: "q_elems (sp_q s) ! lfq_slot c (q_tail (sp_q s) + of_nat i) =
      (if ?d + i < ?p then gh_stored s ! (?d + i) else lq_nil c)" if "i < unat (lq_size c)" for i
    using S that unfolding slots_hold_def q(2) by blast
  have "?d + i < ?p \<longleftrightarrow> i < ?p - ?d" for i by auto
  then show "lfq_ok c (sp_q s)"
    using S B slots_hold_not_nil [OF S] assms(2) by (auto simp: lfq_ok_def cnt at slots_hold_def)
  show "lfq_list c (sp_q s) = drop ?d (gh_stored s)"
    using B by (intro nth_equalityI) (auto simp: lfq_list_def cnt at)
qed

text \<open>C6: With one producer and one consumer the queue is first-in first-out under every
  interleaving of their atomic accesses: the elements delivered are, in order, the first of the
  elements stored; those stored and not delivered are at most the capacity, and are found in
  order in the slots from the consumer's ticket on, all other slots being empty; and when both
  threads are outside a call the queue is a well-formed sequential one with exactly these
  elements.\<close>

theorem spsc_fifo:
  assumes "spsc_reachable c s" "cfg_ok c"
  shows "\<exists>kept. gh_stored s = gh_delivered s @ kept \<and> length kept \<le> unat (lq_size c) \<and>
    (\<forall>i < unat (lq_size c). q_elems (sp_q s) ! lfq_slot c (of_nat (length (gh_delivered s) + i)) =
       (if i < length kept then kept ! i else lq_nil c)) \<and>
    (sp_prod s = PIdle \<and> sp_cons s = CIdle \<longrightarrow> lfq_ok c (sp_q s) \<and> lfq_list c (sp_q s) = kept)"
proof (intro exI conjI allI impI)
  let ?d = "length (gh_delivered s)" and ?kept = "drop (length (gh_delivered s)) (gh_stored s)"
  note inv = spsc_reachable_inv [OF assms] and B = spsc_bounds [OF spsc_reachable_inv [OF assms] assms(2)]
  from inv have del: "gh_delivered s = take ?d (gh_stored s)" and
    S: "slots_hold c (gh_stored s) ?d (q_elems (sp_q s))" by (simp_all add: spsc_inv_def)
  show "gh_stored s = gh_delivered s @ ?kept" using del by (metis append_take_drop_id)
  show "length ?kept \<le> unat (lq_size c)" using B by simp
  fix i assume "i < unat (lq_size c)"
  then show "q_elems (sp_q s) ! lfq_slot c (of_nat (?d + i)) = (if i < length ?kept then ?kept ! i else lq_nil c)"
    using S B by (auto simp: slots_hold_def)
qed (use assms spsc_reachable_inv spsc_idle_lfq in blast)+

text \<open>C7: The two threads never keep each other from going on, and a refusal is justified: in every
  interleaving, a producer inside a call that cannot move faces a full queue, a consumer inside
  a call that cannot move an empty one, so they are never both stuck; and tryPush returns false
  only when the capacity is stored and not yet delivered, tryPop only when nothing is.\<close>

theorem spsc_progress:
  assumes "spsc_reachable c s" "cfg_ok c"
  shows "(sp_prod s \<noteq> PIdle \<and> spsc_push_move c s = None \<longrightarrow>
      length (gh_stored s) = length (gh_delivered s) + unat (lq_size c)) \<and>
    (sp_cons s \<noteq> CIdle \<and> spsc_pop_move c s = None \<longrightarrow> length (gh_stored s) = length (gh_delivered s)) \<and>
    \<not> (sp_prod s \<noteq> PIdle \<and> spsc_push_move c s = None \<and> sp_cons s \<noteq> CIdle \<and> spsc_pop_move c s = None) \<and>
    (\<forall>x h. sp_prod s = PCheck x h \<and> map_option sp_prod (spsc_push_move c s) = Some PIdle \<longrightarrow>
      length (gh_stored s) = length (gh_delivered s) + unat (lq_size c)) \<and>
    (\<forall>t. sp_cons s = CCheck t \<and> map_option sp_cons (spsc_pop_move c s) = Some CIdle \<longrightarrow>
      length (gh_stored s) = length (gh_delivered s))"
proof -
  note inv = spsc_reachable_inv [OF assms]
  have "\<not> (sp_prod s \<noteq> PIdle \<and> spsc_push_move c s = None \<and> sp_cons s \<noteq> CIdle \<and> spsc_pop_move c s = None)"
    using spsc_push_waits [OF inv assms(2)] spsc_pop_waits [OF inv assms(2)] cfg_ok_pos [OF assms(2)]
    by (metis add_cancel_right_right less_irrefl)
  moreover have "length (gh_stored s) = length (gh_delivered s) + unat (lq_size c)"
    if "sp_prod s = PCheck x h" "map_option sp_prod (spsc_push_move c s) = Some PIdle" for x h
    using that by (intro spsc_push_refused [OF inv assms(2)])
      (auto simp: spsc_push_move.simps Let_def split: if_splits)
  moreover have "length (gh_stored s) = length (gh_delivered s)"
    if "sp_cons s = CCheck t" "map_option sp_cons (spsc_pop_move c s) = Some CIdle" for t
    using that by (intro spsc_pop_refused [OF inv assms(2)])
      (auto simp: spsc_pop_move.simps Let_def split: if_splits)
  ultimately show ?thesis
    using spsc_push_waits [OF inv assms(2)] spsc_pop_waits [OF inv assms(2)] by blast
qed

definition demo_spsc_cfg :: "u32 lfq_cfg" where
  "demo_spsc_cfg = lfq_template 1 2 0 4"

text \<open>One element pushed, a second one on its way, and a consumer that has taken its ticket.\<close>

definition demo_spsc :: "u32 spsc" where
  "demo_spsc = the (spsc_run demo_spsc_cfg [ActPush 5, ActProducer, ActProducer, ActProducer,
     ActTryPush 6, ActProducer, ActProducer, ActPop, ActConsumer] (spsc_new demo_spsc_cfg))"

lemma demo_spsc_cfg_ok: "cfg_ok demo_spsc_cfg"
  by code_simp

lemma demo_spsc_reachable: "spsc_reachable demo_spsc_cfg demo_spsc"
proof (rule spsc_run_reachable [OF spsc_reachable.start])
  have "spsc_run demo_spsc_cfg [ActPush 5, ActProducer, ActProducer, ActProducer,
     ActTryPush 6, ActProducer, ActProducer, ActPop, ActConsumer] (spsc_new demo_spsc_cfg) \<noteq> None"
    by code_simp
  then show "spsc_run demo_spsc_cfg [ActPush 5, ActProducer, ActProducer, ActProducer,
     ActTryPush 6, ActProducer, ActProducer, ActPop, ActConsumer] (spsc_new demo_spsc_cfg) = Some demo_spsc"
    by (auto simp: demo_spsc_def)
qed

theorem spsc_fifo_witness:
  "\<exists>kept. gh_stored demo_spsc = gh_delivered demo_spsc @ kept \<and>
    q_elems (sp_q demo_spsc) ! lfq_slot demo_spsc_cfg 0 = kept ! 0"
proof -
  have "gh_stored demo_spsc = [5]" "gh_delivered demo_spsc = []" by code_simp+
  with spsc_fifo [OF demo_spsc_reachable demo_spsc_cfg_ok] cfg_ok_pos [OF demo_spsc_cfg_ok]
  show ?thesis by force
qed

theorem spsc_progress_witness:
  "\<not> (spsc_push_move demo_spsc_cfg demo_spsc = None \<and> spsc_pop_move demo_spsc_cfg demo_spsc = None)"
proof -
  have "sp_prod demo_spsc \<noteq> PIdle" "sp_cons demo_spsc \<noteq> CIdle" by code_simp+
  with spsc_progress [OF demo_spsc_reachable demo_spsc_cfg_ok] show ?thesis by blast
qed

section \<open>The benchmark of one producer and one consumer\<close>

definition QUEUE_SIZE :: u32 where
  "QUEUE_SIZE = 1048576"

definition spsc_test_cfg :: "u32 lfq_cfg" where
  "spsc_test_cfg = lfq_template 1 QUEUE_SIZE 0 4"

record spsc_bench =
  bs_sys :: "u32 spsc"
  bs_i :: nat        \<comment> \<open>the loop variable of the producer\<close>
  bs_count :: nat    \<comment> \<open>\<open>count\<close> of the consumer\<close>

definition bench_new :: "u32 lfq_cfg \<Rightarrow> spsc_bench" where
  "bench_new c = \<lparr>bs_sys = spsc_new c, bs_i = 0, bs_count = 0\<rparr>"

text \<open>The next move of the producer thread and of the consumer thread of \<open>n\<close> messages.\<close>

definition bench_produce :: "u32 lfq_cfg \<Rightarrow> nat \<Rightarrow> spsc_bench \<Rightarrow> spsc_bench option" where
  "bench_produce c n b =
     (if sp_prod (bs_sys b) = PIdle
      then if bs_i b < n
           then Some (b\<lparr>bs_sys := spsc_call_tryPush (of_nat (bs_i b) + 1) (bs_sys b), bs_i := bs_i b + 1\<rparr>)
           else None
      else map_option (\<lambda>s. b\<lparr>bs_sys := s\<rparr>) (spsc_push_move c (bs_sys b)))"

definition bench_consume :: "u32 lfq_cfg \<Rightarrow> nat \<Rightarrow> spsc_bench \<Rightarrow> spsc_bench option" where
  "bench_consume c n b =
     (if sp_cons (bs_sys b) = CIdle
      then if bs_count b < n then Some (b\<lparr>bs_sys := spsc_call_pop (bs_sys b)\<rparr>) else None
      else map_option (\<lambda>s. b\<lparr>bs_sys := s, bs_count :=
             (if sp_cons s = CIdle \<and> last (gh_delivered s) \<noteq> 0 then bs_count b + 1 else bs_count b)\<rparr>)
           (spsc_pop_move c (bs_sys b)))"

inductive bench_step :: "u32 lfq_cfg \<Rightarrow> nat \<Rightarrow> spsc_bench \<Rightarrow> spsc_bench \<Rightarrow> bool" for c n b where
  produce: "bench_produce c n b = Some b' \<Longrightarrow> bench_step c n b b'"
| consume: "bench_consume c n b = Some b' \<Longrightarrow> bench_step c n b b'"

inductive bench_reachable :: "u32 lfq_cfg \<Rightarrow> nat \<Rightarrow> spsc_bench \<Rightarrow> bool" for c n where
  start: "bench_reachable c n (bench_new c)"
| step: "bench_reachable c n b \<Longrightarrow> bench_step c n b b' \<Longrightarrow> bench_reachable c n b'"

text \<open>The elements pushed so far are 1, 2, ..., and every one is accepted and counted.\<close>

fun prod_elem :: "'a producer \<Rightarrow> 'a list" where
  "prod_elem PIdle = []"
| "prod_elem (PCheck x h) = [x]"
| "prod_elem (PBump x h) = [x]"
| "prod_elem (PWait x h) = [x]"
| "prod_elem (PStore x h) = [x]"

fun tries_pop :: "'a consumer \<Rightarrow> bool" where
  "tries_pop (CCheck t) = True"
| "tries_pop _ = False"

definition messages :: "nat \<Rightarrow> u32 list" where
  "messages n = map (\<lambda>i. of_nat i + 1) [0..<n]"

definition bench_inv :: "u32 lfq_cfg \<Rightarrow> nat \<Rightarrow> spsc_bench \<Rightarrow> bool" where
  "bench_inv c n b \<longleftrightarrow> spsc_inv c (bs_sys b) \<and> bs_i b \<le> n \<and>
     gh_stored (bs_sys b) @ prod_elem (sp_prod (bs_sys b)) = messages (bs_i b) \<and>
     bs_count b = length (gh_delivered (bs_sys b)) \<and> \<not> tries_pop (sp_cons (bs_sys b)) \<and>
     bs_count b \<le> n \<and> (sp_cons (bs_sys b) \<noteq> CIdle \<longrightarrow> bs_count b < n)"

fun prod_rank :: "'a producer \<Rightarrow> nat" where
  "prod_rank PIdle = 0"
| "prod_rank (PCheck x h) = 4"
| "prod_rank (PBump x h) = 3"
| "prod_rank (PWait x h) = 2"
| "prod_rank (PStore x h) = 1"

fun cons_rank :: "'a consumer \<Rightarrow> nat" where
  "cons_rank CIdle = 4"
| "cons_rank (CCheck t) = 4"
| "cons_rank (CBump t) = 3"
| "cons_rank (CWait t) = 2"
| "cons_rank (CClear t y) = 1"

text \<open>The number of moves that are left.\<close>

definition bench_left :: "nat \<Rightarrow> spsc_bench \<Rightarrow> nat" where
  "bench_left n b = 5 * (n - bs_i b) + prod_rank (sp_prod (bs_sys b)) +
     4 * (n - bs_count b) + cons_rank (sp_cons (bs_sys b)) - 4"

lemma messages_Suc: "messages (Suc i) = messages i @ [of_nat i + 1]"
  by (simp add: messages_def)

lemma length_messages [simp]: "length (messages i) = i"
  by (simp add: messages_def)

lemma bench_inv_new: "cfg_ok c \<Longrightarrow> bench_inv c n (bench_new c)"
  by (simp add: bench_inv_def bench_new_def spsc_inv_new) (simp add: spsc_new_def messages_def)

lemma message_nonzero:
  assumes "i < 2 ^ 30"
  shows "(of_nat i + 1 :: u32) \<noteq> 0"
proof -
  have "unat (of_nat (Suc i) :: u32) = Suc i" using assms by (intro unat_of_nat_less) simp
  then show ?thesis by (metis add.commute of_nat_Suc unat_0 nat.distinct(1))
qed

lemma bench_produce_inv:
  assumes "cfg_ok c" "lq_nil c = 0" "n \<le> unat (lq_size c)" "bench_inv c n b" "bench_produce c n b = Some b'"
  shows "bench_inv c n b' \<and> bench_left n b' < bench_left n b"
proof (cases "sp_prod (bs_sys b) = PIdle")
  case True
  with assms cfg_ok_bound [OF assms(1)] have "(of_nat (bs_i b) + 1 :: u32) \<noteq> 0"
    by (intro message_nonzero) (simp add: bench_produce_def split: if_splits)
  with True assms spsc_inv_call(1) [of c "bs_sys b"] show ?thesis
    by (auto simp: bench_inv_def bench_produce_def bench_left_def messages_Suc spsc_call_tryPush_def split: if_splits)
next
  case False
  then obtain s' where s': "spsc_push_move c (bs_sys b) = Some s'" "b' = b\<lparr>bs_sys := s'\<rparr>"
    using assms(5) by (auto simp: bench_produce_def)
  have inv: "spsc_inv c (bs_sys b)" using assms(4) by (simp add: bench_inv_def)
  have "length (gh_stored (bs_sys b)) < n"
    using assms(4) False arg_cong [of _ _ length]
    by (cases "sp_prod (bs_sys b)") (force simp: bench_inv_def dest: arg_cong [of _ _ length])+
  then have "\<not> sint (h - q_tail (sp_q (bs_sys b))) \<ge> sint (lq_size c)" if "sp_prod (bs_sys b) = PCheck x h" for x h
    using spsc_push_refused [OF inv assms(1) that] assms(3) by auto
  then show ?thesis
    using s' assms(4) False spsc_inv_push_move [OF assms(1) inv s'(1)]
    by (cases "sp_prod (bs_sys b)")
      (auto simp: bench_inv_def bench_left_def spsc_push_move.simps Let_def split: if_splits)
qed

lemma bench_consume_inv:
  assumes "cfg_ok c" "lq_nil c = 0" "bench_inv c n b" "bench_consume c n b = Some b'"
  shows "bench_inv c n b' \<and> bench_left n b' < bench_left n b"
proof (cases "sp_cons (bs_sys b) = CIdle")
  case True
  with assms spsc_inv_call(4) [of c "bs_sys b"] show ?thesis
    by (auto simp: bench_inv_def bench_consume_def bench_left_def spsc_call_pop_def split: if_splits)
next
  case False
  let ?s = "bs_sys b"
  have inv: "spsc_inv c ?s" using assms(3) by (simp add: bench_inv_def)
  have "y \<noteq> 0" if "sp_cons ?s = CClear t y" for t y
    using inv that assms(2) slots_hold_not_nil [of c "gh_stored ?s" "length (gh_delivered ?s)" "q_elems (sp_q ?s)"]
    by (auto simp: spsc_inv_def)
  moreover obtain s' where s': "spsc_pop_move c ?s = Some s'" using assms(4) False
    by (auto simp: bench_consume_def)
  ultimately show ?thesis
    using assms(3,4) False spsc_inv_pop_move [OF assms(1) inv s']
    by (cases "sp_cons ?s")
      (auto simp: bench_inv_def bench_consume_def bench_left_def spsc_pop_move.simps Let_def split: if_splits)
qed

lemma bench_reachable_inv:
  assumes "bench_reachable c n b" "cfg_ok c" "lq_nil c = 0" "n \<le> unat (lq_size c)"
  shows "bench_inv c n b"
  using assms(1)
proof (induction rule: bench_reachable.induct)
  case (step b b')
  from step(2) show ?case
    using bench_produce_inv [OF assms(2-4) step.IH] bench_consume_inv [OF assms(2,3) step.IH]
    by (cases rule: bench_step.cases) auto
qed (rule bench_inv_new [OF assms(2)])

lemma bench_stuck:
  assumes "bench_inv c n b" "cfg_ok c" "lq_nil c = 0" "n \<le> unat (lq_size c)"
    and "bench_produce c n b = None" "bench_consume c n b = None"
  shows "sp_prod (bs_sys b) = PIdle \<and> sp_cons (bs_sys b) = CIdle \<and> bs_i b = n \<and> bs_count b = n"
proof -
  let ?s = "bs_sys b"
  have inv: "spsc_inv c ?s" using assms(1) by (simp add: bench_inv_def)
  note B = spsc_bounds [OF inv assms(2)]
  have len: "length (gh_stored ?s) + length (prod_elem (sp_prod ?s)) = bs_i b"
    using assms(1) by (metis bench_inv_def length_append length_messages)
  have prod: "sp_prod ?s = PIdle"
  proof (rule ccontr)
    assume ne: "sp_prod ?s \<noteq> PIdle"
    then have "length (gh_stored ?s) = length (gh_delivered ?s) + unat (lq_size c)"
      using assms(5) by (intro spsc_push_waits [OF inv assms(2)]) (auto simp: bench_produce_def)
    moreover have "length (prod_elem (sp_prod ?s)) = 1" using ne by (cases "sp_prod ?s") auto
    ultimately show False using len assms(1,4) by (simp add: bench_inv_def)
  qed
  then have i: "bs_i b = n" "length (gh_stored ?s) = n"
    using assms(1,5) len by (auto simp: bench_produce_def bench_inv_def split: if_splits)
  have "sp_cons ?s = CIdle"
  proof (rule ccontr)
    assume ne: "sp_cons ?s \<noteq> CIdle"
    then have "length (gh_stored ?s) = length (gh_delivered ?s)"
      using assms(6) by (intro spsc_pop_waits [OF inv assms(2)]) (auto simp: bench_consume_def)
    then show False using ne assms(1) i(2) by (auto simp: bench_inv_def)
  qed
  with prod i show ?thesis using assms(1,6) by (auto simp: bench_consume_def bench_inv_def split: if_splits)
qed

text \<open>C32: The benchmark of one producer and one consumer ends and passes, in every interleaving: each
  move makes the number of moves left smaller, so every execution ends; and where no thread can
  move, both have left their loops, no push was refused, and the consumer got exactly the
  messages 1, 2, ..., n in this order. It holds for up to as many messages as the queue has
  slots, hence for the 1048576 of the test.\<close>

theorem benchmarkSPSC_ends:
  assumes "bench_reachable c n b" "cfg_ok c" "lq_nil c = 0" "n \<le> unat (lq_size c)"
  shows "(\<forall>b'. bench_step c n b b' \<longrightarrow> bench_left n b' < bench_left n b) \<and>
    ((\<forall>b'. \<not> bench_step c n b b') \<longrightarrow> bs_i b = n \<and> bs_count b = n \<and>
       gh_delivered (bs_sys b) = messages n \<and> lfq_list c (sp_q (bs_sys b)) = [])"
proof (intro conjI allI impI)
  note inv = bench_reachable_inv [OF assms]
  {
    fix b' assume "bench_step c n b b'"
    then show "bench_left n b' < bench_left n b"
      using bench_produce_inv [OF assms(2-4) inv] bench_consume_inv [OF assms(2,3) inv]
      by (cases rule: bench_step.cases) auto
  next
    assume "\<forall>b'. \<not> bench_step c n b b'"
    then have "bench_produce c n b = None" "bench_consume c n b = None"
      using bench_step.produce [of c n b] bench_step.consume [of c n b]
      by (metis option.exhaust)+
    from bench_stuck [OF inv assms(2-4) this] have st: "sp_prod (bs_sys b) = PIdle"
      "sp_cons (bs_sys b) = CIdle" "bs_i b = n" "bs_count b = n" by auto
    then have "gh_stored (bs_sys b) = messages n" "length (gh_delivered (bs_sys b)) = n" "spsc_inv c (bs_sys b)"
      using inv by (auto simp: bench_inv_def)
    moreover from this have "gh_delivered (bs_sys b) = messages n" by (simp add: spsc_inv_def)
    ultimately show "bs_i b = n" "bs_count b = n" "gh_delivered (bs_sys b) = messages n"
      "lfq_list c (sp_q (bs_sys b)) = []"
      using st spsc_idle_lfq [OF _ assms(2)] by auto
  }
qed

definition bench_first :: spsc_bench where
  "bench_first = (bench_new spsc_test_cfg)\<lparr>bs_sys := spsc_call_tryPush 1 (spsc_new spsc_test_cfg), bs_i := 1\<rparr>"

theorem benchmarkSPSC_ends_witness:
  "bench_step spsc_test_cfg 1048576 (bench_new spsc_test_cfg) bench_first \<and>
   bench_left 1048576 bench_first < 9437184"
proof -
  have step: "bench_step spsc_test_cfg 1048576 (bench_new spsc_test_cfg) bench_first"
    by (rule bench_step.produce)
      (simp add: bench_produce_def bench_first_def bench_new_def, simp add: spsc_new_def)
  have "cfg_ok spsc_test_cfg" "lq_nil spsc_test_cfg = 0" "lq_size spsc_test_cfg = 1048576" by code_simp+
  moreover have "bench_left 1048576 (bench_new spsc_test_cfg) = 9437184"
    by (simp add: bench_left_def bench_new_def spsc_new_def)
  ultimately show ?thesis
    using step benchmarkSPSC_ends [OF bench_reachable.start, of spsc_test_cfg 1048576] by simp
qed

end
