(* ===== verification/Queue_Interleaving.thy ===== *)
theory Queue_Interleaving
  imports LockFree_Queue "HOL-Library.Multiset"
begin

text \<open>
  The same queue with several threads inside it. Each atomic access of \<open>tryPush\<close>,
  \<open>tryPop\<close>, \<open>push\<close> and \<open>pop\<close> (the branches for several producers and consumers, the
  only ones the program instantiates) is one step; any thread may move next. The model is
  sequentially consistent: the relaxed and acquire/release orders of the source are not
  weakened further. A failed compare-exchange may be spurious. A spinning iteration that
  changes nothing is no step.

  Pushing \<open>NIL\<close> breaks the contract that \<open>doPushAtomic\<close> asserts: the call claims a ticket and
  the process aborts at the assertion before it touches a slot (\<open>AssertFailed\<close> in
  \<open>LockFree_Queue.doPush\<close>). A step therefore takes an element other than \<open>NIL\<close>: the executions
  here are those in which no thread has broken the contract so far, and what holds of their
  states holds of every execution up to such an abort.

  Ghost fields count the tickets handed out (unbounded, while the real counters wrap) and
  collect the accepted and the delivered elements.
\<close>

section \<open>Steps\<close>

datatype 'a pc =
    is_Idle: Idle
  | TryPushLoop 'a u32   \<comment> \<open>\<open>head\<close> loaded; next: load \<open>m_tail\<close> and compare\<close>
  | TryPushCas 'a u32    \<comment> \<open>next: compare-exchange on \<open>m_head\<close>\<close>
  | PushStore 'a u32     \<comment> \<open>owns ticket; spins in \<open>doPushAtomic\<close>\<close>
  | TryPopLoop u32       \<comment> \<open>\<open>tail\<close> loaded; next: load \<open>m_head\<close> and compare\<close>
  | TryPopCas u32        \<comment> \<open>next: compare-exchange on \<open>m_tail\<close>\<close>
  | PopTake u32          \<comment> \<open>owns ticket; spins in \<open>doPopAtomic\<close>\<close>

record 'a lfq_sys =
  sys_q :: "'a lfq"
  sys_pcs :: "'a pc list"
  gh_head :: nat
  gh_tail :: nat
  gh_in :: "'a multiset"
  gh_out :: "'a multiset"

definition sys_init :: "'a lfq_cfg \<Rightarrow> nat \<Rightarrow> 'a lfq_sys" where
  "sys_init c n = \<lparr>sys_q = lfq_new c, sys_pcs = replicate n Idle,
     gh_head = 0, gh_tail = 0, gh_in = {#}, gh_out = {#}\<rparr>"

definition goto :: "nat \<Rightarrow> 'a pc \<Rightarrow> 'a lfq_sys \<Rightarrow> 'a lfq_sys" where
  "goto i p s = s\<lparr>sys_pcs := (sys_pcs s)[i := p]\<rparr>"

definition claim_head :: "nat \<Rightarrow> 'a \<Rightarrow> 'a lfq_sys \<Rightarrow> 'a lfq_sys" where
  "claim_head i x s =
     (let q = sys_q s
      in goto i (PushStore x (q_head q))
           (s\<lparr>sys_q := q\<lparr>q_head := q_head q + 1\<rparr>, gh_head := gh_head s + 1,
              gh_in := gh_in s + {#x#}\<rparr>))"

definition claim_tail :: "nat \<Rightarrow> 'a lfq_sys \<Rightarrow> 'a lfq_sys" where
  "claim_tail i s =
     (let q = sys_q s
      in goto i (PopTake (q_tail q))
           (s\<lparr>sys_q := q\<lparr>q_tail := q_tail q + 1\<rparr>, gh_tail := gh_tail s + 1\<rparr>))"

definition store_elem :: "'a lfq_cfg \<Rightarrow> nat \<Rightarrow> 'a \<Rightarrow> u32 \<Rightarrow> 'a lfq_sys \<Rightarrow> 'a lfq_sys" where
  "store_elem c i x head s =
     (let q = sys_q s
      in goto i Idle (s\<lparr>sys_q := q\<lparr>q_elems := (q_elems q)[lfq_slot c head := x]\<rparr>\<rparr>))"

definition take_elem :: "'a lfq_cfg \<Rightarrow> nat \<Rightarrow> u32 \<Rightarrow> 'a lfq_sys \<Rightarrow> 'a lfq_sys" where
  "take_elem c i tail s =
     (let q = sys_q s
      in goto i Idle
           (s\<lparr>sys_q := q\<lparr>q_elems := (q_elems q)[lfq_slot c tail := lq_nil c]\<rparr>,
              gh_out := gh_out s + {#q_elems q ! lfq_slot c tail#}\<rparr>))"

inductive lfq_step :: "'a lfq_cfg \<Rightarrow> nat \<Rightarrow> 'a lfq_sys \<Rightarrow> 'a lfq_sys \<Rightarrow> bool"
  for c :: "'a lfq_cfg" and i :: nat and s :: "'a lfq_sys" where
  call_try_push: "i < length (sys_pcs s) \<Longrightarrow> sys_pcs s ! i = Idle \<Longrightarrow> x \<noteq> lq_nil c \<Longrightarrow>
    lfq_step c i s (goto i (TryPushLoop x (q_head (sys_q s))) s)"
| try_push_full: "i < length (sys_pcs s) \<Longrightarrow> sys_pcs s ! i = TryPushLoop x h \<Longrightarrow>
    sint (h - q_tail (sys_q s)) \<ge> sint (lq_size c) \<Longrightarrow>
    lfq_step c i s (goto i Idle s)"
| try_push_room: "i < length (sys_pcs s) \<Longrightarrow> sys_pcs s ! i = TryPushLoop x h \<Longrightarrow>
    sint (h - q_tail (sys_q s)) < sint (lq_size c) \<Longrightarrow>
    lfq_step c i s (goto i (TryPushCas x h) s)"
| try_push_cas: "i < length (sys_pcs s) \<Longrightarrow> sys_pcs s ! i = TryPushCas x h \<Longrightarrow>
    q_head (sys_q s) = h \<Longrightarrow> lfq_step c i s (claim_head i x s)"
| try_push_retry: "i < length (sys_pcs s) \<Longrightarrow> sys_pcs s ! i = TryPushCas x h \<Longrightarrow>
    lfq_step c i s (goto i (TryPushLoop x (q_head (sys_q s))) s)"
| call_push: "i < length (sys_pcs s) \<Longrightarrow> sys_pcs s ! i = Idle \<Longrightarrow> x \<noteq> lq_nil c \<Longrightarrow>
    lfq_step c i s (claim_head i x s)"
| push_store: "i < length (sys_pcs s) \<Longrightarrow> sys_pcs s ! i = PushStore x h \<Longrightarrow>
    q_elems (sys_q s) ! lfq_slot c h = lq_nil c \<Longrightarrow>
    lfq_step c i s (store_elem c i x h s)"
| call_try_pop: "i < length (sys_pcs s) \<Longrightarrow> sys_pcs s ! i = Idle \<Longrightarrow>
    lfq_step c i s (goto i (TryPopLoop (q_tail (sys_q s))) s)"
| try_pop_empty: "i < length (sys_pcs s) \<Longrightarrow> sys_pcs s ! i = TryPopLoop t \<Longrightarrow>
    sint (q_head (sys_q s) - t) \<le> 0 \<Longrightarrow> lfq_step c i s (goto i Idle s)"
| try_pop_some: "i < length (sys_pcs s) \<Longrightarrow> sys_pcs s ! i = TryPopLoop t \<Longrightarrow>
    sint (q_head (sys_q s) - t) > 0 \<Longrightarrow> lfq_step c i s (goto i (TryPopCas t) s)"
| try_pop_cas: "i < length (sys_pcs s) \<Longrightarrow> sys_pcs s ! i = TryPopCas t \<Longrightarrow>
    q_tail (sys_q s) = t \<Longrightarrow> lfq_step c i s (claim_tail i s)"
| try_pop_retry: "i < length (sys_pcs s) \<Longrightarrow> sys_pcs s ! i = TryPopCas t \<Longrightarrow>
    lfq_step c i s (goto i (TryPopLoop (q_tail (sys_q s))) s)"
| call_pop: "i < length (sys_pcs s) \<Longrightarrow> sys_pcs s ! i = Idle \<Longrightarrow>
    lfq_step c i s (claim_tail i s)"
| pop_take: "i < length (sys_pcs s) \<Longrightarrow> sys_pcs s ! i = PopTake t \<Longrightarrow>
    q_elems (sys_q s) ! lfq_slot c t \<noteq> lq_nil c \<Longrightarrow>
    lfq_step c i s (take_elem c i t s)"

inductive lfq_reachable :: "'a lfq_cfg \<Rightarrow> nat \<Rightarrow> 'a lfq_sys \<Rightarrow> bool" for c n where
  start: "lfq_reachable c n (sys_init c n)"
| step: "lfq_reachable c n s \<Longrightarrow> lfq_step c i s s' \<Longrightarrow> lfq_reachable c n s'"

section \<open>Collecting over a list that is updated in one place\<close>

definition gather :: "('b \<Rightarrow> 'a multiset) \<Rightarrow> 'b list \<Rightarrow> 'a multiset" where
  "gather f xs = sum_list (map f xs)"

lemma gather_update:
  "i < length xs \<Longrightarrow> gather f (xs[i := y]) + f (xs ! i) = gather f xs + f y"
  by (induction xs arbitrary: i) (auto simp: gather_def nth_Cons ac_simps split: nat.splits)

lemma gather_replicate_empty: "f y = {#} \<Longrightarrow> gather f (replicate n y) = {#}"
  by (induction n) (auto simp: gather_def)

lemma gather_all_empty: "(\<And>y. y \<in> set xs \<Longrightarrow> f y = {#}) \<Longrightarrow> gather f xs = {#}"
  by (induction xs) (auto simp: gather_def)

lemma gather_update_same:
  assumes "i < length xs" "f (xs ! i) = f y"
  shows "gather f (xs[i := y]) = gather f xs"
  using gather_update [OF assms(1), of f y] assms(2) by simp

lemma gather_update_add:
  assumes "i < length xs" "f y = f (xs ! i) + d"
  shows "gather f (xs[i := y]) = gather f xs + d"
proof -
  have "gather f (xs[i := y]) + f (xs ! i) = gather f xs + d + f (xs ! i)"
    using gather_update [OF assms(1), of f y] assms(2) by (simp add: ac_simps)
  then show ?thesis by simp
qed

lemma gather_update_sub:
  assumes "i < length xs" "f (xs ! i) = f y + d"
  shows "gather f xs = gather f (xs[i := y]) + d"
proof -
  have "gather f (xs[i := y]) + d + f y = gather f xs + f y"
    using gather_update [OF assms(1), of f y] assms(2) by (simp add: ac_simps)
  then show ?thesis by simp
qed

lemma gather_mem: "j \<in># gather f xs \<longleftrightarrow> (\<exists>y \<in> set xs. j \<in># f y)"
  by (induction xs) (auto simp: gather_def)

lemma gather_nth: "j \<in># gather f xs \<longleftrightarrow> (\<exists>i < length xs. j \<in># f (xs ! i))"
  by (force simp: gather_mem in_set_conv_nth)

lemma gather_filter:
  "gather (\<lambda>e. if e = z then {#} else {#e#}) xs = mset (filter (\<lambda>e. e \<noteq> z) xs)"
  by (induction xs) (auto simp: gather_def)

section \<open>The invariant\<close>

fun pc_elem_ok :: "'a lfq_cfg \<Rightarrow> 'a pc \<Rightarrow> bool" where
  "pc_elem_ok c (TryPushLoop x h) \<longleftrightarrow> x \<noteq> lq_nil c"
| "pc_elem_ok c (TryPushCas x h) \<longleftrightarrow> x \<noteq> lq_nil c"
| "pc_elem_ok c (PushStore x h) \<longleftrightarrow> x \<noteq> lq_nil c"
| "pc_elem_ok c _ \<longleftrightarrow> True"

fun pending :: "'a pc \<Rightarrow> 'a multiset" where
  "pending (PushStore x h) = {#x#}"
| "pending _ = {#}"

fun push_slot :: "'a lfq_cfg \<Rightarrow> 'a pc \<Rightarrow> nat multiset" where
  "push_slot c (PushStore x h) = {#lfq_slot c h#}"
| "push_slot c _ = {#}"

fun pop_slot :: "'a lfq_cfg \<Rightarrow> 'a pc \<Rightarrow> nat multiset" where
  "pop_slot c (PopTake t) = {#lfq_slot c t#}"
| "pop_slot c _ = {#}"

definition ticket_slots :: "'a lfq_cfg \<Rightarrow> nat \<Rightarrow> nat multiset" where
  "ticket_slots c n = mset (map (\<lambda>t. lfq_slot c (of_nat t)) [0..<n])"

definition occupied :: "'a lfq_cfg \<Rightarrow> 'a lfq \<Rightarrow> nat multiset" where
  "occupied c q = mset (filter (\<lambda>j. q_elems q ! j \<noteq> lq_nil c) [0..<length (q_elems q)])"

definition stored :: "'a lfq_cfg \<Rightarrow> 'a lfq \<Rightarrow> 'a multiset" where
  "stored c q = gather (\<lambda>e. if e = lq_nil c then {#} else {#e#}) (q_elems q)"

text \<open>
  Slot by slot, the tickets handed to pushers are the tickets handed to poppers plus the
  stored elements plus the pushers still waiting, less the poppers still waiting. Element by
  element, what pushers were accepted with is delivered, stored, or still in a pusher's hand.
\<close>

definition lfq_sys_inv :: "'a lfq_cfg \<Rightarrow> 'a lfq_sys \<Rightarrow> bool" where
  "lfq_sys_inv c s \<longleftrightarrow>
     cfg_ok c \<and> length (q_elems (sys_q s)) = unat (lq_size c) \<and>
     q_head (sys_q s) = of_nat (gh_head s) \<and> q_tail (sys_q s) = of_nat (gh_tail s) \<and>
     list_all (pc_elem_ok c) (sys_pcs s) \<and>
     ticket_slots c (gh_head s) + gather (pop_slot c) (sys_pcs s) =
       ticket_slots c (gh_tail s) + occupied c (sys_q s) + gather (push_slot c) (sys_pcs s) \<and>
     gh_in s = gh_out s + stored c (sys_q s) + gather pending (sys_pcs s)"

lemma ticket_slots_Suc:
  "ticket_slots c (Suc n) = ticket_slots c n + {#lfq_slot c (of_nat n)#}"
  by (simp add: ticket_slots_def)

lemma count_mset_filter_upt:
  "count (mset (filter P [0..<n])) j = (if j < n \<and> P j then 1 else 0)"
  by (induction n) (auto simp: less_Suc_eq)

lemma count_occupied:
  "count (occupied c q) j = (if j < length (q_elems q) \<and> q_elems q ! j \<noteq> lq_nil c then 1 else 0)"
  by (simp add: occupied_def count_mset_filter_upt)

lemma occupied_store:
  assumes "j < length (q_elems q)" "q_elems q ! j = lq_nil c" "x \<noteq> lq_nil c"
  shows "occupied c (q\<lparr>q_elems := (q_elems q)[j := x]\<rparr>) = occupied c q + {#j#}"
  using assms by (intro multiset_eqI) (auto simp: count_occupied nth_list_update)

lemma occupied_take:
  assumes "j < length (q_elems q)" "q_elems q ! j \<noteq> lq_nil c"
  shows "occupied c q = occupied c (q\<lparr>q_elems := (q_elems q)[j := lq_nil c]\<rparr>) + {#j#}"
  using assms by (intro multiset_eqI) (auto simp: count_occupied nth_list_update)

lemma stored_store:
  assumes "j < length (q_elems q)" "q_elems q ! j = lq_nil c" "x \<noteq> lq_nil c"
  shows "stored c (q\<lparr>q_elems := (q_elems q)[j := x]\<rparr>) = stored c q + {#x#}"
  using assms by (simp add: stored_def gather_update_add [where d = "{#x#}"])

lemma stored_take:
  assumes "j < length (q_elems q)" "q_elems q ! j \<noteq> lq_nil c"
  shows "stored c q = stored c (q\<lparr>q_elems := (q_elems q)[j := lq_nil c]\<rparr>) + {#q_elems q ! j#}"
  using assms by (simp add: stored_def gather_update_sub [where d = "{#q_elems q ! j#}"])

lemma occupied_counters [simp]:
  "occupied c (q\<lparr>q_head := h\<rparr>) = occupied c q" "occupied c (q\<lparr>q_tail := t\<rparr>) = occupied c q"
  by (simp_all add: occupied_def)

lemma stored_counters [simp]:
  "stored c (q\<lparr>q_head := h\<rparr>) = stored c q" "stored c (q\<lparr>q_tail := t\<rparr>) = stored c q"
  by (simp_all add: stored_def)

lemma list_all_update: "list_all P xs \<Longrightarrow> P y \<Longrightarrow> list_all P (xs[i := y])"
  by (induction xs arbitrary: i) (auto split: nat.splits)

lemma lfq_sys_inv_init: "cfg_ok c \<Longrightarrow> lfq_sys_inv c (sys_init c n)"
  by (auto simp: lfq_sys_inv_def sys_init_def lfq_new_def ticket_slots_def occupied_def stored_def
      gather_replicate_empty list_all_iff filter_empty_conv)

lemma inv_goto:
  assumes "lfq_sys_inv c s" "i < length (sys_pcs s)" "pc_elem_ok c p"
    and "pending p = pending (sys_pcs s ! i)" "push_slot c p = push_slot c (sys_pcs s ! i)"
    and "pop_slot c p = pop_slot c (sys_pcs s ! i)"
  shows "lfq_sys_inv c (goto i p s)"
  using assms by (simp add: lfq_sys_inv_def goto_def gather_update_same list_all_update)

lemma inv_claim_head:
  assumes "lfq_sys_inv c s" "i < length (sys_pcs s)" "x \<noteq> lq_nil c"
    and "pending (sys_pcs s ! i) = {#}" "push_slot c (sys_pcs s ! i) = {#}"
    and "pop_slot c (sys_pcs s ! i) = {#}"
  shows "lfq_sys_inv c (claim_head i x s)"
proof -
  let ?p = "PushStore x (of_nat (gh_head s))"
  have g: "gather pending ((sys_pcs s)[i := ?p]) = gather pending (sys_pcs s) + {#x#}"
    "gather (push_slot c) ((sys_pcs s)[i := ?p]) =
       gather (push_slot c) (sys_pcs s) + {#lfq_slot c (of_nat (gh_head s))#}"
    "gather (pop_slot c) ((sys_pcs s)[i := ?p]) = gather (pop_slot c) (sys_pcs s)"
    using assms by (intro gather_update_add gather_update_same; simp add: lfq_sys_inv_def)+
  show ?thesis
    using assms(1,3) unfolding lfq_sys_inv_def claim_head_def goto_def Let_def
    by (simp add: g ticket_slots_Suc list_all_update)
qed

lemma inv_claim_tail:
  assumes "lfq_sys_inv c s" "i < length (sys_pcs s)"
    and "pending (sys_pcs s ! i) = {#}" "push_slot c (sys_pcs s ! i) = {#}"
    and "pop_slot c (sys_pcs s ! i) = {#}"
  shows "lfq_sys_inv c (claim_tail i s)"
proof -
  let ?p = "PopTake (of_nat (gh_tail s))"
  have g: "gather pending ((sys_pcs s)[i := ?p]) = gather pending (sys_pcs s)"
    "gather (push_slot c) ((sys_pcs s)[i := ?p]) = gather (push_slot c) (sys_pcs s)"
    "gather (pop_slot c) ((sys_pcs s)[i := ?p]) =
       gather (pop_slot c) (sys_pcs s) + {#lfq_slot c (of_nat (gh_tail s))#}"
    using assms by (intro gather_update_add gather_update_same; simp add: lfq_sys_inv_def)+
  show ?thesis
    using assms(1) unfolding lfq_sys_inv_def claim_tail_def goto_def Let_def
    by (simp add: g ticket_slots_Suc list_all_update)
qed

lemma inv_store_elem:
  assumes "lfq_sys_inv c s" "i < length (sys_pcs s)" "sys_pcs s ! i = PushStore x h"
    and "q_elems (sys_q s) ! lfq_slot c h = lq_nil c"
  shows "lfq_sys_inv c (store_elem c i x h s)"
proof -
  let ?q = "sys_q s" and ?j = "lfq_slot c h"
  have len: "?j < length (q_elems ?q)"
    using assms(1) lfq_slot_less [of c h] by (simp add: lfq_sys_inv_def)
  have x: "x \<noteq> lq_nil c"
    using assms(1-3) by (auto simp: lfq_sys_inv_def list_all_length dest!: spec [of _ i])
  have g: "gather pending (sys_pcs s) = gather pending ((sys_pcs s)[i := Idle]) + {#x#}"
    "gather (push_slot c) (sys_pcs s) = gather (push_slot c) ((sys_pcs s)[i := Idle]) + {#?j#}"
    "gather (pop_slot c) ((sys_pcs s)[i := Idle]) = gather (pop_slot c) (sys_pcs s)"
    using assms by (intro gather_update_sub gather_update_same; simp)+
  show ?thesis
    using assms(1) unfolding lfq_sys_inv_def store_elem_def goto_def Let_def
    by (simp add: g list_all_update ac_simps
        occupied_store [OF len assms(4) x] stored_store [OF len assms(4) x])
qed

lemma inv_take_elem:
  assumes "lfq_sys_inv c s" "i < length (sys_pcs s)" "sys_pcs s ! i = PopTake t"
    and "q_elems (sys_q s) ! lfq_slot c t \<noteq> lq_nil c"
  shows "lfq_sys_inv c (take_elem c i t s)"
proof -
  let ?q = "sys_q s" and ?j = "lfq_slot c t"
  have len: "?j < length (q_elems ?q)"
    using assms(1) lfq_slot_less [of c t] by (simp add: lfq_sys_inv_def)
  have g: "gather pending ((sys_pcs s)[i := Idle]) = gather pending (sys_pcs s)"
    "gather (push_slot c) ((sys_pcs s)[i := Idle]) = gather (push_slot c) (sys_pcs s)"
    "gather (pop_slot c) (sys_pcs s) = gather (pop_slot c) ((sys_pcs s)[i := Idle]) + {#?j#}"
    using assms by (intro gather_update_sub gather_update_same; simp)+
  show ?thesis
    using assms(1) unfolding lfq_sys_inv_def take_elem_def goto_def Let_def
    by (simp add: g list_all_update ac_simps
        occupied_take [OF len assms(4)] stored_take [OF len assms(4)])
qed

lemma pc_elem_okD: "lfq_sys_inv c s \<Longrightarrow> i < length (sys_pcs s) \<Longrightarrow> pc_elem_ok c (sys_pcs s ! i)"
  by (simp add: lfq_sys_inv_def list_all_length)

lemma lfq_step_inv: "lfq_step c i s s' \<Longrightarrow> lfq_sys_inv c s \<Longrightarrow> lfq_sys_inv c s'"
proof (induction rule: lfq_step.induct)
  case (try_push_room x h)
  then show ?case using pc_elem_okD [of c s i] by (intro inv_goto) auto
next
  case (try_push_cas x h)
  then show ?case using pc_elem_okD [of c s i] by (intro inv_claim_head) auto
next
  case (try_push_retry x h)
  then show ?case using pc_elem_okD [of c s i] by (intro inv_goto) auto
qed (auto intro!: inv_goto inv_claim_head inv_claim_tail inv_store_elem inv_take_elem)

lemma lfq_reachable_inv: "lfq_reachable c n s \<Longrightarrow> cfg_ok c \<Longrightarrow> lfq_sys_inv c s"
  by (induction rule: lfq_reachable.induct) (auto intro: lfq_sys_inv_init lfq_step_inv)

section \<open>What the invariant gives\<close>

definition ticket_window :: "'a lfq_cfg \<Rightarrow> nat \<Rightarrow> nat \<Rightarrow> nat multiset" where
  "ticket_window c a b = mset (map (\<lambda>t. lfq_slot c (of_nat t)) [a..<b])"

lemma ticket_slots_split:
  assumes "a \<le> b"
  shows "ticket_slots c b = ticket_slots c a + ticket_window c a b"
proof -
  have "[0..<b] = [0..<a] @ [a..<b]" using assms by (metis le_iff_add upt_add_eq_append zero_le)
  then show ?thesis by (simp add: ticket_slots_def ticket_window_def)
qed

lemma size_ticket_window [simp]: "size (ticket_window c a b) = b - a"
  by (simp add: ticket_window_def)

lemma ticket_window_offsets:
  "ticket_window c a b = mset (map (\<lambda>k. lfq_slot c (of_nat a + of_nat k)) [0..<b - a])"
proof (cases "a \<le> b")
  case True
  then have "[a..<b] = map (\<lambda>k. k + a) [0..<b - a]" by (simp add: map_add_upt)
  then show ?thesis by (simp add: ticket_window_def comp_def ac_simps)
qed (simp add: ticket_window_def)

lemma in_ticket_window:
  assumes "cfg_ok c" "b - a \<le> unat (lq_size c)" "i < unat (lq_size c)"
  shows "lfq_slot c (of_nat a + of_nat i) \<in># ticket_window c a b \<longleftrightarrow> i < b - a"
proof -
  have "lfq_slot c (of_nat a + of_nat i) = lfq_slot c (of_nat a + of_nat k) \<longleftrightarrow> i = k"
    if "k < b - a" for k
    using that assms by (intro lfq_slot_eq_iff) auto
  then have "(\<exists>k < b - a. lfq_slot c (of_nat a + of_nat i) = lfq_slot c (of_nat a + of_nat k))
      \<longleftrightarrow> i < b - a" by blast
  then show ?thesis by (auto simp: ticket_window_offsets)
qed

lemma distinct_ticket_window:
  assumes "cfg_ok c" "b - a \<le> unat (lq_size c)"
  shows "count (ticket_window c a b) j \<le> 1"
proof -
  have "inj_on (\<lambda>k. lfq_slot c (of_nat a + of_nat k)) {0..<b - a}"
    using assms by (intro inj_onI) (simp add: lfq_slot_eq_iff)
  then have "distinct (map (\<lambda>k. lfq_slot c (of_nat a + of_nat k)) [0..<b - a])"
    by (simp add: distinct_map)
  then show ?thesis
    by (simp add: ticket_window_offsets distinct_count_atmost_1)
qed

definition quiescent :: "'a lfq_sys \<Rightarrow> bool" where
  "quiescent s \<longleftrightarrow> list_all is_Idle (sys_pcs s)"

lemma quiescent_gather:
  assumes "quiescent s" "f Idle = {#}"
  shows "gather f (sys_pcs s) = {#}"
  using assms by (intro gather_all_empty) (auto simp: quiescent_def list_all_iff is_Idle_def)

lemma size_occupied_le: "size (occupied c q) \<le> length (q_elems q)"
  unfolding occupied_def size_mset by (rule order_trans [OF length_filter_le]) simp

lemma stored_occupied: "stored c q = image_mset (nth (q_elems q)) (occupied c q)"
proof -
  have "stored c q = mset (filter (\<lambda>e. e \<noteq> lq_nil c) (q_elems q))"
    by (simp add: stored_def gather_filter)
  also have "filter (\<lambda>e. e \<noteq> lq_nil c) (q_elems q) =
      map (nth (q_elems q)) (filter (\<lambda>j. q_elems q ! j \<noteq> lq_nil c) [0..<length (q_elems q)])"
    by (subst (1) map_nth [symmetric]) (simp only: filter_map comp_def)
  finally show ?thesis by (simp add: occupied_def)
qed

lemma quiescent_lfq_ok:
  assumes inv: "lfq_sys_inv c s" and quiet: "quiescent s"
  shows "lfq_ok c (sys_q s) \<and> lfq_count (sys_q s) = gh_head s - gh_tail s \<and> gh_tail s \<le> gh_head s \<and>
    mset (lfq_list c (sys_q s)) = stored c (sys_q s)"
proof -
  let ?H = "gh_head s" and ?T = "gh_tail s" and ?q = "sys_q s" and ?N = "unat (lq_size c)"
  have I: "cfg_ok c" "length (q_elems ?q) = ?N" "q_head ?q = of_nat ?H" "q_tail ?q = of_nat ?T"
    "ticket_slots c ?H = ticket_slots c ?T + occupied c ?q"
    using inv quiescent_gather [OF quiet, of "pop_slot c"] quiescent_gather [OF quiet, of "push_slot c"]
    by (simp_all add: lfq_sys_inv_def)
  have le: "?T \<le> ?H"
  proof (rule ccontr)
    assume "\<not> ?T \<le> ?H"
    with I(5) ticket_slots_split [of ?H ?T c] have "ticket_window c ?H ?T = {#}" by simp
    then have "size (ticket_window c ?H ?T) = 0" by (simp only: size_empty)
    with \<open>\<not> ?T \<le> ?H\<close> show False by simp
  qed
  have w: "ticket_window c ?T ?H = occupied c ?q"
    using I(5) ticket_slots_split [OF le, of c] by simp
  have room: "?H - ?T \<le> ?N"
    using size_occupied_le [of c ?q] I(2) by (metis size_ticket_window w)
  have cnt: "lfq_count ?q = ?H - ?T"
  proof (subst lfq_count_word)
    show "?H - ?T < 2 ^ 32" using room cfg_ok_bound [OF I(1)] by simp
    show "q_head ?q - q_tail ?q = of_nat (?H - ?T)" using le by (simp add: I of_nat_diff)
  qed
  have slots: "q_elems ?q ! lfq_slot c (q_tail ?q + of_nat i) \<noteq> lq_nil c \<longleftrightarrow> i < ?H - ?T"
    if "i < ?N" for i
  proof -
    have "q_elems ?q ! lfq_slot c (q_tail ?q + of_nat i) \<noteq> lq_nil c \<longleftrightarrow>
        lfq_slot c (of_nat ?T + of_nat i) \<in># occupied c ?q"
      using lfq_slot_less [OF I(1)] I(2)
      by (simp add: I(4) count_occupied flip: count_greater_zero_iff)
    also have "\<dots> \<longleftrightarrow> i < ?H - ?T"
      unfolding w [symmetric] using I(1) room that by (rule in_ticket_window)
    finally show ?thesis .
  qed
  have "mset (lfq_list c ?q) = stored c ?q"
    by (simp add: lfq_list_def cnt stored_occupied ticket_window_offsets I(4)
        image_mset.compositionality comp_def flip: w)
  then show ?thesis
    using I(1,2) room le slots unfolding lfq_ok_def by (simp add: cnt)
qed

text \<open>
  A concrete run of two threads on a queue of two slots: thread 0 calls \<open>push(5)\<close> and is
  stopped with its ticket (\<open>demo_mid\<close>), thread 1 calls \<open>pop\<close> and waits (\<open>demo_wait\<close>), or
  thread 0 first finishes its push (\<open>demo_full\<close>).
\<close>

definition demo_cfg :: "nat lfq_cfg" where
  "demo_cfg = lfq_template 1 2 0 8"

definition demo_mid :: "nat lfq_sys" where
  "demo_mid = claim_head 0 5 (sys_init demo_cfg 2)"

definition demo_wait :: "nat lfq_sys" where
  "demo_wait = claim_tail 1 demo_mid"

definition demo_full :: "nat lfq_sys" where
  "demo_full = store_elem demo_cfg 0 5 0 demo_mid"

lemma demo_cfg_ok: "cfg_ok demo_cfg"
  by code_simp

lemma demo_mid_reachable: "lfq_reachable demo_cfg 2 demo_mid"
  unfolding demo_mid_def
  by (rule lfq_reachable.step [OF lfq_reachable.start lfq_step.call_push]; code_simp)

lemma demo_wait_reachable: "lfq_reachable demo_cfg 2 demo_wait"
  unfolding demo_wait_def
  by (rule lfq_reachable.step [OF demo_mid_reachable lfq_step.call_pop]; code_simp)

lemma demo_full_reachable: "lfq_reachable demo_cfg 2 demo_full"
  unfolding demo_full_def
  by (rule lfq_reachable.step [OF demo_mid_reachable lfq_step.push_store]; code_simp)

text \<open>C3: In every state that any interleaving of calls by any number of threads can reach,
  the elements accepted from pushers are exactly those delivered to poppers, those stored in
  the slots, and those a pusher that owns a ticket still holds: none is lost, duplicated or
  invented, and no \<open>NIL\<close> is ever accepted.\<close>

theorem no_loss_no_duplication:
  assumes "lfq_reachable c n s" "cfg_ok c"
  shows "gh_in s = gh_out s + stored c (sys_q s) + gather pending (sys_pcs s) \<and>
         list_all (pc_elem_ok c) (sys_pcs s)"
  using lfq_reachable_inv [OF assms] by (simp add: lfq_sys_inv_def)

theorem no_loss_no_duplication_witness:
  "gh_in demo_wait = gh_out demo_wait + stored demo_cfg (sys_q demo_wait) +
     gather pending (sys_pcs demo_wait) \<and> list_all (pc_elem_ok demo_cfg) (sys_pcs demo_wait)"
  by (rule no_loss_no_duplication [OF demo_wait_reachable demo_cfg_ok])

text \<open>C4: Once every call has returned, the queue is in a well-formed sequential state, whatever
  the interleaving was: the head is at most the capacity ahead of the tail, exactly the slots
  between them are filled, the elements held are those accepted and not delivered, and
  \<open>size\<close> is the number of pushes less the number of pops.\<close>

theorem quiescent_well_formed:
  assumes "lfq_reachable c n s" "cfg_ok c" "quiescent s"
  shows "lfq_ok c (sys_q s) \<and> gh_in s = gh_out s + mset (lfq_list c (sys_q s)) \<and>
         gh_tail s \<le> gh_head s \<and> lfq_size (sys_q s) = of_nat (gh_head s - gh_tail s)"
proof -
  note inv = lfq_reachable_inv [OF assms(1,2)]
  have "gather pending (sys_pcs s) = {#}" using assms(3) by (simp add: quiescent_gather)
  with quiescent_lfq_ok [OF inv assms(3)] inv show ?thesis
    by (simp add: lfq_sys_inv_def lfq_size_count [of c] del: of_nat_diff)
qed

theorem quiescent_well_formed_witness:
  "lfq_ok demo_cfg (sys_q demo_full) \<and>
   gh_in demo_full = gh_out demo_full + mset (lfq_list demo_cfg (sys_q demo_full)) \<and>
   gh_tail demo_full \<le> gh_head demo_full \<and>
   lfq_size (sys_q demo_full) = of_nat (gh_head demo_full - gh_tail demo_full)"
proof -
  have "quiescent demo_full" by code_simp
  then show ?thesis by (rule quiescent_well_formed [OF demo_full_reachable demo_cfg_ok])
qed

definition waiting :: "'a pc \<Rightarrow> bool" where
  "waiting p \<longleftrightarrow> (case p of PushStore _ _ \<Rightarrow> True | PopTake _ \<Rightarrow> True | _ \<Rightarrow> False)"

definition can_proceed :: "'a lfq_cfg \<Rightarrow> 'a lfq_sys \<Rightarrow> bool" where
  "can_proceed c s \<longleftrightarrow>
     (\<exists>i < length (sys_pcs s). waiting (sys_pcs s ! i) \<and> (\<exists>s'. lfq_step c i s s'))"

lemma blocked_pusher:
  assumes "\<not> can_proceed c s" "j \<in># gather (push_slot c) (sys_pcs s)"
  shows "q_elems (sys_q s) ! j \<noteq> lq_nil c"
proof
  assume free: "q_elems (sys_q s) ! j = lq_nil c"
  from assms(2) obtain i where i: "i < length (sys_pcs s)" "j \<in># push_slot c (sys_pcs s ! i)"
    by (auto simp: gather_nth)
  then obtain x h where p: "sys_pcs s ! i = PushStore x h" "j = lfq_slot c h"
    by (cases "sys_pcs s ! i") auto
  with i(1) free have "lfq_step c i s (store_elem c i x h s)"
    by (intro lfq_step.push_store) auto
  with i(1) p(1) assms(1) show False by (auto simp: can_proceed_def waiting_def)
qed

lemma blocked_popper:
  assumes "\<not> can_proceed c s" "j \<in># gather (pop_slot c) (sys_pcs s)"
  shows "q_elems (sys_q s) ! j = lq_nil c"
proof (rule ccontr)
  assume full: "q_elems (sys_q s) ! j \<noteq> lq_nil c"
  from assms(2) obtain i where i: "i < length (sys_pcs s)" "j \<in># pop_slot c (sys_pcs s ! i)"
    by (auto simp: gather_nth)
  then obtain t where p: "sys_pcs s ! i = PopTake t" "j = lfq_slot c t"
    by (cases "sys_pcs s ! i") auto
  with i(1) full have "lfq_step c i s (take_elem c i t s)"
    by (intro lfq_step.pop_take) auto
  with i(1) p(1) assms(1) show False by (auto simp: can_proceed_def waiting_def)
qed

lemma window_balance:
  assumes "lfq_sys_inv c s" "gh_tail s \<le> gh_head s"
  shows "ticket_window c (gh_tail s) (gh_head s) + gather (pop_slot c) (sys_pcs s) =
         occupied c (sys_q s) + gather (push_slot c) (sys_pcs s)"
proof -
  have "ticket_slots c (gh_tail s) +
      (ticket_window c (gh_tail s) (gh_head s) + gather (pop_slot c) (sys_pcs s)) =
      ticket_slots c (gh_tail s) +
      (occupied c (sys_q s) + gather (push_slot c) (sys_pcs s))"
    using assms ticket_slots_split [OF assms(2), of c] by (simp add: lfq_sys_inv_def ac_simps)
  then show ?thesis by (simp only: add_left_cancel)
qed

lemma push_slot_less:
  assumes "cfg_ok c" "j \<in># gather (push_slot c) pcs"
  shows "j < unat (lq_size c)"
proof -
  from assms(2) obtain i where "j \<in># push_slot c (pcs ! i)" by (auto simp: gather_nth)
  then show ?thesis using lfq_slot_less [OF assms(1)] by (cases "pcs ! i") auto
qed

lemma inv_deadlock_free:
  assumes inv: "lfq_sys_inv c s" and c: "cfg_ok c"
    and le: "gh_tail s \<le> gh_head s" and room: "gh_head s \<le> gh_tail s + unat (lq_size c)"
    and some: "\<exists>p \<in> set (sys_pcs s). waiting p"
  shows "can_proceed c s"
proof (rule ccontr)
  assume stuck: "\<not> can_proceed c s"
  let ?W = "ticket_window c (gh_tail s) (gh_head s)" and ?O = "occupied c (sys_q s)"
  let ?pop = "gather (pop_slot c) (sys_pcs s)" and ?push = "gather (push_slot c) (sys_pcs s)"
  have bal: "count ?W j + count ?pop j = count ?O j + count ?push j" for j
    using arg_cong [OF window_balance [OF inv le], of "\<lambda>M. count M j"] by simp
  have no_pop: "j \<notin># ?pop" for j
  proof
    assume j: "j \<in># ?pop"
    then have "q_elems (sys_q s) ! j = lq_nil c" by (rule blocked_popper [OF stuck])
    moreover from this have "j \<notin># ?push" using blocked_pusher [OF stuck] by blast
    ultimately have "count ?O j + count ?push j = 0"
      by (simp add: count_occupied not_in_iff)
    with bal [of j] j show False by (metis add_is_0 count_eq_zero_iff)
  qed
  have no_push: "j \<notin># ?push" for j
  proof
    assume j: "j \<in># ?push"
    then have "count ?O j = 1"
      using blocked_pusher [OF stuck j] push_slot_less [OF c j] inv
      by (simp add: count_occupied lfq_sys_inv_def)
    moreover have "count ?W j \<le> 1" using room by (intro distinct_ticket_window [OF c]) simp
    moreover have "0 < count ?push j" using j by simp
    moreover have "count ?pop j = 0" using no_pop [of j] by (simp add: not_in_iff)
    ultimately show False using bal [of j] by simp
  qed
  from some obtain p where "p \<in> set (sys_pcs s)" "waiting p" by blast
  moreover have "waiting p \<Longrightarrow> (\<exists>j. j \<in># push_slot c p) \<or> (\<exists>j. j \<in># pop_slot c p)"
    by (cases p) (auto simp: waiting_def)
  ultimately have "(\<exists>j. j \<in># ?push) \<or> (\<exists>j. j \<in># ?pop)"
    by (auto simp: gather_mem)
  with no_pop no_push show False by blast
qed

text \<open>C5: The queue does not deadlock. Whenever some thread waits for its slot, the pops started
  do not outnumber the pushes started, and the pushes started are at most the capacity ahead of
  the pops, then some waiting thread can take its next step: in every reachable state, for any
  number of threads.\<close>

theorem queue_deadlock_free:
  assumes reach: "lfq_reachable c n s" and c: "cfg_ok c"
    and le: "gh_tail s \<le> gh_head s" and room: "gh_head s \<le> gh_tail s + unat (lq_size c)"
    and some: "\<exists>p \<in> set (sys_pcs s). waiting p"
  shows "can_proceed c s"
  using inv_deadlock_free [OF lfq_reachable_inv [OF reach c] c le room some] .

theorem queue_deadlock_free_witness: "can_proceed demo_cfg demo_wait"
proof -
  have "gh_tail demo_wait \<le> gh_head demo_wait"
    "gh_head demo_wait \<le> gh_tail demo_wait + unat (lq_size demo_cfg)"
    "\<exists>p \<in> set (sys_pcs demo_wait). waiting p"
    by code_simp+
  then show ?thesis by (rule queue_deadlock_free [OF demo_wait_reachable demo_cfg_ok])
qed

section \<open>A thread that runs alone performs the sequential operation\<close>

fun ret_elems :: "'a queue_ret \<Rightarrow> 'a multiset" where
  "ret_elems (RetPopped (Some x)) = {#x#}"
| "ret_elems _ = {#}"

lemma goto_goto [simp]: "goto i p (goto i p' s) = goto i p s"
  by (simp add: goto_def)

lemma goto_id: "i < length (sys_pcs s) \<Longrightarrow> sys_pcs s ! i = p \<Longrightarrow> goto i p s = s"
  by (auto simp: goto_def)

lemma goto_sels [simp]:
  "sys_q (goto i p s) = sys_q s" "gh_out (goto i p s) = gh_out s" "gh_in (goto i p s) = gh_in s"
  "sys_pcs (goto i p s) = (sys_pcs s)[i := p]"
  by (simp_all add: goto_def)

lemma claim_head_sels [simp]:
  "sys_q (claim_head i x s) = (sys_q s)\<lparr>q_head := q_head (sys_q s) + 1\<rparr>"
  "sys_pcs (claim_head i x s) = (sys_pcs s)[i := PushStore x (q_head (sys_q s))]"
  "gh_out (claim_head i x s) = gh_out s" "gh_in (claim_head i x s) = gh_in s + {#x#}"
  by (simp_all add: claim_head_def Let_def)

lemma claim_tail_sels [simp]:
  "sys_q (claim_tail i s) = (sys_q s)\<lparr>q_tail := q_tail (sys_q s) + 1\<rparr>"
  "sys_pcs (claim_tail i s) = (sys_pcs s)[i := PopTake (q_tail (sys_q s))]"
  "gh_out (claim_tail i s) = gh_out s" "gh_in (claim_tail i s) = gh_in s"
  by (simp_all add: claim_tail_def Let_def)

lemma store_elem_sels [simp]:
  "sys_q (store_elem c i x h s) =
     (sys_q s)\<lparr>q_elems := (q_elems (sys_q s))[lfq_slot c h := x]\<rparr>"
  "sys_pcs (store_elem c i x h s) = (sys_pcs s)[i := Idle]"
  "gh_out (store_elem c i x h s) = gh_out s" "gh_in (store_elem c i x h s) = gh_in s"
  by (simp_all add: store_elem_def Let_def)

lemma take_elem_sels [simp]:
  "sys_q (take_elem c i t s) =
     (sys_q s)\<lparr>q_elems := (q_elems (sys_q s))[lfq_slot c t := lq_nil c]\<rparr>"
  "sys_pcs (take_elem c i t s) = (sys_pcs s)[i := Idle]"
  "gh_out (take_elem c i t s) = gh_out s + {#q_elems (sys_q s) ! lfq_slot c t#}" "gh_in (take_elem c i t s) = gh_in s"
  by (simp_all add: take_elem_def Let_def)

text \<open>The first access of a call (\<open>size\<close> changes nothing and is not a step), and the steps that thread
  \<open>i\<close> makes from then on until it is idle again, failures of a compare-exchange included.\<close>

fun enter :: "nat \<Rightarrow> 'a queue_op \<Rightarrow> 'a lfq_sys \<Rightarrow> 'a lfq_sys" where
  "enter i (OpTryPush x) s = goto i (TryPushLoop x (q_head (sys_q s))) s"
| "enter i OpTryPop s = goto i (TryPopLoop (q_tail (sys_q s))) s"
| "enter i (OpPush x) s = claim_head i x s"
| "enter i OpPop s = claim_tail i s"
| "enter i OpSize s = s"

definition inside_step :: "'a lfq_cfg \<Rightarrow> nat \<Rightarrow> 'a lfq_sys \<Rightarrow> 'a lfq_sys \<Rightarrow> bool" where
  "inside_step c i s s' \<longleftrightarrow> sys_pcs s ! i \<noteq> Idle \<and> lfq_step c i s s'"

abbreviation inside_run :: "'a lfq_cfg \<Rightarrow> nat \<Rightarrow> 'a lfq_sys \<Rightarrow> 'a lfq_sys \<Rightarrow> bool" where
  "inside_run c i \<equiv> (inside_step c i)\<^sup>*\<^sup>*"

fun pushed_elems :: "'a queue_op \<Rightarrow> 'a queue_ret \<Rightarrow> 'a multiset" where
  "pushed_elems (OpTryPush x) (RetPushed True) = {#x#}"
| "pushed_elems (OpPush x) (RetPushed True) = {#x#}"
| "pushed_elems _ _ = {#}"

text \<open>The states such a call goes through.\<close>

definition push_stages :: "'a lfq_cfg \<Rightarrow> nat \<Rightarrow> 'a \<Rightarrow> 'a lfq_sys \<Rightarrow> 'a lfq_sys set" where
  "push_stages c i x s = insert (claim_head i x s)
     (if q_elems (sys_q s) ! lfq_slot c (q_head (sys_q s)) = lq_nil c
      then {store_elem c i x (q_head (sys_q s)) (claim_head i x s)} else {})"

definition pop_stages :: "'a lfq_cfg \<Rightarrow> nat \<Rightarrow> 'a lfq_sys \<Rightarrow> 'a lfq_sys set" where
  "pop_stages c i s = insert (claim_tail i s)
     (if q_elems (sys_q s) ! lfq_slot c (q_tail (sys_q s)) \<noteq> lq_nil c
      then {take_elem c i (q_tail (sys_q s)) (claim_tail i s)} else {})"

fun call_stages :: "'a lfq_cfg \<Rightarrow> nat \<Rightarrow> 'a queue_op \<Rightarrow> 'a lfq_sys \<Rightarrow> 'a lfq_sys set" where
  "call_stages c i (OpTryPush x) s = insert (goto i (TryPushLoop x (q_head (sys_q s))) s)
     (if sint (q_head (sys_q s) - q_tail (sys_q s)) \<ge> sint (lq_size c) then {goto i Idle s}
      else insert (goto i (TryPushCas x (q_head (sys_q s))) s) (push_stages c i x s))"
| "call_stages c i OpTryPop s = insert (goto i (TryPopLoop (q_tail (sys_q s))) s)
     (if sint (q_head (sys_q s) - q_tail (sys_q s)) \<le> 0 then {goto i Idle s}
      else insert (goto i (TryPopCas (q_tail (sys_q s))) s) (pop_stages c i s))"
| "call_stages c i (OpPush x) s = push_stages c i x s"
| "call_stages c i OpPop s = pop_stages c i s"
| "call_stages c i OpSize s = {s}"

lemma claim_goto [simp]:
  "claim_head i x (goto i p s) = claim_head i x s" "claim_tail i (goto i p s) = claim_tail i s"
  by (simp_all add: claim_head_def claim_tail_def goto_def Let_def)

lemma push_stages_closed:
  assumes "i < length (sys_pcs s)" "t \<in> push_stages c i x s" "inside_step c i t t'"
  shows "t' \<in> push_stages c i x s"
proof -
  have "lfq_step c i t t'" "sys_pcs t ! i \<noteq> Idle" using assms(3) by (simp_all add: inside_step_def)
  then show ?thesis using assms(1,2)
    by (cases rule: lfq_step.cases) (auto simp: push_stages_def split: if_splits)
qed

lemma pop_stages_closed:
  assumes "i < length (sys_pcs s)" "t \<in> pop_stages c i s" "inside_step c i t t'"
  shows "t' \<in> pop_stages c i s"
proof -
  have "lfq_step c i t t'" "sys_pcs t ! i \<noteq> Idle" using assms(3) by (simp_all add: inside_step_def)
  then show ?thesis using assms(1,2)
    by (cases rule: lfq_step.cases) (auto simp: pop_stages_def split: if_splits)
qed

lemma try_push_stages_closed:
  assumes "i < length (sys_pcs s)" "t \<in> call_stages c i (OpTryPush x) s" "inside_step c i t t'"
  shows "t' \<in> call_stages c i (OpTryPush x) s"
proof -
  let ?h = "q_head (sys_q s)"
  have step: "lfq_step c i t t'" "sys_pcs t ! i \<noteq> Idle" using assms(3) by (simp_all add: inside_step_def)
  show ?thesis
  proof (cases "sint (?h - q_tail (sys_q s)) \<ge> sint (lq_size c)")
    case True
    then have "t = goto i (TryPushLoop x ?h) s" using assms(1,2) step(2) by auto
    with step(1) True assms(1) show ?thesis by (cases rule: lfq_step.cases) auto
  next
    case False
    then consider "t = goto i (TryPushLoop x ?h) s" | "t = goto i (TryPushCas x ?h) s" | "t \<in> push_stages c i x s"
      using assms(2) by auto
    then show ?thesis
    proof cases
      case 1
      with step(1) False assms(1) show ?thesis by (cases rule: lfq_step.cases) auto
    next
      case 2
      with step(1) False assms(1) show ?thesis by (cases rule: lfq_step.cases) (auto simp: push_stages_def)
    next
      case 3
      with False push_stages_closed [OF assms(1) 3 assms(3)] show ?thesis by simp
    qed
  qed
qed

lemma try_pop_stages_closed:
  assumes "i < length (sys_pcs s)" "t \<in> call_stages c i OpTryPop s" "inside_step c i t t'"
  shows "t' \<in> call_stages c i OpTryPop s"
proof -
  let ?t = "q_tail (sys_q s)"
  have step: "lfq_step c i t t'" "sys_pcs t ! i \<noteq> Idle" using assms(3) by (simp_all add: inside_step_def)
  show ?thesis
  proof (cases "sint (q_head (sys_q s) - ?t) \<le> 0")
    case True
    then have "t = goto i (TryPopLoop ?t) s" using assms(1,2) step(2) by auto
    with step(1) True assms(1) show ?thesis by (cases rule: lfq_step.cases) auto
  next
    case False
    then consider "t = goto i (TryPopLoop ?t) s" | "t = goto i (TryPopCas ?t) s" | "t \<in> pop_stages c i s"
      using assms(2) by auto
    then show ?thesis
    proof cases
      case 1
      with step(1) False assms(1) show ?thesis by (cases rule: lfq_step.cases) auto
    next
      case 2
      with step(1) False assms(1) show ?thesis by (cases rule: lfq_step.cases) (auto simp: pop_stages_def)
    next
      case 3
      with False pop_stages_closed [OF assms(1) 3 assms(3)] show ?thesis by simp
    qed
  qed
qed

lemma call_stages_closed:
  assumes "i < length (sys_pcs s)" "op \<noteq> OpSize" "inside_run c i (enter i op s) t"
  shows "t \<in> call_stages c i op s"
  using assms(3)
proof (induction rule: rtranclp_induct)
  case base
  then show ?case using assms(2) by (cases op) (simp_all add: push_stages_def pop_stages_def)
next
  case (step t t')
  show ?case
  proof (cases op)
    case (OpTryPush x)
    with step.IH step.hyps(2) try_push_stages_closed [OF assms(1)] show ?thesis by blast
  next
    case OpTryPop
    with step.IH step.hyps(2) try_pop_stages_closed [OF assms(1)] show ?thesis by blast
  next
    case (OpPush x)
    with step push_stages_closed [OF assms(1)] show ?thesis by (simp; blast)
  next
    case OpPop
    with step pop_stages_closed [OF assms(1)] show ?thesis by (simp; blast)
  qed (use assms(2) in simp)
qed

text \<open>The last stage holds the sequential result.\<close>

definition call_done :: "'a lfq_cfg \<Rightarrow> nat \<Rightarrow> 'a queue_op \<Rightarrow> 'a lfq_sys \<Rightarrow> 'a lfq_sys \<Rightarrow> bool" where
  "call_done c i op s s' \<longleftrightarrow> (\<exists>r q'. lfq_do c op (sys_q s) = Inr (r, q') \<and> sys_q s' = q' \<and>
     sys_pcs s' = (sys_pcs s)[i := Idle] \<and> gh_out s' = gh_out s + ret_elems r \<and>
     gh_in s' = gh_in s + pushed_elems op r)"

lemma push_stages_done:
  assumes "i < length (sys_pcs s)" "x \<noteq> lq_nil c" "t \<in> push_stages c i x s" "sys_pcs t ! i = Idle"
  shows "lfq_do c (OpPush x) (sys_q s) = Inr (RetPushed True, sys_q t) \<and>
     sys_pcs t = (sys_pcs s)[i := Idle] \<and> gh_out t = gh_out s \<and> gh_in t = gh_in s + {#x#}"
  using assms by (auto simp: push_stages_def lfq_push_def doPush_def split: if_splits)

lemma pop_stages_done:
  assumes "i < length (sys_pcs s)" "t \<in> pop_stages c i s" "sys_pcs t ! i = Idle"
  shows "\<exists>x. lfq_do c OpPop (sys_q s) = Inr (RetPopped (Some x), sys_q t) \<and>
     sys_pcs t = (sys_pcs s)[i := Idle] \<and> gh_out t = gh_out s + {#x#} \<and> gh_in t = gh_in s"
  using assms by (auto simp: pop_stages_def lfq_pop_def doPop_def split: if_splits)

text \<open>The refused tries do nothing; the others are the blocking calls.\<close>

lemma try_as_push:
  "lfq_do c (OpTryPush x) q = (if sint (q_head q - q_tail q) \<ge> sint (lq_size c)
     then Inr (RetPushed False, q) else lfq_do c (OpPush x) q)"
  "lfq_do c OpTryPop q = (if sint (q_head q - q_tail q) \<le> 0
     then Inr (RetPopped None, q) else lfq_do c OpPop q)"
  by (auto simp: tryPush_def tryPop_def lfq_push_def lfq_pop_def doPush_def doPop_def Let_def)

lemma call_stages_done:
  assumes "i < length (sys_pcs s)" "op \<noteq> OpSize" "queue_op_valid (lq_nil c) op"
    and "t \<in> call_stages c i op s" "sys_pcs t ! i = Idle"
  shows "call_done c i op s t"
proof (cases op)
  case (OpTryPush x)
  have x: "x \<noteq> lq_nil c" using assms(3) OpTryPush by simp
  show ?thesis
  proof (cases "sint (q_head (sys_q s) - q_tail (sys_q s)) \<ge> sint (lq_size c)")
    case True
    with assms OpTryPush have "t = goto i Idle s" by auto
    with True OpTryPush show ?thesis by (simp add: call_done_def try_as_push del: lfq_do.simps)
  next
    case False
    with assms OpTryPush have "t \<in> push_stages c i x s" by auto
    from push_stages_done [OF assms(1) x this assms(5)] False OpTryPush show ?thesis
      by (simp add: call_done_def try_as_push del: lfq_do.simps)
  qed
next
  case OpTryPop
  show ?thesis
  proof (cases "sint (q_head (sys_q s) - q_tail (sys_q s)) \<le> 0")
    case True
    with assms OpTryPop have "t = goto i Idle s" by auto
    with True OpTryPop show ?thesis by (simp add: call_done_def try_as_push del: lfq_do.simps)
  next
    case False
    with assms OpTryPop have "t \<in> pop_stages c i s" by auto
    from pop_stages_done [OF assms(1) this assms(5)] False OpTryPop show ?thesis
      by (auto simp: call_done_def try_as_push simp del: lfq_do.simps)
  qed
next
  case (OpPush x)
  with assms push_stages_done [OF assms(1), of x c t] show ?thesis
    by (auto simp: call_done_def simp del: lfq_do.simps)
next
  case OpPop
  with assms pop_stages_done [OF assms(1), of t c] show ?thesis
    by (auto simp: call_done_def simp del: lfq_do.simps)
qed (use assms(2) in simp)

text \<open>Every stage can be left until the last, when the sequential operation returns.\<close>

lemma inside_runI: "sys_pcs s ! i \<noteq> Idle \<Longrightarrow> lfq_step c i s t \<Longrightarrow> inside_run c i t u \<Longrightarrow> inside_run c i s u"
  by (rule converse_rtranclp_into_rtranclp) (simp_all add: inside_step_def)

lemma push_stages_end:
  assumes "i < length (sys_pcs s)" "lfq_do c (OpPush x) (sys_q s) = Inr (r, q')" "t \<in> push_stages c i x s"
  shows "\<exists>u. inside_run c i t u \<and> sys_pcs u ! i = Idle"
proof (cases "t = claim_head i x s")
  case True
  have "lfq_step c i t (store_elem c i x (q_head (sys_q s)) t)"
    using assms True by (intro lfq_step.push_store) (auto simp: lfq_push_def doPush_def split: if_splits)
  then show ?thesis using True assms(1) by (intro exI [of _ "store_elem c i x (q_head (sys_q s)) t"]) (simp add: inside_runI)
next
  case False
  with assms show ?thesis by (intro exI [of _ t]) (auto simp: push_stages_def split: if_splits)
qed

lemma pop_stages_end:
  assumes "i < length (sys_pcs s)" "lfq_do c OpPop (sys_q s) = Inr (r, q')" "t \<in> pop_stages c i s"
  shows "\<exists>u. inside_run c i t u \<and> sys_pcs u ! i = Idle"
proof (cases "t = claim_tail i s")
  case True
  have "lfq_step c i t (take_elem c i (q_tail (sys_q s)) t)"
    using assms True by (intro lfq_step.pop_take) (auto simp: lfq_pop_def doPop_def Let_def split: if_splits)
  then show ?thesis using True assms(1) by (intro exI [of _ "take_elem c i (q_tail (sys_q s)) t"]) (simp add: inside_runI)
next
  case False
  with assms show ?thesis by (intro exI [of _ t]) (auto simp: pop_stages_def split: if_splits)
qed

lemma try_push_stages_end:
  assumes "i < length (sys_pcs s)" "lfq_do c (OpTryPush x) (sys_q s) = Inr (r, q')"
    and "t \<in> call_stages c i (OpTryPush x) s"
  shows "\<exists>u. inside_run c i t u \<and> sys_pcs u ! i = Idle"
proof (cases "sint (q_head (sys_q s) - q_tail (sys_q s)) \<ge> sint (lq_size c)")
  case True
  let ?h = "q_head (sys_q s)"
  have "lfq_step c i (goto i (TryPushLoop x ?h) s) (goto i Idle (goto i (TryPushLoop x ?h) s))"
    using assms(1) True by (intro lfq_step.try_push_full [where x = x and h = ?h]) simp_all
  then have "inside_run c i (goto i (TryPushLoop x ?h) s) (goto i Idle s)"
    using assms(1) by (simp add: inside_runI)
  with True assms(1,3) show ?thesis by (intro exI [of _ "goto i Idle s"]) auto
next
  case False
  let ?h = "q_head (sys_q s)"
  from assms(2) False have do: "lfq_do c (OpPush x) (sys_q s) = Inr (r, q')"
    by (simp add: try_as_push del: lfq_do.simps)
  then obtain u where u: "inside_run c i (claim_head i x s) u" "sys_pcs u ! i = Idle"
    using push_stages_end [OF assms(1) do] by (auto simp: push_stages_def)
  have "lfq_step c i (goto i (TryPushCas x ?h) s) (claim_head i x (goto i (TryPushCas x ?h) s))"
    using assms(1) by (intro lfq_step.try_push_cas [where x = x and h = ?h]) simp_all
  then have cas: "inside_run c i (goto i (TryPushCas x ?h) s) u"
    using assms(1) u(1) by (simp add: inside_runI)
  have "lfq_step c i (goto i (TryPushLoop x ?h) s) (goto i (TryPushCas x ?h) (goto i (TryPushLoop x ?h) s))"
    using assms(1) False by (intro lfq_step.try_push_room [where x = x and h = ?h]) simp_all
  then have loop: "inside_run c i (goto i (TryPushLoop x ?h) s) u"
    using assms(1) cas by (simp add: inside_runI)
  from assms(3) False consider "t = goto i (TryPushLoop x ?h) s" | "t = goto i (TryPushCas x ?h) s" | "t \<in> push_stages c i x s"
    by auto
  then show ?thesis using loop cas u(2) push_stages_end [OF assms(1) do] by cases blast+
qed

lemma try_pop_stages_end:
  assumes "i < length (sys_pcs s)" "lfq_do c OpTryPop (sys_q s) = Inr (r, q')"
    and "t \<in> call_stages c i OpTryPop s"
  shows "\<exists>u. inside_run c i t u \<and> sys_pcs u ! i = Idle"
proof (cases "sint (q_head (sys_q s) - q_tail (sys_q s)) \<le> 0")
  case True
  let ?t = "q_tail (sys_q s)"
  have "lfq_step c i (goto i (TryPopLoop ?t) s) (goto i Idle (goto i (TryPopLoop ?t) s))"
    using assms(1) True by (intro lfq_step.try_pop_empty [where t = ?t]) simp_all
  then have "inside_run c i (goto i (TryPopLoop ?t) s) (goto i Idle s)"
    using assms(1) by (simp add: inside_runI)
  with True assms(1,3) show ?thesis by (intro exI [of _ "goto i Idle s"]) auto
next
  case False
  let ?t = "q_tail (sys_q s)"
  from assms(2) False have do: "lfq_do c OpPop (sys_q s) = Inr (r, q')"
    by (simp add: try_as_push del: lfq_do.simps)
  then obtain u where u: "inside_run c i (claim_tail i s) u" "sys_pcs u ! i = Idle"
    using pop_stages_end [OF assms(1) do] by (auto simp: pop_stages_def)
  have "lfq_step c i (goto i (TryPopCas ?t) s) (claim_tail i (goto i (TryPopCas ?t) s))"
    using assms(1) by (intro lfq_step.try_pop_cas [where t = ?t]) simp_all
  then have cas: "inside_run c i (goto i (TryPopCas ?t) s) u"
    using assms(1) u(1) by (simp add: inside_runI)
  have "lfq_step c i (goto i (TryPopLoop ?t) s) (goto i (TryPopCas ?t) (goto i (TryPopLoop ?t) s))"
    using assms(1) False by (intro lfq_step.try_pop_some [where t = ?t]) simp_all
  then have loop: "inside_run c i (goto i (TryPopLoop ?t) s) u"
    using assms(1) cas by (simp add: inside_runI)
  from assms(3) False consider "t = goto i (TryPopLoop ?t) s" | "t = goto i (TryPopCas ?t) s" | "t \<in> pop_stages c i s"
    by auto
  then show ?thesis using loop cas u(2) pop_stages_end [OF assms(1) do] by cases blast+
qed

lemma call_stages_end:
  assumes "i < length (sys_pcs s)" "op \<noteq> OpSize" "lfq_do c op (sys_q s) = Inr (r, q')"
    and "t \<in> call_stages c i op s"
  shows "\<exists>u. inside_run c i t u \<and> sys_pcs u ! i = Idle"
proof (cases op)
  case (OpTryPush x)
  with assms try_push_stages_end [OF assms(1)] show ?thesis by blast
next
  case OpTryPop
  with assms try_pop_stages_end [OF assms(1)] show ?thesis by blast
next
  case (OpPush x)
  with assms push_stages_end [OF assms(1)] show ?thesis by (simp del: lfq_do.simps; blast)
next
  case OpPop
  with assms pop_stages_end [OF assms(1)] show ?thesis by (simp del: lfq_do.simps; blast)
qed (use assms(2) in simp)

lemma enter_step:
  assumes "i < length (sys_pcs s)" "sys_pcs s ! i = Idle" "op \<noteq> OpSize" "queue_op_valid (lq_nil c) op"
  shows "lfq_step c i s (enter i op s)"
  using assms by (cases op) (auto intro: lfq_step.intros)

text \<open>C31: A thread that calls try-push, try-pop, push or pop while no other thread moves performs
  exactly the sequential operation. Its first step enters the call; however its own steps go on
  from there, failures of a compare-exchange included, when it is idle again the sequential
  operation returns, the queue is its result, every thread (also those stopped in the middle of
  a call) is where it was, exactly the popped element has been delivered and exactly the accepted
  one has entered, so that a refused try has the sequential refusal. And if the sequential
  operation returns, the end of the call can be reached from wherever the thread has got to.\<close>

theorem solo_call_sequential:
  assumes "i < length (sys_pcs s)" "sys_pcs s ! i = Idle" "op \<noteq> OpSize" "queue_op_valid (lq_nil c) op"
  shows "lfq_step c i s (enter i op s) \<and>
    (\<forall>t. inside_run c i (enter i op s) t \<longrightarrow>
      (sys_pcs t ! i = Idle \<longrightarrow> (\<exists>r q'. lfq_do c op (sys_q s) = Inr (r, q') \<and> sys_q t = q' \<and>
        sys_pcs t = sys_pcs s \<and> gh_out t = gh_out s + ret_elems r \<and>
        gh_in t = gh_in s + pushed_elems op r)) \<and>
      ((\<exists>r q'. lfq_do c op (sys_q s) = Inr (r, q')) \<longrightarrow>
        (\<exists>u. inside_run c i t u \<and> sys_pcs u ! i = Idle)))"
proof -
  have same: "(sys_pcs s)[i := Idle] = sys_pcs s"
    using assms(1,2) by (metis list_update_id)
  have "call_done c i op s t" if "inside_run c i (enter i op s) t" "sys_pcs t ! i = Idle" for t
    using call_stages_done [OF assms(1,3,4) call_stages_closed [OF assms(1,3) that(1)] that(2)] .
  then show ?thesis
    using enter_step [OF assms] call_stages_end [OF assms(1,3)] call_stages_closed [OF assms(1,3)]
    unfolding call_done_def same by blast
qed

theorem solo_call_sequential_witness:
  "lfq_step demo_cfg 1 demo_full (enter 1 OpTryPop demo_full) \<and>
   (\<exists>s'. inside_run demo_cfg 1 (enter 1 OpTryPop demo_full) s' \<and>
     sys_q s' = \<lparr>q_head = 1, q_tail = 1, q_elems = [0, 0]\<rparr> \<and>
     sys_pcs s' = [Idle, Idle] \<and> gh_out s' = {#5#})"
proof -
  have pre: "1 < length (sys_pcs demo_full)" "sys_pcs demo_full ! 1 = Idle" "(OpTryPop :: nat queue_op) \<noteq> OpSize"
    "queue_op_valid (lq_nil demo_cfg) OpTryPop" by code_simp+
  have do: "lfq_do demo_cfg OpTryPop (sys_q demo_full) =
       Inr (RetPopped (Some 5), \<lparr>q_head = 1, q_tail = 1, q_elems = [0, 0]\<rparr>)"
    by code_simp
  note solo = solo_call_sequential [OF pre]
  then obtain u where u: "inside_run demo_cfg 1 (enter 1 OpTryPop demo_full) u" "sys_pcs u ! 1 = Idle"
    using do by blast
  with solo do have "sys_q u = \<lparr>q_head = 1, q_tail = 1, q_elems = [0, 0]\<rparr>"
    "sys_pcs u = sys_pcs demo_full" "gh_out u = gh_out demo_full + {#5#}"
    by (metis Inr_inject prod.inject ret_elems.simps(1))+
  moreover have "sys_pcs demo_full = [Idle, Idle]" "gh_out demo_full = {#}"
    by (simp_all add: demo_full_def demo_mid_def sys_init_def claim_head_def store_elem_def goto_def
        Let_def numeral_2_eq_2)
  ultimately show ?thesis using u(1) solo by auto
qed

end
