(* ===== verification/Queue_Clients.thy ===== *)
theory Queue_Clients
  imports Queue_Interleaving
begin

text \<open>
  What the users of the shared queue need of its interleaved model: it may start from the queue
  a single thread has prepared; what a call returns when it ends; and when waiting threads can
  all be stuck.
\<close>

section \<open>Starting from a prepared queue\<close>

definition sys_of :: "'a lfq_cfg \<Rightarrow> 'a lfq \<Rightarrow> nat \<Rightarrow> 'a lfq_sys" where
  "sys_of c q n = \<lparr>sys_q = q, sys_pcs = replicate n Idle, gh_head = unat (q_tail q) + lfq_count q,
     gh_tail = unat (q_tail q), gh_in = mset (lfq_list c q), gh_out = {#}\<rparr>"

lemma slot_covers:
  assumes "cfg_ok c" "j < unat (lq_size c)"
  shows "\<exists>i < unat (lq_size c). lfq_slot c (t + of_nat i) = j"
proof -
  let ?N = "unat (lq_size c)" and ?f = "\<lambda>i. lfq_slot c (t + of_nat i)"
  have "inj_on ?f {..<?N}"
  proof (rule inj_onI)
    fix i k assume "i \<in> {..<?N}" "k \<in> {..<?N}" "?f i = ?f k"
    then show "i = k" using lfq_slot_eq_iff [OF assms(1), of i k t] by simp
  qed
  moreover have "?f ` {..<?N} \<subseteq> {..<?N}" using lfq_slot_less [OF assms(1)] by auto
  ultimately have "?f ` {..<?N} = {..<?N}" by (intro endo_inj_surj) auto
  then have "j \<in> ?f ` {..<?N}" using assms(2) by simp
  then show ?thesis by auto
qed

lemma occupied_window:
  assumes "lfq_ok c q"
  shows "occupied c q = ticket_window c (unat (q_tail q)) (unat (q_tail q) + lfq_count q)"
proof (rule multiset_eqI)
  fix j
  note D = lfq_okD [OF assms]
  let ?W = "ticket_window c (unat (q_tail q)) (unat (q_tail q) + lfq_count q)" and ?N = "unat (lq_size c)"
  have W: "lfq_slot c (q_tail q + of_nat i) \<in># ?W \<longleftrightarrow> i < lfq_count q" if "i < ?N" for i
    using in_ticket_window [OF D(1) _ that, of "unat (q_tail q) + lfq_count q" "unat (q_tail q)"] D(3) by simp
  have "j \<in># occupied c q \<longleftrightarrow> j \<in># ?W"
  proof (cases "j < ?N")
    case True
    from slot_covers [OF D(1) True, of "q_tail q"] obtain i where i: "i < ?N" "j = lfq_slot c (q_tail q + of_nat i)"
      by blast
    then show ?thesis
      using W [OF i(1)] D(4) [OF i(1)] True D(2) by (simp add: count_occupied flip: count_greater_zero_iff)
  next
    case False
    then have "j \<notin># ?W" using lfq_slot_less [OF D(1)] by (auto simp: ticket_window_def)
    with False show ?thesis using D(2) by (simp add: count_occupied flip: count_greater_zero_iff)
  qed
  moreover have "count ?W j \<le> 1" using D(3) by (intro distinct_ticket_window [OF D(1)]) simp
  moreover have "count (occupied c q) j \<le> 1" by (simp add: count_occupied)
  ultimately show "count (occupied c q) j = count ?W j"
    by (metis One_nat_def count_greater_zero_iff le_Suc_eq le_zero_eq not_gr_zero zero_less_one)
qed

lemma stored_list:
  assumes "lfq_ok c q"
  shows "stored c q = mset (lfq_list c q)"
  using occupied_window [OF assms]
  by (simp add: stored_occupied lfq_list_def ticket_window_offsets image_mset.compositionality comp_def)

lemma sys_of_inv:
  assumes "lfq_ok c q"
  shows "lfq_sys_inv c (sys_of c q n)"
proof -
  note D = lfq_okD [OF assms]
  have "q_head q = of_nat (unat (q_tail q) + lfq_count q)"
    using lfq_head [of q] by simp
  moreover have "ticket_slots c (unat (q_tail q) + lfq_count q) = ticket_slots c (unat (q_tail q)) + occupied c q"
    unfolding occupied_window [OF assms] by (rule ticket_slots_split) simp
  ultimately show ?thesis
    using D by (simp add: lfq_sys_inv_def sys_of_def stored_list [OF assms] gather_replicate_empty list_all_iff)
qed

section \<open>When every waiting thread is stuck\<close>

lemma size_gather_slots:
  "size (gather (push_slot c) pcs) = size (gather pending pcs)"
proof (induction pcs)
  case (Cons p pcs)
  then show ?case by (cases p) (simp_all add: gather_def)
qed (simp add: gather_def)

lemma size_stored_occupied: "size (stored c q) = size (occupied c q)"
  by (simp add: stored_occupied)

lemma pops_behind_pushes:
  assumes "lfq_sys_inv c s"
  shows "gh_head s \<le> gh_tail s + size (stored c (sys_q s)) + size (gather pending (sys_pcs s))"
proof (cases "gh_tail s \<le> gh_head s")
  case True
  from arg_cong [OF window_balance [OF assms True], of size] True show ?thesis
    by (simp add: size_gather_slots size_stored_occupied)
qed simp

text \<open>If the waiting threads are all stuck, they are poppers, and no element is in the queue or on its
  way into it.\<close>

lemma stuck_means_empty:
  assumes inv: "lfq_sys_inv c s" and stuck: "\<not> can_proceed c s" and some: "\<exists>p \<in> set (sys_pcs s). waiting p"
    and room: "size (stored c (sys_q s)) + size (gather pending (sys_pcs s)) \<le> unat (lq_size c)"
  shows "stored c (sys_q s) = {#} \<and> gather pending (sys_pcs s) = {#}"
proof -
  have c: "cfg_ok c" using inv by (simp add: lfq_sys_inv_def)
  let ?H = "gh_head s" and ?T = "gh_tail s" and ?O = "occupied c (sys_q s)"
  let ?pop = "gather (pop_slot c) (sys_pcs s)" and ?push = "gather (push_slot c) (sys_pcs s)"
  have "?H \<le> ?T"
  proof (rule ccontr)
    assume "\<not> ?H \<le> ?T"
    then have "can_proceed c s"
      using pops_behind_pushes [OF inv] room by (intro inv_deadlock_free [OF inv c _ _ some]) simp_all
    with stuck show False ..
  qed
  then have "ticket_slots c ?H + ?pop = ticket_slots c ?H + (ticket_window c ?H ?T + ?O + ?push)"
    using inv ticket_slots_split [of ?H ?T c] by (simp add: lfq_sys_inv_def ac_simps)
  then have bal: "?pop = ticket_window c ?H ?T + ?O + ?push" by (simp only: add_left_cancel)
  have O: "?O = {#}"
  proof (rule multiset_eqI)
    fix j
    have "j \<notin># ?O"
    proof
      assume j: "j \<in># ?O"
      then have "j \<in># ?pop" by (simp add: bal)
      from blocked_popper [OF stuck this] j show False
        by (simp add: count_occupied flip: count_greater_zero_iff split: if_splits)
    qed
    then show "count ?O j = count {#} j" by (simp add: not_in_iff)
  qed
  have "?push = {#}"
  proof (rule multiset_eqI)
    fix j
    have "j \<notin># ?push"
    proof
      assume j: "j \<in># ?push"
      then have "j \<in># ?pop" by (simp add: bal)
      from blocked_popper [OF stuck this] blocked_pusher [OF stuck j] show False by simp
    qed
    then show "count ?push j = count {#} j" by (simp add: not_in_iff)
  qed
  then show ?thesis using O size_gather_slots [of c "sys_pcs s"] size_stored_occupied [of c "sys_q s"]
    by (metis size_empty size_eq_0_iff_empty)
qed

section \<open>What a thread in tryPush offers and has read\<close>

fun offered :: "'a pc \<Rightarrow> 'a multiset" where
  "offered (TryPushLoop x h) = {#x#}"
| "offered (TryPushCas x h) = {#x#}"
| "offered _ = {#}"

text \<open>A thread in the loop of \<open>tryPush\<close> has read a head that was current once.\<close>

fun head_seen :: "nat \<Rightarrow> 'a pc \<Rightarrow> bool" where
  "head_seen n (TryPushLoop x h) \<longleftrightarrow> (\<exists>k \<in> {..n}. h = of_nat k)"
| "head_seen n _ \<longleftrightarrow> True"

lemma head_seen_mono: "head_seen n p \<Longrightarrow> n \<le> m \<Longrightarrow> head_seen m p"
  by (cases p) force+

lemma lfq_step_head_seen:
  assumes "lfq_step c i s s'" "list_all (head_seen (gh_head s)) (sys_pcs s)" "q_head (sys_q s) = of_nat (gh_head s)"
  shows "list_all (head_seen (gh_head s')) (sys_pcs s')"
proof -
  have "list_all (head_seen (Suc (gh_head s))) (sys_pcs s)"
    using assms(2) by (auto simp: list_all_iff intro: head_seen_mono)
  with assms show ?thesis
    by (cases rule: lfq_step.cases)
      (auto simp: goto_def claim_head_def claim_tail_def store_elem_def take_elem_def Let_def
        intro!: list_all_update)
qed

end
