(* ===== verification/Queue_MPMC.thy ===== *)
theory Queue_MPMC
  imports Queue_Clients Queue_SPSC
begin

text \<open>
  \<open>benchmarkMPMC\<close> of \<open>itcLockFreeQueueTest.cc\<close> on the interleaved queue: \<open>k\<close> producers push \<open>m\<close> messages each
  with \<open>tryPush\<close>, whose result they ignore, and \<open>k\<close> consumers pop \<open>m\<close> messages each. Threads 0 to
  \<open>k - 1\<close> are the producers, the others the consumers; a step is an atomic access to the queue.
\<close>

section \<open>Steps\<close>

record mpmc =
  mp_queue :: "u32 lfq_sys"
  mp_i :: "nat list"        \<comment> \<open>the loop variables of the producers\<close>
  mp_count :: "nat list"    \<comment> \<open>\<open>count\<close> of each consumer\<close>

definition mpmc_new :: "u32 lfq_cfg \<Rightarrow> nat \<Rightarrow> mpmc" where
  "mpmc_new c k = \<lparr>mp_queue = sys_init c (2 * k), mp_i = replicate k 0, mp_count = replicate k 0\<rparr>"

text \<open>The value of a pop that takes its element.\<close>

fun pop_value :: "u32 lfq_cfg \<Rightarrow> u32 lfq \<Rightarrow> u32 pc \<Rightarrow> u32" where
  "pop_value c q (PopTake t) = q_elems q ! lfq_slot c t"
| "pop_value c q _ = 0"

definition counted :: "u32 lfq_cfg \<Rightarrow> nat \<Rightarrow> u32 lfq_sys \<Rightarrow> mpmc \<Rightarrow> mpmc" where
  "counted c j q' s =
     s\<lparr>mp_queue := q', mp_count := (let value = pop_value c (sys_q (mp_queue s)) (sys_pcs (mp_queue s) ! (length (mp_i s) + j))
        in if sys_pcs q' ! (length (mp_i s) + j) = Idle \<and> value \<noteq> 0
           then (mp_count s)[j := mp_count s ! j + 1] else mp_count s)\<rparr>"

inductive mpmc_step :: "u32 lfq_cfg \<Rightarrow> nat \<Rightarrow> mpmc \<Rightarrow> mpmc \<Rightarrow> bool" for c m s where
  produce: "j < length (mp_i s) \<Longrightarrow> sys_pcs (mp_queue s) ! j = Idle \<Longrightarrow> mp_i s ! j < m \<Longrightarrow>
    mpmc_step c m s (s\<lparr>mp_queue := goto j (TryPushLoop (of_nat (mp_i s ! j) + 1) (q_head (sys_q (mp_queue s)))) (mp_queue s),
      mp_i := (mp_i s)[j := mp_i s ! j + 1]\<rparr>)"
| producing: "j < length (mp_i s) \<Longrightarrow> sys_pcs (mp_queue s) ! j \<noteq> Idle \<Longrightarrow> lfq_step c j (mp_queue s) q' \<Longrightarrow>
    mpmc_step c m s (s\<lparr>mp_queue := q'\<rparr>)"
| consume: "j < length (mp_count s) \<Longrightarrow> sys_pcs (mp_queue s) ! (length (mp_i s) + j) = Idle \<Longrightarrow> mp_count s ! j < m \<Longrightarrow>
    mpmc_step c m s (s\<lparr>mp_queue := claim_tail (length (mp_i s) + j) (mp_queue s)\<rparr>)"
| consuming: "j < length (mp_count s) \<Longrightarrow> sys_pcs (mp_queue s) ! (length (mp_i s) + j) \<noteq> Idle \<Longrightarrow>
    lfq_step c (length (mp_i s) + j) (mp_queue s) q' \<Longrightarrow> mpmc_step c m s (counted c j q' s)"

inductive mpmc_reachable :: "u32 lfq_cfg \<Rightarrow> nat \<Rightarrow> nat \<Rightarrow> mpmc \<Rightarrow> bool" for c k m where
  start: "mpmc_reachable c k m (mpmc_new c k)"
| step: "mpmc_reachable c k m s \<Longrightarrow> mpmc_step c m s s' \<Longrightarrow> mpmc_reachable c k m s'"

section \<open>The invariant\<close>

fun producer_at :: "'a pc \<Rightarrow> bool" where
  "producer_at (TryPopLoop t) = False"
| "producer_at (TryPopCas t) = False"
| "producer_at (PopTake t) = False"
| "producer_at _ = True"

fun consumer_at :: "nat \<Rightarrow> nat \<Rightarrow> 'a pc \<Rightarrow> bool" where
  "consumer_at m n Idle \<longleftrightarrow> n \<le> m"
| "consumer_at m n (PopTake t) \<longleftrightarrow> n < m"
| "consumer_at m n _ \<longleftrightarrow> False"

definition produced :: "nat list \<Rightarrow> u32 multiset" where
  "produced is = gather (\<lambda>i. mset (messages i)) is"

text \<open>The tickets a consumer has taken.\<close>

definition tickets :: "nat list \<Rightarrow> 'a pc list \<Rightarrow> nat" where
  "tickets counts pcs = sum_list (map2 (\<lambda>n p. if p = Idle then n else n + 1) counts pcs)"

definition mpmc_inv :: "u32 lfq_cfg \<Rightarrow> nat \<Rightarrow> nat \<Rightarrow> mpmc \<Rightarrow> bool" where
  "mpmc_inv c k m s \<longleftrightarrow> lfq_sys_inv c (mp_queue s) \<and> length (mp_i s) = k \<and> length (mp_count s) = k \<and>
     length (sys_pcs (mp_queue s)) = 2 * k \<and> list_all (\<lambda>i. i \<le> m) (mp_i s) \<and>
     (\<forall>j < k. producer_at (sys_pcs (mp_queue s) ! j)) \<and>
     (\<forall>j < k. consumer_at m (mp_count s ! j) (sys_pcs (mp_queue s) ! (k + j))) \<and>
     list_all (head_seen (gh_head (mp_queue s))) (sys_pcs (mp_queue s)) \<and>
     gh_in (mp_queue s) + gather offered (sys_pcs (mp_queue s)) = produced (mp_i s) \<and>
     gh_head (mp_queue s) = size (gh_in (mp_queue s)) \<and> size (gh_out (mp_queue s)) = sum_list (mp_count s) \<and>
     gh_tail (mp_queue s) = tickets (mp_count s) (drop k (sys_pcs (mp_queue s)))"

lemma mpmc_inv_new: "cfg_ok c \<Longrightarrow> mpmc_inv c k m (mpmc_new c k)"
  by (simp add: mpmc_inv_def mpmc_new_def lfq_sys_inv_init list_all_iff)
    (simp add: sys_init_def gather_replicate_empty produced_def messages_def tickets_def zip_replicate)

lemma produced_size: "size (produced is) = sum_list is"
  by (induction "is") (simp_all add: produced_def gather_def)

lemma sum_list_bound: "list_all (\<lambda>i. i \<le> m) xs \<Longrightarrow> sum_list xs \<le> length xs * (m :: nat)"
  by (induction xs) auto

lemma produced_more:
  "j < length is \<Longrightarrow> produced (is[j := is ! j + 1]) = produced is + {#of_nat (is ! j) + 1#}"
  unfolding produced_def by (rule gather_update_add) (simp_all add: messages_Suc)

lemma tickets_update:
  assumes "j < length counts" "j < length pcs"
  shows "tickets (counts[j := n]) (pcs[j := p]) + (if pcs ! j = Idle then counts ! j else counts ! j + 1) =
    tickets counts pcs + (if p = Idle then n else n + 1)"
  using assms
proof (induction counts arbitrary: pcs j)
  case (Cons n0 counts)
  from Cons.prems(2) obtain p0 ps where pcs: "pcs = p0 # ps" by (cases pcs) auto
  show ?case
  proof (cases j)
    case 0
    then show ?thesis by (simp add: pcs tickets_def)
  next
    case (Suc i)
    with Cons.IH [of i ps] Cons.prems show ?thesis by (auto simp: pcs tickets_def split: if_splits)
  qed
qed simp

lemma consumer_tickets:
  assumes "mpmc_inv c k m s"
  shows "gh_tail (mp_queue s) \<le> k * m"
proof -
  let ?xs = "map2 (\<lambda>n p. if p = Idle then n else n + 1) (mp_count s) (drop k (sys_pcs (mp_queue s)))"
  have I: "length (mp_count s) = k" "length (sys_pcs (mp_queue s)) = 2 * k"
    "\<forall>j < k. consumer_at m (mp_count s ! j) (sys_pcs (mp_queue s) ! (k + j))"
    using assms by (simp_all add: mpmc_inv_def)
  have "?xs ! j \<le> m" if "j < k" for j
    using I that by (cases "sys_pcs (mp_queue s) ! (k + j)") (auto simp: dest!: spec [of _ j])
  then have "list_all (\<lambda>n. n \<le> m) ?xs" using I by (simp add: list_all_length)
  from sum_list_bound [OF this] show ?thesis using assms I by (simp add: mpmc_inv_def tickets_def)
qed

lemma mpmc_room:
  assumes "mpmc_inv c k m s"
  shows "size (gh_in (mp_queue s)) + size (gather offered (sys_pcs (mp_queue s))) \<le> k * m"
proof -
  have I: "gh_in (mp_queue s) + gather offered (sys_pcs (mp_queue s)) = produced (mp_i s)"
    "length (mp_i s) = k" "list_all (\<lambda>i. i \<le> m) (mp_i s)" using assms by (simp_all add: mpmc_inv_def)
  have "size (gh_in (mp_queue s)) + size (gather offered (sys_pcs (mp_queue s))) = sum_list (mp_i s)"
    using I(1) produced_size by (metis size_union)
  with sum_list_bound [OF I(3)] I(2) show ?thesis by simp
qed

text \<open>The queue never refuses a message: it has room for all of them.\<close>

lemma mpmc_never_full:
  assumes "mpmc_inv c k m s" "k * m \<le> unat (lq_size c)" "j < 2 * k" "sys_pcs (mp_queue s) ! j = TryPushLoop x h"
  shows "sint (h - q_tail (sys_q (mp_queue s))) < sint (lq_size c)"
proof -
  let ?q = "mp_queue s"
  have I: "lfq_sys_inv c ?q" "gh_head ?q = size (gh_in ?q)" "length (sys_pcs ?q) = 2 * k"
    "list_all (head_seen (gh_head ?q)) (sys_pcs ?q)"
    using assms(1) unfolding mpmc_inv_def by blast+
  then have c: "cfg_ok c" and tail: "q_tail (sys_q ?q) = of_nat (gh_tail ?q)" by (simp_all add: lfq_sys_inv_def)
  have "head_seen (gh_head ?q) (sys_pcs ?q ! j)" using I(3,4) assms(3) by (simp add: list_all_length)
  then obtain n where n: "n \<le> gh_head ?q" "h = of_nat n" using assms(4) by auto
  have "x \<in># gather offered (sys_pcs ?q)" using assms(3,4) I(3) by (auto simp: gather_nth intro!: exI [of _ j])
  then have "0 < size (gather offered (sys_pcs ?q))" by (metis nonempty_has_size empty_not_add_mset multi_member_split)
  then have lt: "n < gh_tail ?q + unat (lq_size c)" using mpmc_room [OF assms(1)] assms(2) n(1) I(2) by linarith
  have few: "gh_tail ?q < 2 ^ 31" using consumer_tickets [OF assms(1)] assms(2) cfg_ok_bound [OF c] by simp
  have "sint (h - q_tail (sys_q ?q)) = int n - int (gh_tail ?q)"
    unfolding n(2) tail using lt cfg_ok_bound [OF c] few by (rule sint_u32_window)
  then show ?thesis unfolding cfg_ok_sint [OF c] using lt by linarith
qed

text \<open>What a step inside a call changes.\<close>

lemma producer_step:
  assumes "lfq_step c i q q'" "producer_at (sys_pcs q ! i)" "sys_pcs q ! i \<noteq> Idle"
    and "\<And>x h. sys_pcs q ! i = TryPushLoop x h \<Longrightarrow> sint (h - q_tail (sys_q q)) < sint (lq_size c)"
  shows "\<exists>p. sys_pcs q' = (sys_pcs q)[i := p] \<and> producer_at p \<and> gh_tail q' = gh_tail q \<and> gh_out q' = gh_out q \<and>
    gh_in q' + offered p = gh_in q + offered (sys_pcs q ! i) \<and>
    gh_head q' + size (gh_in q) = gh_head q + size (gh_in q')"
  using assms(1)
proof (cases rule: lfq_step.cases)
  case (try_push_full x h)
  with assms(4) [of x h] show ?thesis by simp
qed (use assms(2,3) in \<open>auto simp: goto_def claim_head_def claim_tail_def store_elem_def take_elem_def Let_def\<close>)

lemma consumer_step:
  assumes "lfq_step c i q q'" "sys_pcs q ! i = PopTake t"
  shows "sys_pcs q' = (sys_pcs q)[i := Idle]" "gh_in q' = gh_in q" "gh_head q' = gh_head q" "gh_tail q' = gh_tail q"
    "size (gh_out q') = Suc (size (gh_out q))" "q_elems (sys_q q) ! lfq_slot c t \<noteq> lq_nil c"
  using assms by (auto elim!: lfq_step.cases simp: take_elem_def goto_def Let_def)

lemma mpmc_step_inv:
  assumes "mpmc_step c m s s'" "mpmc_inv c k m s" "lq_nil c = 0" "k * m \<le> unat (lq_size c)"
  shows "mpmc_inv c k m s'"
proof -
  let ?q = "mp_queue s"
  have I: "lfq_sys_inv c ?q" "length (mp_i s) = k" "length (mp_count s) = k" "length (sys_pcs ?q) = 2 * k"
    "list_all (\<lambda>i. i \<le> m) (mp_i s)" "\<forall>j < k. producer_at (sys_pcs ?q ! j)"
    "\<forall>j < k. consumer_at m (mp_count s ! j) (sys_pcs ?q ! (k + j))"
    "list_all (head_seen (gh_head ?q)) (sys_pcs ?q)"
    "gh_in ?q + gather offered (sys_pcs ?q) = produced (mp_i s)" "gh_head ?q = size (gh_in ?q)"
    "size (gh_out ?q) = sum_list (mp_count s)" "gh_tail ?q = tickets (mp_count s) (drop k (sys_pcs ?q))"
    using assms(2) unfolding mpmc_inv_def by blast+
  have head: "q_head (sys_q ?q) = of_nat (gh_head ?q)" using I(1) by (simp add: lfq_sys_inv_def)
  show ?thesis
    using assms(1)
  proof (cases rule: mpmc_step.cases)
    case (produce j)
    let ?x = "of_nat (mp_i s ! j) + 1 :: u32"
    let ?q' = "goto j (TryPushLoop ?x (q_head (sys_q ?q))) ?q"
    have "1 * m \<le> k * m" using produce(2) I(2) by (intro mult_le_mono1) simp
    moreover have "unat (lq_size c) \<le> 2 ^ 30" using I(1) by (intro cfg_ok_bound) (simp add: lfq_sys_inv_def)
    ultimately have "mp_i s ! j < 2 ^ 30" using produce(4) assms(4) by linarith
    then have nz: "?x \<noteq> lq_nil c" using message_nonzero [of "mp_i s ! j"] assms(3) by simp
    have step: "lfq_step c j ?q ?q'" using produce(2,3) nz I(2,4) by (intro lfq_step.call_try_push) simp_all
    have "gather offered (sys_pcs ?q') = gather offered (sys_pcs ?q) + {#?x#}"
      using produce(2,3) I(2,4) by (simp add: gather_update_add [where d = "{#?x#}"])
    then show ?thesis unfolding produce(1) mpmc_inv_def
      using lfq_step_inv [OF step I(1)] lfq_step_head_seen [OF step I(8) head] produce I produced_more [of j "mp_i s"]
      by (auto simp: goto_def nth_list_update list_all_update ac_simps)
  next
    case (producing j q')
    have j: "j < k" "j < length (sys_pcs ?q)" using producing(2) I(2,4) by simp_all
    obtain p where p: "sys_pcs q' = (sys_pcs ?q)[j := p]" "producer_at p" "gh_tail q' = gh_tail ?q" "gh_out q' = gh_out ?q"
      "gh_in q' + offered p = gh_in ?q + offered (sys_pcs ?q ! j)" "gh_head q' + size (gh_in ?q) = gh_head ?q + size (gh_in q')"
      using producer_step [OF producing(4) _ producing(3)] I(6) j mpmc_never_full [OF assms(2,4), of j] by auto
    have "gather offered (sys_pcs q') + offered (sys_pcs ?q ! j) = gather offered (sys_pcs ?q) + offered p"
      unfolding p(1) by (rule gather_update [OF j(2)])
    then have "gh_in q' + gather offered (sys_pcs q') + (offered p + offered (sys_pcs ?q ! j)) =
        gh_in ?q + gather offered (sys_pcs ?q) + (offered p + offered (sys_pcs ?q ! j))"
      using p(5) by (metis (no_types, opaque_lifting) add.assoc add.left_commute)
    then have "gh_in q' + gather offered (sys_pcs q') = gh_in ?q + gather offered (sys_pcs ?q)" by (rule add_right_imp_eq)
    then show ?thesis unfolding producing(1) mpmc_inv_def
      using lfq_step_inv [OF producing(4) I(1)] lfq_step_head_seen [OF producing(4) I(8) head] I p j
      by (auto simp: nth_list_update)
  next
    case (consume j)
    let ?i = "k + j"
    have j: "j < k" "?i < length (sys_pcs ?q)" "sys_pcs ?q ! ?i = Idle" "mp_count s ! j < m"
      using consume I(2-4) by simp_all
    have step: "lfq_step c ?i ?q (claim_tail ?i ?q)" using j by (intro lfq_step.call_pop)
    have "gather offered (sys_pcs (claim_tail ?i ?q)) = gather offered (sys_pcs ?q)"
      using j by (simp add: gather_update_same)
    moreover have "gh_tail (claim_tail ?i ?q) = tickets (mp_count s) (drop k (sys_pcs (claim_tail ?i ?q)))"
      using tickets_update [of j "mp_count s" "drop k (sys_pcs ?q)" "mp_count s ! j" "PopTake (q_tail (sys_q ?q))"] j I(3,4,12)
      by (simp add: claim_tail_def goto_def Let_def drop_update_swap)
    moreover have "gh_in (claim_tail ?i ?q) = gh_in ?q" "gh_head (claim_tail ?i ?q) = gh_head ?q"
      by (simp_all add: claim_tail_def goto_def Let_def)
    ultimately show ?thesis unfolding consume(1) mpmc_inv_def
      using lfq_step_inv [OF step I(1)] lfq_step_head_seen [OF step I(8) head] I j
      by (auto simp: nth_list_update)
  next
    case (consuming j q')
    let ?i = "k + j"
    have j: "j < k" "?i < length (sys_pcs ?q)" "sys_pcs ?q ! ?i \<noteq> Idle" "lfq_step c ?i ?q q'"
      using consuming I(2-4) by simp_all
    then obtain t where t: "sys_pcs ?q ! ?i = PopTake t" "mp_count s ! j < m"
      using I(7) by (cases "sys_pcs ?q ! ?i") (auto dest!: spec [of _ j])
    note st = consumer_step [OF j(4) t(1)]
    have s': "counted c j q' s = s\<lparr>mp_queue := q', mp_count := (mp_count s)[j := mp_count s ! j + 1]\<rparr>"
      using t(1) st(1,6) j(2) assms(3) I(2) by (simp add: counted_def)
    have "gather offered (sys_pcs q') = gather offered (sys_pcs ?q)"
      using t(1) j(2) by (simp add: st(1) gather_update_same)
    moreover have "gh_tail q' = tickets ((mp_count s)[j := mp_count s ! j + 1]) (drop k (sys_pcs q'))"
      using tickets_update [of j "mp_count s" "drop k (sys_pcs ?q)" "mp_count s ! j + 1" Idle] j t(1) I(3,4,12)
      by (simp add: st(1,4) drop_update_swap)
    moreover have "sum_list ((mp_count s)[j := mp_count s ! j + 1]) = Suc (sum_list (mp_count s))"
      using j(1) I(3) elem_le_sum_list [of j "mp_count s"] by (simp add: sum_list_update)
    ultimately show ?thesis unfolding consuming(1) s' mpmc_inv_def
      using lfq_step_inv [OF j(4) I(1)] lfq_step_head_seen [OF j(4) I(8) head] I j t st
      by (auto simp: nth_list_update)
  qed
qed

lemma mpmc_reachable_inv:
  assumes "mpmc_reachable c k m s" "cfg_ok c" "lq_nil c = 0" "k * m \<le> unat (lq_size c)"
  shows "mpmc_inv c k m s"
  using assms(1) by induction (simp_all add: mpmc_inv_new assms mpmc_step_inv [OF _ _ assms(3,4)])

section \<open>The benchmark cannot get stuck\<close>

lemma mpmc_thread_moves:
  assumes inv: "mpmc_inv c k m s" and i: "i < 2 * k" "sys_pcs (mp_queue s) ! i \<noteq> Idle" "lfq_step c i (mp_queue s) q'"
  shows "\<exists>s'. mpmc_step c m s s'"
proof -
  have I: "length (mp_i s) = k" "length (mp_count s) = k" using inv by (simp_all add: mpmc_inv_def)
  show ?thesis
  proof (cases "i < k")
    case True
    with mpmc_step.producing [of i s c q' m] i I show ?thesis by auto
  next
    case False
    then have "i - k < k" "k + (i - k) = i" using i by linarith+
    with mpmc_step.consuming [of "i - k" s c q' m] i I show ?thesis by auto
  qed
qed

lemma mpmc_stuck_waits:
  assumes inv: "mpmc_inv c k m s" and stuck: "\<forall>s'. \<not> mpmc_step c m s s'"
  shows "\<not> can_proceed c (mp_queue s)"
    "j < k \<Longrightarrow> sys_pcs (mp_queue s) ! j = Idle \<and> mp_i s ! j = m \<or> (\<exists>x h. sys_pcs (mp_queue s) ! j = PushStore x h)"
    "j < k \<Longrightarrow> sys_pcs (mp_queue s) ! (k + j) = Idle \<and> mp_count s ! j = m \<or>
       (\<exists>t. sys_pcs (mp_queue s) ! (k + j) = PopTake t \<and> mp_count s ! j < m)"
proof -
  let ?q = "mp_queue s"
  have I: "length (mp_i s) = k" "length (mp_count s) = k" "length (sys_pcs ?q) = 2 * k"
    "list_all (\<lambda>i. i \<le> m) (mp_i s)" using inv by (simp_all add: mpmc_inv_def)
  have no: "\<not> lfq_step c i ?q q'" if "i < 2 * k" "sys_pcs ?q ! i \<noteq> Idle" for i q'
    using mpmc_thread_moves [OF inv that] stuck by blast
  show "\<not> can_proceed c ?q"
    using no I(3) by (auto simp: can_proceed_def waiting_def split: pc.splits)
  show "sys_pcs ?q ! j = Idle \<and> mp_i s ! j = m \<or> (\<exists>x h. sys_pcs ?q ! j = PushStore x h)" if j: "j < k"
  proof -
    have at: "producer_at (sys_pcs ?q ! j)" "mp_i s ! j \<le> m"
      using inv j I by (simp_all add: mpmc_inv_def list_all_length)
    have len: "j < length (sys_pcs ?q)" "j < 2 * k" using j I(3) by simp_all
    show ?thesis
    proof (cases "sys_pcs ?q ! j")
      case Idle
      with stuck mpmc_step.produce [of j s m c] j I(1) at(2) show ?thesis by (metis le_neq_implies_less)
    next
      case (TryPushLoop x h)
      with no [OF len(2)] lfq_step.try_push_full [OF len(1) TryPushLoop, of c] lfq_step.try_push_room [OF len(1) TryPushLoop, of c]
      show ?thesis by (metis not_le pc.distinct(1))
    next
      case (TryPushCas x h)
      with no [OF len(2)] lfq_step.try_push_retry [OF len(1) TryPushCas, of c] show ?thesis by simp
    qed (use at in auto)
  qed
  show "sys_pcs ?q ! (k + j) = Idle \<and> mp_count s ! j = m \<or> (\<exists>t. sys_pcs ?q ! (k + j) = PopTake t \<and> mp_count s ! j < m)"
    if j: "j < k"
  proof -
    have at: "consumer_at m (mp_count s ! j) (sys_pcs ?q ! (k + j))" using inv j by (simp add: mpmc_inv_def)
    show ?thesis
    proof (cases "sys_pcs ?q ! (k + j)")
      case Idle
      with stuck mpmc_step.consume [of j s m c] j I(1,2) at show ?thesis by (metis consumer_at.simps(1) le_neq_implies_less)
    qed (use at in auto)
  qed
qed

lemma sum_list_below:
  "list_all (\<lambda>i. i \<le> m) xs \<Longrightarrow> j < length xs \<Longrightarrow> xs ! j < m \<Longrightarrow> sum_list xs < length xs * (m :: nat)"
proof (induction xs arbitrary: j)
  case (Cons x xs)
  show ?case
  proof (cases j)
    case 0
    with Cons.prems sum_list_bound [of m xs] show ?thesis by simp
  next
    case (Suc i)
    with Cons.IH [of i] Cons.prems show ?thesis by simp
  qed
qed simp

lemma produced_replicate: "produced (replicate k m) = repeat_mset k (mset (messages m))"
  by (induction k) (simp_all add: produced_def gather_def)

text \<open>When no thread can move and all producers are done, so are the consumers.\<close>

lemma mpmc_stuck_consumer:
  assumes inv: "mpmc_inv c k m s" and stuck: "\<forall>s'. \<not> mpmc_step c m s s'" and j: "j < k"
    and all_in: "size (gh_out (mp_queue s)) = k * m"
  shows "sys_pcs (mp_queue s) ! (k + j) = Idle \<and> mp_count s ! j = m"
proof (rule ccontr)
  assume "\<not> (sys_pcs (mp_queue s) ! (k + j) = Idle \<and> mp_count s ! j = m)"
  then have less: "mp_count s ! j < m" using mpmc_stuck_waits(3) [OF inv stuck j] by auto
  have I: "length (mp_count s) = k" "size (gh_out (mp_queue s)) = sum_list (mp_count s)"
    using inv by (simp_all add: mpmc_inv_def)
  have "mp_count s ! i \<le> m" if "i < k" for i using mpmc_stuck_waits(3) [OF inv stuck that] by auto
  then have "list_all (\<lambda>i. i \<le> m) (mp_count s)" using I(1) by (simp add: list_all_length)
  from sum_list_below [OF this _ less] j I all_in show False by simp
qed

lemma mpmc_stuck_idle:
  assumes inv: "mpmc_inv c k m s" and room: "k * m \<le> unat (lq_size c)" and stuck: "\<forall>s'. \<not> mpmc_step c m s s'"
    and i: "i < 2 * k"
  shows "sys_pcs (mp_queue s) ! i = Idle"
proof (rule ccontr)
  let ?q = "mp_queue s"
  note wait = mpmc_stuck_waits [OF inv stuck]
  have I: "lfq_sys_inv c ?q" "length (mp_i s) = k" "length (sys_pcs ?q) = 2 * k"
    "gh_in ?q + gather offered (sys_pcs ?q) = produced (mp_i s)"
    using inv unfolding mpmc_inv_def by blast+
  have pcs: "sys_pcs ?q ! i = Idle \<or> (\<exists>x h. sys_pcs ?q ! i = PushStore x h) \<or> (\<exists>t. sys_pcs ?q ! i = PopTake t)"
    if "i < 2 * k" for i
  proof (cases "i < k")
    case False
    then have "i - k < k" "k + (i - k) = i" using that by linarith+
    with wait(3) [of "i - k"] show ?thesis by auto
  qed (use wait(2) [of i] in auto)
  have off: "gather offered (sys_pcs ?q) = {#}"
    using pcs I(3) by (intro gather_all_empty) (force simp: in_set_conv_nth)
  have split: "gh_in ?q = gh_out ?q + stored c (sys_q ?q) + gather pending (sys_pcs ?q)"
    using I(1) by (simp add: lfq_sys_inv_def)
  assume busy: "sys_pcs ?q ! i \<noteq> Idle"
  then have "waiting (sys_pcs ?q ! i)" using pcs [OF i] by (auto simp: waiting_def)
  then have some: "\<exists>p \<in> set (sys_pcs ?q). waiting p" using i I(3) by (metis nth_mem)
  have "size (gh_in ?q) \<le> k * m" using mpmc_room [OF inv] by linarith
  then have "size (stored c (sys_q ?q)) + size (gather pending (sys_pcs ?q)) \<le> unat (lq_size c)"
    using room by (simp add: split)
  then have none: "stored c (sys_q ?q) = {#}" "gather pending (sys_pcs ?q) = {#}"
    using stuck_means_empty [OF I(1) wait(1) some] by simp_all
  have fin: "sys_pcs ?q ! j = Idle \<and> mp_i s ! j = m" if "j < k" for j
  proof -
    have "\<not> x \<in># pending (sys_pcs ?q ! j)" for x
      using none(2) that I(3) gather_nth [of x pending "sys_pcs ?q"] by auto
    then have "pending (sys_pcs ?q ! j) = {#}" by (metis multiset_nonemptyE)
    with wait(2) [OF that] show ?thesis by auto
  qed
  then have "mp_i s = replicate k m" using I(2) by (simp add: list_eq_iff_nth_eq)
  then have "gh_out ?q = produced (replicate k m)" using I(4) off split none by simp
  then have "size (gh_out ?q) = k * m" by (simp add: produced_size sum_list_replicate)
  moreover have "i - k < k" "k + (i - k) = i" using fin [of i] busy i by linarith+
  ultimately show False using mpmc_stuck_consumer [OF inv stuck, of "i - k"] busy by simp
qed

text \<open>C38: The benchmark with \<open>k\<close> producers and \<open>k\<close> consumers of \<open>m\<close> messages each does not deadlock,
  whatever the interleaving, if the queue has at least \<open>k * m\<close> slots (as in the test): a reachable
  state in which no thread can move is one in which every producer has pushed its \<open>m\<close> messages,
  none of them refused, every consumer has counted \<open>m\<close>, as the test asserts, the messages received
  are exactly those pushed, no thread is inside a call and the queue is empty.\<close>

theorem benchmarkMPMC_not_stuck:
  assumes "mpmc_reachable c k m s" "cfg_ok c" "lq_nil c = 0" "k * m \<le> unat (lq_size c)"
    and "\<forall>s'. \<not> mpmc_step c m s s'"
  shows "quiescent (mp_queue s) \<and> mp_i s = replicate k m \<and> mp_count s = replicate k m \<and>
    gh_out (mp_queue s) = repeat_mset k (mset (messages m)) \<and> stored c (sys_q (mp_queue s)) = {#}"
proof -
  let ?q = "mp_queue s"
  note inv = mpmc_reachable_inv [OF assms(1-4)]
  note wait = mpmc_stuck_waits [OF inv assms(5)] and idle = mpmc_stuck_idle [OF inv assms(4,5)]
  have I: "lfq_sys_inv c ?q" "length (mp_i s) = k" "length (mp_count s) = k" "length (sys_pcs ?q) = 2 * k"
    "gh_in ?q + gather offered (sys_pcs ?q) = produced (mp_i s)" "size (gh_out ?q) = sum_list (mp_count s)"
    using inv unfolding mpmc_inv_def by blast+
  have quiet: "quiescent ?q" using idle I(4) by (simp add: quiescent_def list_all_length)
  have counts: "mp_i s = replicate k m" "mp_count s = replicate k m"
    using wait(2,3) idle I(2,3) by (simp_all add: list_eq_iff_nth_eq)
  have all_in: "gh_in ?q = repeat_mset k (mset (messages m))"
    using I(5) quiescent_gather [OF quiet, of offered] counts by (simp add: produced_replicate)
  have "gh_in ?q = gh_out ?q + stored c (sys_q ?q)"
    using I(1) quiescent_gather [OF quiet, of pending] by (simp add: lfq_sys_inv_def)
  moreover have "size (gh_in ?q) = size (gh_out ?q)"
    using I(6) counts all_in by (simp add: messages_def sum_list_replicate)
  ultimately have "stored c (sys_q ?q) = {#}" "gh_out ?q = gh_in ?q" by simp_all
  with quiet counts all_in show ?thesis by simp
qed

section \<open>An instance\<close>

text \<open>One producer and one consumer, one message: the six accesses, each by the step that makes it.\<close>

definition demo_mp1 :: mpmc where
  "demo_mp1 = (let s = mpmc_new demo_spsc_cfg 1 in s\<lparr>mp_queue := goto 0 (TryPushLoop 1 0) (mp_queue s), mp_i := [1]\<rparr>)"

definition demo_mp2 :: mpmc where
  "demo_mp2 = demo_mp1\<lparr>mp_queue := goto 0 (TryPushCas 1 0) (mp_queue demo_mp1)\<rparr>"

definition demo_mp3 :: mpmc where
  "demo_mp3 = demo_mp2\<lparr>mp_queue := claim_head 0 1 (mp_queue demo_mp2)\<rparr>"

definition demo_mp4 :: mpmc where
  "demo_mp4 = demo_mp3\<lparr>mp_queue := store_elem demo_spsc_cfg 0 1 0 (mp_queue demo_mp3)\<rparr>"

definition demo_mp5 :: mpmc where
  "demo_mp5 = demo_mp4\<lparr>mp_queue := claim_tail 1 (mp_queue demo_mp4)\<rparr>"

definition demo_mp6 :: mpmc where
  "demo_mp6 = counted demo_spsc_cfg 0 (take_elem demo_spsc_cfg 1 0 (mp_queue demo_mp5)) demo_mp5"

lemma demo_mp_reachable: "mpmc_reachable demo_spsc_cfg 1 1 demo_mp6"
proof -
  let ?c = demo_spsc_cfg
  have "mpmc_step ?c 1 (mpmc_new ?c 1) demo_mp1"
    using mpmc_step.produce [of 0 "mpmc_new ?c 1" 1 ?c] 
    by (simp add: demo_mp1_def mpmc_new_def sys_init_def lfq_new_def Let_def)
  moreover have "mpmc_step ?c 1 demo_mp1 demo_mp2"
    unfolding demo_mp2_def
    by (rule mpmc_step.producing [of 0], code_simp, code_simp,
        rule lfq_step.try_push_room; code_simp)
  moreover have "mpmc_step ?c 1 demo_mp2 demo_mp3"
    unfolding demo_mp3_def
    by (rule mpmc_step.producing [of 0], code_simp, code_simp,
        rule lfq_step.try_push_cas [where h = 0]; code_simp)
  moreover have "mpmc_step ?c 1 demo_mp3 demo_mp4"
    unfolding demo_mp4_def
    by (rule mpmc_step.producing [of 0], code_simp, code_simp,
        rule lfq_step.push_store; code_simp)
  moreover have "mpmc_step ?c 1 demo_mp4 demo_mp5"
  proof -
    have "length (mp_i demo_mp4) = 1" "length (mp_count demo_mp4) = 1" "mp_count demo_mp4 ! 0 = 0"
      "sys_pcs (mp_queue demo_mp4) ! 1 = Idle" by code_simp+
    with mpmc_step.consume [of 0 demo_mp4 1 ?c] show ?thesis unfolding demo_mp5_def by simp
  qed
  moreover have "mpmc_step ?c 1 demo_mp5 demo_mp6"
  proof -
    have "lfq_step ?c 1 (mp_queue demo_mp5) (take_elem ?c 1 0 (mp_queue demo_mp5))"
      by (rule lfq_step.pop_take; code_simp)
    moreover have "length (mp_i demo_mp5) = 1" "length (mp_count demo_mp5) = 1"
      "sys_pcs (mp_queue demo_mp5) ! 1 \<noteq> Idle" by code_simp+
    ultimately show ?thesis
      using mpmc_step.consuming [of 0 demo_mp5 ?c _ 1] unfolding demo_mp6_def by simp
  qed
  ultimately show ?thesis by (meson mpmc_reachable.intros)
qed

lemma demo_mp_stuck: "\<not> mpmc_step demo_spsc_cfg 1 demo_mp6 s"
proof
  have sels: "sys_pcs (mp_queue demo_mp6) = [Idle, Idle]" "mp_i demo_mp6 = [1]" "mp_count demo_mp6 = [1]"
    by code_simp+
  assume "mpmc_step demo_spsc_cfg 1 demo_mp6 s"
  then show False by (cases rule: mpmc_step.cases) (simp_all add: sels)
qed

theorem benchmarkMPMC_not_stuck_witness:
  "quiescent (mp_queue demo_mp6) \<and> gh_out (mp_queue demo_mp6) = {#1#}"
proof -
  have "lq_nil demo_spsc_cfg = 0" "1 * 1 \<le> unat (lq_size demo_spsc_cfg)" by code_simp+
  from benchmarkMPMC_not_stuck [OF demo_mp_reachable demo_spsc_cfg_ok this] demo_mp_stuck
  show ?thesis by (simp add: messages_def)
qed

end
