(* ===== verification/Container.thy ===== *)
theory Container
  imports LockFree_Queue "HOL-Library.Multiset"
begin

text \<open>
  \<open>itcConcurrentContainer.h\<close>: \<open>SIZE\<close> entries at 64-byte steps from one allocation, a
  lock-free queue of the addresses of the entries nobody uses, and a hash map from names to
  entries. \<open>'e\<close> is the entry type; an entry is reached through its address, and an address
  that is no entry is a wild access. The operations under the mutex are atomic.
\<close>

section \<open>State and operations\<close>

record 'e container =
  ct_size :: u32              \<comment> \<open>\<open>SIZE\<close>\<close>
  ct_base :: ptr              \<comment> \<open>\<open>m_rawEntries\<close>\<close>
  ct_entries :: "'e list"
  ct_inactive :: "ptr lfq"    \<comment> \<open>\<open>m_inactiveEntries\<close>\<close>
  ct_map :: "string \<Rightarrow> ptr option"   \<comment> \<open>\<open>m_activeEntries\<close>\<close>

definition CACHE_LINE_BYTES :: u8 where
  "CACHE_LINE_BYTES = 64"

definition GET_ALIGNED_ENTRY :: "ptr \<Rightarrow> u32 \<Rightarrow> ptr" where
  "GET_ALIGNED_ENTRY base i = base + ucast (i * ucast CACHE_LINE_BYTES)"

definition ct_cfg :: "u32 \<Rightarrow> ptr lfq_cfg" where
  "ct_cfg n = lfq_template 1 n nullptr 8"

fun push_entries :: "ptr lfq_cfg \<Rightarrow> ptr list \<Rightarrow> ptr lfq \<Rightarrow> ptr lfq res" where
  "push_entries c [] q = Inr q"
| "push_entries c (p # ps) q = and_then (tryPush c p q) (\<lambda>(_, q'). push_entries c ps q')"

definition container_new :: "u32 \<Rightarrow> ptr \<Rightarrow> (u32 \<Rightarrow> 'e) \<Rightarrow> 'e container res" where
  "container_new n base initializer =
     and_then (push_entries (ct_cfg n) (map (\<lambda>i. GET_ALIGNED_ENTRY base (of_nat i)) [0..<unat n])
                 (lfq_new (ct_cfg n))) (\<lambda>q.
       Inr \<lparr>ct_size = n, ct_base = base,
            ct_entries = map (\<lambda>i. initializer (of_nat i)) [0..<unat n],
            ct_inactive = q, ct_map = (\<lambda>_. None)\<rparr>)"

definition ct_at :: "u32 \<Rightarrow> 'e container \<Rightarrow> ptr" where
  "ct_at index ct = GET_ALIGNED_ENTRY (ct_base ct) index"

definition addEntryToHashMap :: "string \<Rightarrow> ptr \<Rightarrow> 'e container \<Rightarrow> bool \<times> 'e container" where
  "addEntryToHashMap key entry ct =
     (if ct_map ct key \<noteq> None then (False, ct)
      else (True, ct\<lparr>ct_map := (ct_map ct)(key := Some entry)\<rparr>))"

definition removeEntryFromHashMap :: "string \<Rightarrow> 'e container \<Rightarrow> bool \<times> 'e container" where
  "removeEntryFromHashMap key ct =
     (if ct_map ct key = None then (False, ct)
      else (True, ct\<lparr>ct_map := (ct_map ct)(key := None)\<rparr>))"

text \<open>The test is the code's: a key that is found gives null, one that is not reads the end iterator.\<close>

definition lookUpFromHashMap :: "string \<Rightarrow> 'e container \<Rightarrow> ptr res" where
  "lookUpFromHashMap key ct =
     (if ct_map ct key \<noteq> None then Inr nullptr
      else case ct_map ct key of None \<Rightarrow> Inl EndDeref | Some p \<Rightarrow> Inr p)"

definition tryPushIntoQueue :: "ptr \<Rightarrow> 'e container \<Rightarrow> (bool \<times> 'e container) res" where
  "tryPushIntoQueue entry ct =
     and_then (tryPush (ct_cfg (ct_size ct)) entry (ct_inactive ct)) (\<lambda>(b, q).
       Inr (b, ct\<lparr>ct_inactive := q\<rparr>))"

definition tryPopFromQueue :: "'e container \<Rightarrow> (ptr \<times> 'e container) res" where
  "tryPopFromQueue ct =
     and_then (lfq_pop (ct_cfg (ct_size ct)) (ct_inactive ct)) (\<lambda>(p, q).
       Inr (p, ct\<lparr>ct_inactive := q\<rparr>))"

definition container_size :: "'e container \<Rightarrow> u32" where
  "container_size ct = ct_size ct - lfq_size (ct_inactive ct)"

text \<open>The destructor empties the queue of inactive entries and the map.\<close>

function drain_inactive :: "ptr lfq_cfg \<Rightarrow> ptr lfq \<Rightarrow> ptr lfq res" where
  "drain_inactive c q =
     (if lfq_empty q then Inr q
      else case lfq_pop c q of Inl e \<Rightarrow> Inl e | Inr (p, q') \<Rightarrow> drain_inactive c q')"
  by pat_completeness auto
termination
  by (relation "measure (\<lambda>(c, q). unat (lfq_size q))") (auto intro: lfq_pop_shrinks)

declare drain_inactive.simps [simp del]

definition container_destroy :: "'e container \<Rightarrow> 'e container res" where
  "container_destroy ct =
     and_then (drain_inactive (ct_cfg (ct_size ct)) (ct_inactive ct)) (\<lambda>q.
       Inr (ct\<lparr>ct_base := nullptr, ct_entries := [], ct_inactive := q, ct_map := (\<lambda>_. None)\<rparr>))"

text \<open>Which entry an address denotes.\<close>

definition entry_index :: "'e container \<Rightarrow> ptr \<Rightarrow> nat option" where
  "entry_index ct p =
     (let d = unat (p - ct_base ct)
      in if d mod 64 = 0 \<and> d div 64 < length (ct_entries ct) then Some (d div 64) else None)"

definition read_entry :: "ptr \<Rightarrow> 'e container \<Rightarrow> 'e res" where
  "read_entry p ct =
     (case entry_index ct p of None \<Rightarrow> Inl WildAccess | Some i \<Rightarrow> Inr (ct_entries ct ! i))"

definition write_entry :: "ptr \<Rightarrow> 'e \<Rightarrow> 'e container \<Rightarrow> 'e container res" where
  "write_entry p e ct =
     (case entry_index ct p of None \<Rightarrow> Inl WildAccess
      | Some i \<Rightarrow> Inr (ct\<lparr>ct_entries := (ct_entries ct)[i := e]\<rparr>))"

section \<open>Addresses\<close>

definition place_ok :: "u32 \<Rightarrow> ptr \<Rightarrow> bool" where
  "place_ok n base \<longleftrightarrow> 0 < n \<and> unat n \<le> 2 ^ 20 \<and> base \<noteq> nullptr \<and> unat base + 64 * unat n < 2 ^ 64"

lemma offset_of_index:
  assumes "i < 2 ^ 26"
  shows "unat (ucast ((of_nat i :: u32) * 64) :: u64) = 64 * i"
proof -
  have "(of_nat i :: u32) * 64 = of_nat (64 * i)" by simp
  moreover have "unat (of_nat (64 * i) :: u32) = 64 * i" using assms by (intro unat_of_nat_less) simp
  ultimately show ?thesis
    using assms by (simp add: unsigned_ucast_eq take_bit_nat_eq_self del: of_nat_mult)
qed

lemma unat_entry:
  assumes "i < 2 ^ 26" "unat base + 64 * i < 2 ^ 64"
  shows "unat (GET_ALIGNED_ENTRY base (of_nat i)) = unat base + 64 * i"
  using assms offset_of_index [OF assms(1)]
  by (simp add: GET_ALIGNED_ENTRY_def CACHE_LINE_BYTES_def unat_word_ariths)

lemma entry_index_at:
  assumes "i < 2 ^ 26"
  shows "entry_index ct (ct_at (of_nat i) ct) = (if i < length (ct_entries ct) then Some i else None)"
  using offset_of_index [OF assms]
  by (simp add: entry_index_def ct_at_def GET_ALIGNED_ENTRY_def CACHE_LINE_BYTES_def)

lemma entries_distinct:
  assumes "place_ok n base"
  shows "distinct (map (\<lambda>i. GET_ALIGNED_ENTRY base (of_nat i)) [0..<unat n])"
    and "nullptr \<notin> set (map (\<lambda>i. GET_ALIGNED_ENTRY base (of_nat i)) [0..<unat n])"
proof -
  have at: "unat (GET_ALIGNED_ENTRY base (of_nat i)) = unat base + 64 * i" if "i < unat n" for i
    using assms that by (intro unat_entry) (auto simp: place_ok_def)
  have "inj_on (\<lambda>i. GET_ALIGNED_ENTRY base (of_nat i)) {0..<unat n}"
  proof (rule inj_onI)
    fix i j assume ij: "i \<in> {0..<unat n}" "j \<in> {0..<unat n}"
      "GET_ALIGNED_ENTRY base (of_nat i) = GET_ALIGNED_ENTRY base (of_nat j)"
    then have "unat base + 64 * i = unat base + 64 * j" by (metis at atLeastLessThan_iff)
    then show "i = j" by simp
  qed
  then show "distinct (map (\<lambda>i. GET_ALIGNED_ENTRY base (of_nat i)) [0..<unat n])"
    by (simp add: distinct_map)
  have "0 < unat base" using assms by (simp add: place_ok_def unat_gt_0)
  then have "GET_ALIGNED_ENTRY base (of_nat i) \<noteq> nullptr" if "i < unat n" for i
    using at [OF that] by (metis add_gr_0 unat_gt_0)
  then show "nullptr \<notin> set (map (\<lambda>i. GET_ALIGNED_ENTRY base (of_nat i)) [0..<unat n])"
    by fastforce
qed

lemma ct_cfg_ok:
  assumes "0 < n" "unat n \<le> 2 ^ 20"
  shows "cfg_ok (ct_cfg n)" "unat n \<le> unat (lq_size (ct_cfg n))"
proof -
  have n: "0 < unat n" using assms(1) by (simp add: word_less_nat_alt)
  with assms show "cfg_ok (ct_cfg n)" unfolding ct_cfg_def by (intro cfg_ok_template) auto
  define k where "k = (LEAST k. unat n \<le> 2 ^ k)"
  have "k \<le> 20" unfolding k_def using assms(2) by (rule Least_pow2(2))
  have "lq_size (ct_cfg n) = 2 ^ k"
    using n by (simp add: ct_cfg_def lfq_template_def queue_size_def roundUp_pow2 k_def unat_gt_0)
  then have "unat (lq_size (ct_cfg n)) = 2 ^ k" using \<open>k \<le> 20\<close> by (simp add: pow2_word_unat)
  then show "unat n \<le> unat (lq_size (ct_cfg n))" using Least_pow2(1) [of "unat n"] by (simp add: k_def)
qed

lemma ct_cfg_nil [simp]: "lq_nil (ct_cfg n) = nullptr"
  by (simp add: ct_cfg_def lfq_template_def)

lemma push_entries_list:
  assumes "lfq_ok c q" "lq_nil c \<notin> set ps" "length (lfq_list c q) + length ps \<le> unat (lq_size c)"
  shows "\<exists>q'. push_entries c ps q = Inr q' \<and> lfq_ok c q' \<and> lfq_list c q' = lfq_list c q @ ps"
  using assms
proof (induction ps arbitrary: q)
  case (Cons p ps)
  then obtain q' where q': "tryPush c p q = Inr (True, q')" "lfq_ok c q'"
      "lfq_list c q' = lfq_list c q @ [p]"
    using lfq.try_push_room [of c q p] by auto
  with Cons.IH [of q'] Cons.prems show ?case by auto
qed simp

section \<open>Every entry has one owner\<close>

definition all_entries :: "'e container \<Rightarrow> ptr list" where
  "all_entries ct = map (\<lambda>i. GET_ALIGNED_ENTRY (ct_base ct) (of_nat i)) [0..<unat (ct_size ct)]"

lemma all_entries_frame [simp]:
  "all_entries (ct\<lparr>ct_inactive := q\<rparr>) = all_entries ct"
  "all_entries (ct\<lparr>ct_map := m\<rparr>) = all_entries ct"
  "all_entries (ct\<lparr>ct_entries := es\<rparr>) = all_entries ct"
  by (simp_all add: all_entries_def)

text \<open>\<open>held\<close>: the entries taken from the queue and not yet given back.\<close>

definition ct_inv :: "'e container \<Rightarrow> ptr multiset \<Rightarrow> bool" where
  "ct_inv ct held \<longleftrightarrow> place_ok (ct_size ct) (ct_base ct) \<and>
     length (ct_entries ct) = unat (ct_size ct) \<and>
     lfq_ok (ct_cfg (ct_size ct)) (ct_inactive ct) \<and>
     mset (lfq_list (ct_cfg (ct_size ct)) (ct_inactive ct)) + held = mset (all_entries ct)"

text \<open>Clients take entries, and give back only what they hold.\<close>

inductive ct_step :: "'e container \<times> ptr multiset \<Rightarrow> 'e container \<times> ptr multiset \<Rightarrow> bool" where
  acquire: "tryPopFromQueue ct = Inr (p, ct') \<Longrightarrow> ct_step (ct, held) (ct', held + {#p#})"
| release: "p \<in># held \<Longrightarrow> tryPushIntoQueue p ct = Inr (b, ct') \<Longrightarrow>
    ct_step (ct, held) (ct', held - {#p#})"
| store: "p \<in># held \<Longrightarrow> write_entry p e ct = Inr ct' \<Longrightarrow> ct_step (ct, held) (ct', held)"
| register: "addEntryToHashMap key p ct = (b, ct') \<Longrightarrow> ct_step (ct, held) (ct', held)"
| unregister: "removeEntryFromHashMap key ct = (b, ct') \<Longrightarrow> ct_step (ct, held) (ct', held)"

inductive ct_reachable :: "u32 \<Rightarrow> ptr \<Rightarrow> (u32 \<Rightarrow> 'e) \<Rightarrow> 'e container \<times> ptr multiset \<Rightarrow> bool"
  for n base initializer where
  start: "container_new n base initializer = Inr ct \<Longrightarrow>
    ct_reachable n base initializer (ct, {#})"
| step: "ct_reachable n base initializer s \<Longrightarrow> ct_step s s' \<Longrightarrow>
    ct_reachable n base initializer s'"

inductive_cases ct_stepE: "ct_step (ct, held) s'"

lemma ct_invD:
  assumes "ct_inv ct held"
  shows "lfq_ok (ct_cfg (ct_size ct)) (ct_inactive ct)"
    "mset (lfq_list (ct_cfg (ct_size ct)) (ct_inactive ct)) + held = mset (all_entries ct)"
    "distinct (all_entries ct)" "nullptr \<notin> set (all_entries ct)"
    "length (lfq_list (ct_cfg (ct_size ct)) (ct_inactive ct)) + size held = unat (ct_size ct)"
    "unat (ct_size ct) \<le> unat (lq_size (ct_cfg (ct_size ct)))"
proof -
  show ok: "lfq_ok (ct_cfg (ct_size ct)) (ct_inactive ct)"
    and eq: "mset (lfq_list (ct_cfg (ct_size ct)) (ct_inactive ct)) + held = mset (all_entries ct)"
    using assms by (simp_all add: ct_inv_def)
  from assms have p: "place_ok (ct_size ct) (ct_base ct)" by (simp add: ct_inv_def)
  from entries_distinct [OF p] show "distinct (all_entries ct)" "nullptr \<notin> set (all_entries ct)"
    by (simp_all add: all_entries_def)
  from arg_cong [OF eq, of size]
  show "length (lfq_list (ct_cfg (ct_size ct)) (ct_inactive ct)) + size held = unat (ct_size ct)"
    by (simp add: all_entries_def)
  from p show "unat (ct_size ct) \<le> unat (lq_size (ct_cfg (ct_size ct)))"
    by (intro ct_cfg_ok) (simp_all add: place_ok_def)
qed

lemma container_new_inv:
  assumes "place_ok n base"
  shows "\<exists>ct. container_new n base initializer = Inr ct \<and> ct_inv ct {#} \<and> ct_size ct = n \<and>
    ct_base ct = base \<and> ct_entries ct = map (\<lambda>i. initializer (of_nat i)) [0..<unat n]"
proof -
  let ?ps = "map (\<lambda>i. GET_ALIGNED_ENTRY base (of_nat i)) [0..<unat n]"
  have c: "cfg_ok (ct_cfg n)" "unat n \<le> unat (lq_size (ct_cfg n))"
    using assms by (intro ct_cfg_ok; simp add: place_ok_def)+
  obtain q where "push_entries (ct_cfg n) ?ps (lfq_new (ct_cfg n)) = Inr q" "lfq_ok (ct_cfg n) q"
      "lfq_list (ct_cfg n) q = ?ps"
    using push_entries_list [of "ct_cfg n" "lfq_new (ct_cfg n)" ?ps] c entries_distinct [OF assms]
    by (auto simp: lfq_new_ok lfq_new_list simp del: set_map)
  with assms show ?thesis by (simp add: container_new_def ct_inv_def all_entries_def)
qed

lemma acquire_cases:
  assumes "ct_inv ct held"
  obtains "size held = unat (ct_size ct)" "tryPopFromQueue ct = Inl Blocked"
    | p ct' where "size held < unat (ct_size ct)" "tryPopFromQueue ct = Inr (p, ct')"
        "ct_inv ct' (held + {#p#})" "p \<in> set (all_entries ct)" "p \<notin># held"
proof -
  note D = ct_invD [OF assms]
  show thesis
  proof (cases "lfq_list (ct_cfg (ct_size ct)) (ct_inactive ct)")
    case Nil
    with D(5) lfq.pop_none [OF D(1)] show thesis by (intro that(1)) (simp_all add: tryPopFromQueue_def)
  next
    case (Cons p ps)
    from lfq.pop_some [OF D(1) Cons] obtain q where q:
      "lfq_pop (ct_cfg (ct_size ct)) (ct_inactive ct) = Inr (p, q)"
      "lfq_ok (ct_cfg (ct_size ct)) q" "lfq_list (ct_cfg (ct_size ct)) q = ps" by blast
    have eq: "add_mset p (mset ps + held) = mset (all_entries ct)" using D(2) Cons by simp
    then have "count (mset (all_entries ct)) p = Suc (count (mset ps + held) p)"
      by (metis count_add_mset)
    moreover have "count (mset (all_entries ct)) p \<le> 1"
      using D(3) by (simp add: distinct_count_atmost_1)
    ultimately have "p \<notin># held" by (simp add: not_in_iff)
    moreover have "p \<in> set (all_entries ct)" by (metis eq set_mset_mset union_single_eq_member)
    moreover have "ct_inv (ct\<lparr>ct_inactive := q\<rparr>) (held + {#p#})"
      using assms q Cons by (simp add: ct_inv_def)
    ultimately show thesis
      using q D(5) Cons by (intro that(2) [of p "ct\<lparr>ct_inactive := q\<rparr>"]) (simp_all add: tryPopFromQueue_def)
  qed
qed

lemma release_ok:
  assumes "ct_inv ct held" "p \<in># held"
  shows "\<exists>ct'. tryPushIntoQueue p ct = Inr (True, ct') \<and> ct_inv ct' (held - {#p#})"
proof -
  note D = ct_invD [OF assms(1)]
  let ?c = "ct_cfg (ct_size ct)"
  have "0 < size held" using assms(2) by (metis nonempty_has_size empty_not_add_mset multi_member_split)
  then have "length (lfq_list ?c (ct_inactive ct)) < unat (lq_size ?c)" using D(5,6) by linarith
  moreover have "p \<in> set (all_entries ct)" using D(2) assms(2) by (metis set_mset_mset union_iff)
  with D(4) have "p \<noteq> nullptr" by auto
  ultimately obtain q where q: "tryPush ?c p (ct_inactive ct) = Inr (True, q)" "lfq_ok ?c q"
      "lfq_list ?c q = lfq_list ?c (ct_inactive ct) @ [p]"
    using lfq.try_push_room [OF D(1), of p] by auto
  moreover have "held = add_mset p (held - {#p#})" using assms(2) by simp
  ultimately have "ct_inv (ct\<lparr>ct_inactive := q\<rparr>) (held - {#p#})"
    using assms(1) by (auto simp: ct_inv_def) (metis union_mset_add_mset_right)
  with q show ?thesis by (simp add: tryPushIntoQueue_def)
qed

lemma tryPop_frame: "tryPopFromQueue ct = Inr (p, ct') \<Longrightarrow> ct_size ct' = ct_size ct \<and> ct_base ct' = ct_base ct"
  and tryPush_frame: "tryPushIntoQueue p ct = Inr (b, ct') \<Longrightarrow> ct_size ct' = ct_size ct \<and> ct_base ct' = ct_base ct"
  by (auto simp: tryPopFromQueue_def tryPushIntoQueue_def and_then_Inr_iff)

lemma ct_inv_acquire:
  "ct_inv ct held \<Longrightarrow> tryPopFromQueue ct = Inr (p, ct') \<Longrightarrow> ct_inv ct' (held + {#p#})"
  by (erule acquire_cases) auto

lemma ct_inv_release:
  "ct_inv ct held \<Longrightarrow> p \<in># held \<Longrightarrow> tryPushIntoQueue p ct = Inr (b, ct') \<Longrightarrow>
   ct_inv ct' (held - {#p#})"
  using release_ok [of ct held p] by auto

lemma ct_inv_others:
  assumes "ct_inv ct held"
  shows "write_entry p e ct = Inr ct' \<Longrightarrow> ct_inv ct' held \<and> ct_size ct' = ct_size ct \<and> ct_base ct' = ct_base ct"
    "addEntryToHashMap key p ct = (b, ct') \<Longrightarrow> ct_inv ct' held \<and> ct_size ct' = ct_size ct \<and> ct_base ct' = ct_base ct"
    "removeEntryFromHashMap key ct = (b, ct') \<Longrightarrow> ct_inv ct' held \<and> ct_size ct' = ct_size ct \<and> ct_base ct' = ct_base ct"
  using assms
  by (auto simp: write_entry_def addEntryToHashMap_def removeEntryFromHashMap_def ct_inv_def
      split: if_splits option.splits)

lemma ct_inv_step:
  assumes "ct_step (ct, held) (ct', held')" "ct_inv ct held"
  shows "ct_inv ct' held' \<and> ct_size ct' = ct_size ct \<and> ct_base ct' = ct_base ct"
  using assms(1)
  by (elim ct_stepE)
    (auto dest: ct_inv_acquire [OF assms(2)] ct_inv_release [OF assms(2)] ct_inv_others [OF assms(2)]
      tryPop_frame tryPush_frame)

lemma ct_reachable_inv:
  assumes "ct_reachable n base initializer s" "place_ok n base"
  shows "ct_inv (fst s) (snd s) \<and> ct_size (fst s) = n \<and> ct_base (fst s) = base"
  using assms
proof (induction rule: ct_reachable.induct)
  case (start ct)
  with container_new_inv [of n base initializer] show ?case by auto
next
  case (step s s')
  with ct_inv_step [of "fst s" "snd s" "fst s'" "snd s'"] show ?case by simp
qed

lemma container_size_held:
  assumes "ct_inv ct held"
  shows "container_size ct = of_nat (size held)"
proof -
  note D = ct_invD [OF assms]
  let ?f = "length (lfq_list (ct_cfg (ct_size ct)) (ct_inactive ct))"
  have "ct_size ct = of_nat (?f + size held)" unfolding D(5) by simp
  then show ?thesis by (simp add: container_size_def lfq.size_of_contents [OF D(1)])
qed

text \<open>However clients take entries from a container, store into them, register names and
  give the entries back: every entry is inactive or has exactly one owner, the reported size is
  the number of entries owned, giving back an owned entry always succeeds, and taking one
  yields an entry nobody owns, blocking (in spite of its name) exactly when all are owned.\<close>

theorem entries_have_one_owner:
  assumes "ct_reachable n base initializer (ct, held)" "place_ok n base"
  shows "(\<forall>p. count held p \<le> (if p \<in> set (all_entries ct) then 1 else 0)) \<and>
    container_size ct = of_nat (size held) \<and>
    (\<forall>p \<in># held. \<exists>ct'. tryPushIntoQueue p ct = Inr (True, ct')) \<and>
    (case tryPopFromQueue ct of
       Inl e \<Rightarrow> e = Blocked \<and> size held = unat n
     | Inr (p, ct') \<Rightarrow> p \<in> set (all_entries ct) \<and> p \<notin># held \<and> size held < unat n)"
proof -
  have inv: "ct_inv ct held" "ct_size ct = n" using ct_reachable_inv [OF assms] by simp_all
  note D = ct_invD [OF inv(1)]
  have "count held p \<le> count (mset (all_entries ct)) p" for p
    using D(2) by (metis count_union le_add2)
  then have "count held p \<le> (if p \<in> set (all_entries ct) then 1 else 0)" for p
    using D(3) distinct_count_atmost_1 [of "all_entries ct"] by metis
  moreover have "case tryPopFromQueue ct of
       Inl e \<Rightarrow> e = Blocked \<and> size held = unat n
     | Inr (p, ct') \<Rightarrow> p \<in> set (all_entries ct) \<and> p \<notin># held \<and> size held < unat n"
    using inv(1) by (rule acquire_cases) (simp_all add: inv(2))
  ultimately show ?thesis
    using container_size_held [OF inv(1)] release_ok [OF inv(1)] by blast
qed

lemma demo_place: "place_ok 2 0x1000"
  by (simp add: place_ok_def)

theorem entries_have_one_owner_witness:
  "\<exists>ct p ct'. container_new 2 0x1000 (\<lambda>i. i) = Inr ct \<and> tryPopFromQueue ct = Inr (p, ct') \<and>
     container_size ct' = 1 \<and> (\<exists>ct''. tryPushIntoQueue p ct' = Inr (True, ct''))"
proof -
  obtain ct where ct: "container_new 2 0x1000 (\<lambda>i. i) = Inr ct" "ct_inv ct {#}" "ct_size ct = 2"
    using container_new_inv [OF demo_place, of "\<lambda>i. i"] by auto
  then have r: "ct_reachable 2 0x1000 (\<lambda>i. i) (ct, {#})" by (simp add: ct_reachable.start)
  from ct(2) obtain p ct' where p: "tryPopFromQueue ct = Inr (p, ct')"
    by (rule acquire_cases) (use ct(3) in auto)
  then have "ct_reachable 2 0x1000 (\<lambda>i. i) (ct', {#p#})"
    using ct_reachable.step [OF r ct_step.acquire [OF p]] by simp
  from entries_have_one_owner [OF this demo_place] ct(1) p show ?thesis by auto
qed

text \<open>The constructor lays the entries out so that every index below \<open>SIZE\<close> reaches its own
  initialised entry, no two share an address or a 64-byte line, and nothing is in use; an index
  from \<open>SIZE\<close> up to \<open>2 ^ 26\<close>, which \<open>at\<close> does not check, gives a non-null address outside the
  entries, whose use is a wild access.\<close>

lemma container_layout:
  assumes "place_ok n base"
  shows "\<exists>ct. container_new n base initializer = Inr ct \<and> container_size ct = 0 \<and>
    (\<forall>i < 2 ^ 26. read_entry (ct_at (of_nat i) ct) ct =
       (if i < unat n then Inr (initializer (of_nat i)) else Inl WildAccess)) \<and>
    distinct (all_entries ct) \<and> nullptr \<notin> set (all_entries ct)"
proof -
  obtain ct where ct: "container_new n base initializer = Inr ct" "ct_inv ct {#}"
    "ct_entries ct = map (\<lambda>i. initializer (of_nat i)) [0..<unat n]"
    using container_new_inv [OF assms, of initializer] by auto
  then have "read_entry (ct_at (of_nat i) ct) ct =
      (if i < unat n then Inr (initializer (of_nat i)) else Inl WildAccess)" if "i < 2 ^ 26" for i
    using entry_index_at [OF that, of ct] by (simp add: read_entry_def)
  with ct container_size_held [OF ct(2)] ct_invD(3,4) [OF ct(2)] show ?thesis by auto
qed

lemma container_layout_witness:
  "\<exists>ct. container_new 2 0x1000 (\<lambda>i. i + 40) = Inr ct \<and> read_entry (ct_at 1 ct) ct = Inr 41 \<and>
     read_entry (ct_at 2 ct) ct = Inl WildAccess"
proof -
  from container_layout [OF demo_place, of "\<lambda>i. i + 40"] obtain ct where
    ct: "container_new 2 0x1000 (\<lambda>i. i + 40) = Inr ct" and
    at: "\<forall>i < 2 ^ 26. read_entry (ct_at (of_nat i) ct) ct =
       (if i < unat (2 :: u32) then Inr (of_nat i + 40) else Inl WildAccess)" by blast
  from at [rule_format, of 1] at [rule_format, of 2] ct show ?thesis by auto
qed

text \<open>The name map inserts and removes like a map, but looking a name up never yields an entry.\<close>

lemma registered_name_not_found:
  assumes "addEntryToHashMap key p ct = (True, ct')"
  shows "lookUpFromHashMap key ct' = Inr nullptr"
    "\<exists>ct''. removeEntryFromHashMap key ct' = (True, ct'') \<and> ct_map ct'' = ct_map ct \<and>
       lookUpFromHashMap key ct'' = Inl EndDeref"
  using assms
  by (auto simp: addEntryToHashMap_def removeEntryFromHashMap_def lookUpFromHashMap_def fun_eq_iff
      split: if_splits)

section \<open>Destruction\<close>

lemma drain_inactive_empties:
  assumes "lfq_ok c q"
  shows "\<exists>q'. drain_inactive c q = Inr q' \<and> lfq_ok c q' \<and> lfq_list c q' = []"
  using assms
proof (induction "lfq_list c q" arbitrary: q)
  case Nil
  then have "lfq_empty q" by (simp add: lfq_empty_def lfq.size_of_zero_iff [OF Nil.prems])
  with Nil show ?case by (subst drain_inactive.simps) simp
next
  case (Cons p ps)
  then have "\<not> lfq_empty q"
    by (simp add: lfq_empty_def lfq.size_of_zero_iff [OF Cons.prems] flip: Cons.hyps(2))
  moreover obtain q' where "lfq_pop c q = Inr (p, q')" "lfq_ok c q'" "lfq_list c q' = ps"
    using lfq.pop_some [OF Cons.prems Cons.hyps(2) [symmetric]] by blast
  ultimately show ?case using Cons.hyps(1) [of q'] by (subst drain_inactive.simps) simp
qed

end
