(* ===== verification/Container_Concurrent.thy ===== *)
theory Container_Concurrent
  imports Container Queue_Clients
begin

text \<open>
  The container of \<open>itcConcurrentContainer.h\<close> used by several threads at once, as in
  \<open>itcConcurrentContainerTest.cc\<close>: any thread may at any time take an entry
  (\<open>tryPopFromQueue\<close>, which pops and so may wait) or give back one it holds (\<open>tryPushIntoQueue\<close>),
  and every atomic access inside the queue is a step. \<open>Container\<close> has the operations of one thread.
\<close>

section \<open>Threads and the entries they hold\<close>

record cc_sys =
  cc_queue :: "ptr lfq_sys"
  cc_held :: "ptr multiset list"   \<comment> \<open>by thread\<close>

definition cc_new :: "'e container \<Rightarrow> nat \<Rightarrow> cc_sys" where
  "cc_new ct n = \<lparr>cc_queue = sys_of (ct_cfg (ct_size ct)) (ct_inactive ct) n, cc_held = replicate n {#}\<rparr>"

text \<open>What a step inside a call gives the thread: the entry it was waiting for, or, when the queue
  refuses it, the one it wanted to give back.\<close>

fun cc_gain :: "ptr lfq_cfg \<Rightarrow> ptr lfq \<Rightarrow> ptr pc \<Rightarrow> ptr pc \<Rightarrow> ptr multiset" where
  "cc_gain c q (PopTake t) p' = {#q_elems q ! lfq_slot c t#}"
| "cc_gain c q (TryPushLoop p h) p' = (if is_Idle p' then {#p#} else {#})"
| "cc_gain c q _ p' = {#}"

inductive cc_step :: "ptr lfq_cfg \<Rightarrow> cc_sys \<Rightarrow> cc_sys \<Rightarrow> bool" for c s where
  take: "i < length (sys_pcs (cc_queue s)) \<Longrightarrow> sys_pcs (cc_queue s) ! i = Idle \<Longrightarrow>
    cc_step c s (s\<lparr>cc_queue := claim_tail i (cc_queue s)\<rparr>)"
| give: "i < length (sys_pcs (cc_queue s)) \<Longrightarrow> sys_pcs (cc_queue s) ! i = Idle \<Longrightarrow> p \<in># cc_held s ! i \<Longrightarrow>
    cc_step c s (s\<lparr>cc_queue := goto i (TryPushLoop p (q_head (sys_q (cc_queue s)))) (cc_queue s),
                   cc_held := (cc_held s)[i := cc_held s ! i - {#p#}]\<rparr>)"
| inside: "i < length (sys_pcs (cc_queue s)) \<Longrightarrow> sys_pcs (cc_queue s) ! i \<noteq> Idle \<Longrightarrow> lfq_step c i (cc_queue s) q' \<Longrightarrow>
    cc_step c s (s\<lparr>cc_queue := q',
      cc_held := (cc_held s)[i := cc_held s ! i +
        cc_gain c (sys_q (cc_queue s)) (sys_pcs (cc_queue s) ! i) (sys_pcs q' ! i)]\<rparr>)"

inductive cc_reachable :: "'e container \<Rightarrow> nat \<Rightarrow> cc_sys \<Rightarrow> bool" for ct n where
  start: "cc_reachable ct n (cc_new ct n)"
| step: "cc_reachable ct n s \<Longrightarrow> cc_step (ct_cfg (ct_size ct)) s s' \<Longrightarrow> cc_reachable ct n s'"

section \<open>Every entry has one owner\<close>

text \<open>An entry is free (stored, or with a thread that already owns its slot), being offered by a thread
  inside \<open>tryPush\<close>, or held.\<close>

definition cc_free :: "ptr lfq_cfg \<Rightarrow> cc_sys \<Rightarrow> ptr multiset" where
  "cc_free c s = stored c (sys_q (cc_queue s)) + gather pending (sys_pcs (cc_queue s))"

definition cc_used :: "cc_sys \<Rightarrow> ptr multiset" where
  "cc_used s = gather offered (sys_pcs (cc_queue s)) + gather id (cc_held s)"

fun pops_only :: "ptr pc \<Rightarrow> bool" where
  "pops_only (TryPopLoop t) = False"
| "pops_only (TryPopCas t) = False"
| "pops_only _ = True"

definition cc_inv :: "'e container \<Rightarrow> cc_sys \<Rightarrow> bool" where
  "cc_inv ct s \<longleftrightarrow> lfq_sys_inv (ct_cfg (ct_size ct)) (cc_queue s) \<and>
     length (cc_held s) = length (sys_pcs (cc_queue s)) \<and> list_all pops_only (sys_pcs (cc_queue s)) \<and>
     mset (all_entries ct) = cc_free (ct_cfg (ct_size ct)) s + cc_used s"

lemma cc_inv_new: "ct_inv ct {#} \<Longrightarrow> cc_inv ct (cc_new ct n)"
  using stored_list [of "ct_cfg (ct_size ct)" "ct_inactive ct"]
    sys_of_inv [of "ct_cfg (ct_size ct)" "ct_inactive ct"]
  by (simp add: cc_inv_def cc_new_def ct_inv_def cc_free_def cc_used_def gather_replicate_empty list_all_iff)
    (simp add: sys_of_def gather_replicate_empty)

lemma cc_entry_not_null:
  assumes "cc_inv ct s" "ct_inv ct {#}" "p \<in># cc_free (ct_cfg (ct_size ct)) s + cc_used s"
  shows "p \<noteq> nullptr"
proof -
  have "p \<in># mset (all_entries ct)" using assms(1,3) by (simp add: cc_inv_def)
  then show ?thesis using ct_invD(4) [OF assms(2)] by auto
qed

lemma held_used: "i < length (cc_held s) \<Longrightarrow> p \<in># cc_held s ! i \<Longrightarrow> p \<in># cc_used s"
  by (auto simp: cc_used_def gather_nth)

lemmas gather_at = gather_update_same gather_update_add gather_update_sub

lemma cc_inv_take:
  assumes "cc_inv ct s" "i < length (sys_pcs (cc_queue s))" "sys_pcs (cc_queue s) ! i = Idle"
  shows "cc_inv ct (s\<lparr>cc_queue := claim_tail i (cc_queue s)\<rparr>)"
proof -
  let ?q = "cc_queue s" and ?c = "ct_cfg (ct_size ct)"
  have "lfq_sys_inv ?c (claim_tail i ?q)"
    using assms lfq_step_inv [OF lfq_step.call_pop [OF assms(2,3), of ?c]] by (simp add: cc_inv_def)
  moreover have "gather pending (sys_pcs (claim_tail i ?q)) = gather pending (sys_pcs ?q)"
    "gather offered (sys_pcs (claim_tail i ?q)) = gather offered (sys_pcs ?q)"
    using assms by (simp_all add: gather_update_same)
  ultimately show ?thesis
    using assms by (simp add: cc_inv_def cc_free_def cc_used_def list_all_update)
qed

lemma cc_inv_give:
  assumes "cc_inv ct s" "ct_inv ct {#}" "i < length (sys_pcs (cc_queue s))" "sys_pcs (cc_queue s) ! i = Idle"
    and "p \<in># cc_held s ! i"
  shows "cc_inv ct (s\<lparr>cc_queue := goto i (TryPushLoop p (q_head (sys_q (cc_queue s)))) (cc_queue s),
                     cc_held := (cc_held s)[i := cc_held s ! i - {#p#}]\<rparr>)"
proof -
  let ?q = "cc_queue s" and ?c = "ct_cfg (ct_size ct)"
  let ?q' = "goto i (TryPushLoop p (q_head (sys_q ?q))) ?q"
  have i: "i < length (cc_held s)" using assms(1,3) by (simp add: cc_inv_def)
  then have "p \<noteq> nullptr" using held_used [OF i assms(5)] by (intro cc_entry_not_null [OF assms(1,2)]) simp
  then have "lfq_sys_inv ?c ?q'"
    using assms(1) lfq_step_inv [OF lfq_step.call_try_push [OF assms(3,4), of p ?c]] by (simp add: cc_inv_def)
  moreover have "gather pending (sys_pcs ?q') = gather pending (sys_pcs ?q)"
    "gather offered (sys_pcs ?q') = gather offered (sys_pcs ?q) + {#p#}"
    using assms(3,4) by (simp_all add: gather_update_same gather_update_add [where d = "{#p#}"])
  moreover have "gather id (cc_held s) = gather id ((cc_held s)[i := cc_held s ! i - {#p#}]) + {#p#}"
    using i assms(5) by (intro gather_update_sub) simp_all
  ultimately show ?thesis
    using assms by (simp add: cc_inv_def cc_free_def cc_used_def list_all_update)
qed

lemma cc_inv_inside:
  assumes inv: "cc_inv ct s" and i: "i < length (sys_pcs (cc_queue s))" "sys_pcs (cc_queue s) ! i \<noteq> Idle"
    and step: "lfq_step (ct_cfg (ct_size ct)) i (cc_queue s) q'"
  shows "cc_inv ct (s\<lparr>cc_queue := q', cc_held := (cc_held s)[i := cc_held s ! i +
        cc_gain (ct_cfg (ct_size ct)) (sys_q (cc_queue s)) (sys_pcs (cc_queue s) ! i) (sys_pcs q' ! i)]\<rparr>)"
proof -
  let ?q = "cc_queue s" and ?c = "ct_cfg (ct_size ct)"
  let ?g = "cc_gain ?c (sys_q ?q) (sys_pcs ?q ! i) (sys_pcs q' ! i)"
  have I: "lfq_sys_inv ?c ?q" "length (cc_held s) = length (sys_pcs ?q)" "list_all pops_only (sys_pcs ?q)"
    "mset (all_entries ct) = cc_free ?c s + cc_used s" using inv by (simp_all add: cc_inv_def)
  have H: "gather id ((cc_held s)[i := cc_held s ! i + ?g]) = gather id (cc_held s) + ?g"
    using i(1) I(2) by (intro gather_update_add) simp_all
  have po: "pops_only (sys_pcs ?q ! i)" using I(3) i(1) by (simp add: list_all_length)
  have len: "lfq_slot ?c w < length (q_elems (sys_q ?q))" for w
    using I(1) lfq_slot_less [of ?c w] by (simp add: lfq_sys_inv_def)
  have ok: "pc_elem_ok ?c (sys_pcs ?q ! i)" using I(1) i(1) by (rule pc_elem_okD)
  have *: "length (sys_pcs q') = length (sys_pcs ?q) \<and> list_all pops_only (sys_pcs q') \<and>
    stored ?c (sys_q q') + gather pending (sys_pcs q') + gather offered (sys_pcs q') + ?g =
    stored ?c (sys_q ?q) + gather pending (sys_pcs ?q) + gather offered (sys_pcs ?q)"
    using step
  proof (cases rule: lfq_step.cases)
    case (try_push_full x h)
    then show ?thesis using i I(3)
      by (simp add: list_all_update gather_update_same gather_update_sub [where i = i and y = Idle and d = "{#x#}"] )
  next
    case (try_push_room x h)
    then show ?thesis using i I(3) by (simp add: list_all_update gather_update_same)
  next
    case (try_push_cas x h)
    have "gather offered (sys_pcs ?q) = gather offered ((sys_pcs ?q)[i := PushStore x h]) + {#x#}"
      "gather pending ((sys_pcs ?q)[i := PushStore x h]) = gather pending (sys_pcs ?q) + {#x#}"
      using i(1) try_push_cas by (intro gather_update_sub gather_update_add; simp)+
    with try_push_cas i I(3) show ?thesis by (simp add: list_all_update)
  next
    case (try_push_retry x h)
    then show ?thesis using i I(3) by (simp add: list_all_update gather_update_same)
  next
    case (push_store x h)
    have "gather pending (sys_pcs ?q) = gather pending ((sys_pcs ?q)[i := Idle]) + {#x#}"
      "gather offered ((sys_pcs ?q)[i := Idle]) = gather offered (sys_pcs ?q)"
      using i(1) push_store by (intro gather_update_sub gather_update_same; simp)+
    with push_store i I(3) ok show ?thesis
      using stored_store [OF len [of h], of ?c x] by (simp add: list_all_update)
  next
    case (pop_take t)
    have "gather pending ((sys_pcs ?q)[i := Idle]) = gather pending (sys_pcs ?q)"
      "gather offered ((sys_pcs ?q)[i := Idle]) = gather offered (sys_pcs ?q)"
      using i(1) pop_take by (intro gather_update_same; simp)+
    with pop_take i I(3) show ?thesis
      using stored_take [OF len [of t], of ?c] by (simp add: list_all_update)
  qed (use i(2) po in auto)
  have "lfq_sys_inv ?c q'" using lfq_step_inv [OF step I(1)] .
  then show ?thesis
    using * I(2,4) H by (simp add: cc_inv_def cc_free_def cc_used_def ac_simps)
qed

lemma cc_step_inv:
  assumes "cc_step (ct_cfg (ct_size ct)) s s'" "cc_inv ct s" "ct_inv ct {#}"
  shows "cc_inv ct s'"
  using assms(1)
  by (cases rule: cc_step.cases) (simp_all add: assms cc_inv_take cc_inv_give cc_inv_inside)

lemma cc_reachable_inv: "cc_reachable ct n s \<Longrightarrow> ct_inv ct {#} \<Longrightarrow> cc_inv ct s"
  by (induction rule: cc_reachable.induct) (auto intro: cc_inv_new cc_step_inv)

lemma cc_step_queue:
  assumes "cc_step (ct_cfg (ct_size ct)) s s'" "cc_inv ct s" "ct_inv ct {#}"
  shows "\<exists>i. lfq_step (ct_cfg (ct_size ct)) i (cc_queue s) (cc_queue s')"
  using assms(1)
proof (cases rule: cc_step.cases)
  case (give i p)
  then have "p \<in># cc_used s" using assms(2) by (intro held_used [of i]) (simp_all add: cc_inv_def)
  then have "p \<noteq> nullptr" by (intro cc_entry_not_null [OF assms(2,3)]) simp
  with give show ?thesis by (auto intro!: exI [of _ i] lfq_step.call_try_push)
qed (auto intro: lfq_step.call_pop)

lemma cc_reachable_head_seen:
  assumes "cc_reachable ct n s" "ct_inv ct {#}"
  shows "list_all (head_seen (gh_head (cc_queue s))) (sys_pcs (cc_queue s))"
  using assms(1)
proof (induction rule: cc_reachable.induct)
  case start
  show ?case by (simp add: cc_new_def sys_of_def list_all_iff)
next
  case (step s s')
  note inv = cc_reachable_inv [OF step.hyps(1) assms(2)]
  from cc_step_queue [OF step.hyps(2) inv assms(2)] obtain i where
    "lfq_step (ct_cfg (ct_size ct)) i (cc_queue s) (cc_queue s')" by blast
  moreover have "q_head (sys_q (cc_queue s)) = of_nat (gh_head (cc_queue s))"
    using inv by (simp add: cc_inv_def lfq_sys_inv_def)
  ultimately show ?case using step.IH by (metis lfq_step_head_seen)
qed

lemma cc_counts:
  assumes "cc_inv ct s" "ct_inv ct {#}"
  shows "size (cc_free (ct_cfg (ct_size ct)) s) + size (cc_used s) = unat (ct_size ct)"
proof -
  have "mset (all_entries ct) = cc_free (ct_cfg (ct_size ct)) s + cc_used s"
    using assms(1) by (simp add: cc_inv_def)
  from arg_cong [OF this, of size] show ?thesis by (simp add: all_entries_def)
qed

lemma cc_never_refused:
  assumes inv: "cc_inv ct s" and fresh: "ct_inv ct {#}"
    and seen: "list_all (head_seen (gh_head (cc_queue s))) (sys_pcs (cc_queue s))"
    and i: "i < length (sys_pcs (cc_queue s))" "sys_pcs (cc_queue s) ! i = TryPushLoop p h"
    and few: "gh_tail (cc_queue s) < 2 ^ 31"
  shows "sint (h - q_tail (sys_q (cc_queue s))) < sint (lq_size (ct_cfg (ct_size ct)))"
proof -
  let ?q = "cc_queue s" and ?c = "ct_cfg (ct_size ct)"
  let ?T = "gh_tail ?q" and ?N = "unat (lq_size ?c)"
  have I: "lfq_sys_inv ?c ?q" using inv by (simp add: cc_inv_def)
  then have c: "cfg_ok ?c" and tail: "q_tail (sys_q ?q) = of_nat ?T" by (simp_all add: lfq_sys_inv_def)
  have "head_seen (gh_head ?q) (sys_pcs ?q ! i)" using seen i(1) by (simp add: list_all_length)
  then obtain k where k: "k \<le> gh_head ?q" "h = of_nat k" using i(2) by auto
  have "p \<in># cc_used s" using i by (auto simp: cc_used_def gather_nth intro!: exI [of _ i])
  then have "0 < size (cc_used s)" by (metis nonempty_has_size empty_not_add_mset multi_member_split)
  then have "size (cc_free ?c s) < ?N" using cc_counts [OF inv fresh] ct_invD(6) [OF fresh] by linarith
  then have "k < ?T + ?N" using pops_behind_pushes [OF I] k(1) by (simp add: cc_free_def)
  note lt = this
  have "sint (h - q_tail (sys_q ?q)) = int k - int ?T"
    unfolding k(2) tail using lt cfg_ok_bound [OF c] few by (rule sint_u32_window)
  then show ?thesis unfolding cfg_ok_sint [OF c] using lt by linarith
qed

lemma cc_quiescent_size:
  assumes "cc_inv ct s" "ct_inv ct {#}" "quiescent (cc_queue s)"
  shows "unat (container_size (ct\<lparr>ct_inactive := sys_q (cc_queue s)\<rparr>)) = size (gather id (cc_held s))"
proof -
  let ?q = "sys_q (cc_queue s)" and ?c = "ct_cfg (ct_size ct)"
  have I: "lfq_sys_inv ?c (cc_queue s)" using assms(1) by (simp add: cc_inv_def)
  note Q = quiescent_lfq_ok [OF I assms(3)]
  have g: "gather pending (sys_pcs (cc_queue s)) = {#}" "gather offered (sys_pcs (cc_queue s)) = {#}"
    using assms(3) by (simp_all add: quiescent_gather)
  have "size (stored ?c ?q) + size (gather id (cc_held s)) = unat (ct_size ct)"
    using cc_counts [OF assms(1,2)] by (simp add: cc_free_def cc_used_def g)
  moreover have "unat (lfq_size ?q) = size (stored ?c ?q)"
    using Q lfq.unat_size_of [of ?c ?q] by (metis size_mset)
  ultimately show ?thesis
    by (simp add: container_size_def unat_sub word_le_nat_alt)
qed

lemma cc_held_disjoint:
  assumes inv: "cc_inv ct s" and fresh: "ct_inv ct {#}"
    and that: "i < length (cc_held s)" "j < length (cc_held s)" "i \<noteq> j"
  shows "cc_held s ! i \<inter># cc_held s ! j = {#}"
proof (rule ccontr)
  have one: "count (cc_used s) p \<le> 1" for p
  proof -
    have "count (mset (all_entries ct)) p \<le> 1"
      using ct_invD(3) [OF fresh] by (simp add: distinct_count_atmost_1)
    then show ?thesis using inv by (simp add: cc_inv_def)
  qed
  assume "\<not> ?thesis"
  then obtain p where p: "p \<in># cc_held s ! i" "p \<in># cc_held s ! j" by (metis inter_iff multiset_nonemptyE)
  have "gather id (cc_held s) = gather id ((cc_held s)[i := cc_held s ! i - {#p#}]) + {#p#}"
    using that p by (intro gather_update_sub) simp_all
  moreover have "p \<in># gather id ((cc_held s)[i := cc_held s ! i - {#p#}])"
    using that p by (auto simp: gather_nth intro!: exI [of _ j])
  ultimately have "1 < count (cc_used s) p" by (simp add: cc_used_def flip: count_greater_zero_iff)
  with one [of p] show False by simp
qed

lemma cc_reachable_length: "cc_reachable ct n s \<Longrightarrow> length (cc_held s) = n"
  by (induction rule: cc_reachable.induct) (auto simp: cc_new_def elim!: cc_step.cases)

text \<open>C14: Under every interleaving of any number of threads that take entries from a container and
  give them back, every entry has exactly one owner: each of the container's entries is, once,
  free, being given back, or held; no two threads hold the same entry; and when all calls have
  returned, \<open>size\<close> is the number of entries held, so 0 once everything has been given back.\<close>

theorem concurrent_one_owner:
  assumes "place_ok m base" "container_new m base initializer = Inr ct" "cc_reachable ct n s"
  shows "mset (all_entries ct) = cc_free (ct_cfg m) s + cc_used s \<and>
    (\<forall>i < n. \<forall>j < n. i \<noteq> j \<longrightarrow> cc_held s ! i \<inter># cc_held s ! j = {#}) \<and>
    (quiescent (cc_queue s) \<longrightarrow>
      unat (container_size (ct\<lparr>ct_inactive := sys_q (cc_queue s)\<rparr>)) = size (gather id (cc_held s)))"
proof -
  from container_new_inv [OF assms(1), of initializer] assms(2) have fresh: "ct_inv ct {#}" and m: "ct_size ct = m" by auto
  note inv = cc_reachable_inv [OF assms(3) fresh]
  have len: "length (cc_held s) = n" by (rule cc_reachable_length [OF assms(3)])
  have "cc_held s ! i \<inter># cc_held s ! j = {#}" if "i < n" "j < n" "i \<noteq> j" for i j
    using cc_held_disjoint [OF inv fresh, of i j] that len by simp
  then show ?thesis using inv cc_quiescent_size [OF inv fresh] by (auto simp: cc_inv_def m)
qed

text \<open>C15: Threads wait for an entry only when there is none, and giving back does not fail: if some
  threads wait inside the queue and none of them can go on, every entry of the container is held
  or being given back by a thread; and, as long as fewer than 2 ^ 31 entries have been taken,
  \<open>tryPushIntoQueue\<close> never refuses an entry, whatever happened between its loads.\<close>

theorem concurrent_waits_only_when_empty:
  assumes "place_ok m base" "container_new m base initializer = Inr ct" "cc_reachable ct n s"
  shows "((\<exists>p \<in> set (sys_pcs (cc_queue s)). waiting p) \<and> \<not> can_proceed (ct_cfg m) (cc_queue s) \<longrightarrow>
      cc_used s = mset (all_entries ct)) \<and>
    (\<forall>i < length (sys_pcs (cc_queue s)). \<forall>p h q'. sys_pcs (cc_queue s) ! i = TryPushLoop p h \<and>
      gh_tail (cc_queue s) < 2 ^ 31 \<and> lfq_step (ct_cfg m) i (cc_queue s) q' \<longrightarrow>
      sys_pcs q' ! i = TryPushCas p h)"
proof -
  from container_new_inv [OF assms(1), of initializer] assms(2) have fresh: "ct_inv ct {#}" and m: "ct_size ct = m" by auto
  note inv = cc_reachable_inv [OF assms(3) fresh] and seen = cc_reachable_head_seen [OF assms(3) fresh]
  have I: "lfq_sys_inv (ct_cfg m) (cc_queue s)" "mset (all_entries ct) = cc_free (ct_cfg m) s + cc_used s"
    using inv by (simp_all add: cc_inv_def m)
  have "size (cc_free (ct_cfg m) s) \<le> unat (lq_size (ct_cfg m))"
    using cc_counts [OF inv fresh] ct_invD(6) [OF fresh] by (simp add: m)
  then have "cc_used s = mset (all_entries ct)"
    if "\<exists>p \<in> set (sys_pcs (cc_queue s)). waiting p" "\<not> can_proceed (ct_cfg m) (cc_queue s)"
    using stuck_means_empty [OF I(1) that(2,1)] I(2) by (simp add: cc_free_def)
  moreover have "sys_pcs q' ! i = TryPushCas p h"
    if i: "i < length (sys_pcs (cc_queue s))" "sys_pcs (cc_queue s) ! i = TryPushLoop p h"
      and few: "gh_tail (cc_queue s) < 2 ^ 31" and step: "lfq_step (ct_cfg m) i (cc_queue s) q'" for i p h q'
    using step cc_never_refused [OF inv fresh seen i few] i
    by (cases rule: lfq_step.cases) (auto simp: m)
  ultimately show ?thesis by blast
qed

text \<open>Two threads on a container of two entries; the first has its ticket for one.\<close>

lemma demo_concurrent:
  "\<exists>ct s. container_new 2 0x1000 (\<lambda>i. i) = Inr ct \<and> cc_reachable ct 2 s \<and>
     sys_pcs (cc_queue s) = [PopTake (q_tail (ct_inactive ct)), Idle]"
proof -
  obtain ct where ct: "container_new 2 0x1000 (\<lambda>i. i) = Inr ct"
    using container_new_inv [OF demo_place, of "\<lambda>i. i"] by auto
  have pcs: "sys_pcs (cc_queue (cc_new ct 2)) = [Idle, Idle]"
    by (simp add: cc_new_def sys_of_def numeral_2_eq_2)
  have "cc_reachable ct 2 ((cc_new ct 2)\<lparr>cc_queue := claim_tail 0 (cc_queue (cc_new ct 2))\<rparr>)"
    by (rule cc_reachable.step [OF cc_reachable.start cc_step.take]) (simp_all add: pcs)
  moreover have "q_tail (sys_q (cc_queue (cc_new ct 2))) = q_tail (ct_inactive ct)"
    by (simp add: cc_new_def sys_of_def)
  ultimately show ?thesis using ct pcs
    by (intro exI [of _ ct] exI [of _ "(cc_new ct 2)\<lparr>cc_queue := claim_tail 0 (cc_queue (cc_new ct 2))\<rparr>"]) simp
qed

theorem concurrent_one_owner_witness:
  "\<exists>(ct :: u32 container) s. container_new 2 0x1000 (\<lambda>i. i) = Inr ct \<and> cc_reachable ct 2 s \<and>
     mset (all_entries ct) = cc_free (ct_cfg 2) s + cc_used s \<and> cc_held s ! 0 \<inter># cc_held s ! 1 = {#}"
  using demo_concurrent concurrent_one_owner [OF demo_place] by fastforce

theorem concurrent_waits_only_when_empty_witness:
  "\<exists>(ct :: u32 container) s. container_new 2 0x1000 (\<lambda>i. i) = Inr ct \<and> cc_reachable ct 2 s \<and>
     (can_proceed (ct_cfg 2) (cc_queue s) \<or> cc_used s = mset (all_entries ct))"
proof -
  from demo_concurrent obtain ct :: "u32 container" and s where
    r: "container_new 2 0x1000 (\<lambda>i. i) = Inr ct" "cc_reachable ct 2 s"
      "sys_pcs (cc_queue s) = [PopTake (q_tail (ct_inactive ct)), Idle]" by blast
  then have "\<exists>p \<in> set (sys_pcs (cc_queue s)). waiting p" by (simp add: waiting_def)
  with concurrent_waits_only_when_empty [OF demo_place r(1,2)] r(1,2) show ?thesis by blast
qed

end
