(* ===== verification/Container_Race.thy ===== *)
theory Container_Race
  imports Container_Concurrent
begin

text \<open>
  The race test of \<open>itcConcurrentContainerTest.cc\<close>, on the whole container: any number of threads,
  each of which takes an entry, registers it under its name, removes that name, renames the entry to
  ``default'' and gives it back. The hash map and the entries are those of \<open>Container\<close>, an
  operation on the map being atomic under its mutex; the queue of the entries is the interleaved one of
  \<open>Container_Concurrent\<close>.
\<close>

section \<open>The test\<close>

record test_data =
  td_name :: string
  td_id :: u32

fun to_string :: "nat \<Rightarrow> string" where
  "to_string n = (if n < 10 then [char_of (48 + n)] else to_string (n div 10) @ [char_of (48 + n mod 10)])"

declare to_string.simps [simp del]

definition test_initializer :: "u32 \<Rightarrow> test_data" where
  "test_initializer index = \<lparr>td_name = ''TestData'' @ to_string (unat index), td_id = index\<rparr>"

datatype modifier =
    Begins
  | Taking         \<comment> \<open>inside \<open>tryPopFromQueue\<close>\<close>
  | Taken ptr      \<comment> \<open>next: \<open>addEntryToHashMap\<close>\<close>
  | Added ptr      \<comment> \<open>next: \<open>removeEntryFromHashMap\<close>\<close>
  | Removed ptr    \<comment> \<open>next: the new name\<close>
  | Renamed ptr    \<comment> \<open>next: \<open>tryPushIntoQueue\<close>\<close>
  | Giving         \<comment> \<open>inside \<open>tryPushIntoQueue\<close>\<close>
  | Ended

record race =
  rc_ct :: "test_data container"   \<comment> \<open>its entries and its map\<close>
  rc_cc :: cc_sys                  \<comment> \<open>its queue\<close>
  rc_mods :: "modifier list"

definition race_new :: "test_data container \<Rightarrow> nat \<Rightarrow> race" where
  "race_new ct n = \<lparr>rc_ct = ct, rc_cc = cc_new ct n, rc_mods = replicate n Begins\<rparr>"

definition cc_after :: "ptr lfq_cfg \<Rightarrow> nat \<Rightarrow> ptr lfq_sys \<Rightarrow> cc_sys \<Rightarrow> cc_sys" where
  "cc_after c i q' s = s\<lparr>cc_queue := q', cc_held := (cc_held s)[i := cc_held s ! i +
     cc_gain c (sys_q (cc_queue s)) (sys_pcs (cc_queue s) ! i) (sys_pcs q' ! i)]\<rparr>"

fun entry_popped :: "ptr lfq_cfg \<Rightarrow> ptr lfq \<Rightarrow> ptr pc \<Rightarrow> ptr" where
  "entry_popped c q (PopTake t) = q_elems q ! lfq_slot c t"
| "entry_popped c q _ = nullptr"

fun returned :: "ptr \<Rightarrow> modifier \<Rightarrow> modifier" where
  "returned p Taking = Taken p"
| "returned p Giving = Ended"
| "returned p m = m"

inductive race_step :: "nat \<Rightarrow> race \<Rightarrow> race \<Rightarrow> bool" for i s where
  take: "i < length (rc_mods s) \<Longrightarrow> rc_mods s ! i = Begins \<Longrightarrow>
    race_step i s (s\<lparr>rc_mods := (rc_mods s)[i := Taking],
      rc_cc := (rc_cc s)\<lparr>cc_queue := claim_tail i (cc_queue (rc_cc s))\<rparr>\<rparr>)"
| in_queue: "i < length (rc_mods s) \<Longrightarrow> rc_mods s ! i \<in> {Taking, Giving} \<Longrightarrow>
    sys_pcs (cc_queue (rc_cc s)) ! i \<noteq> Idle \<Longrightarrow> c = ct_cfg (ct_size (rc_ct s)) \<Longrightarrow>
    lfq_step c i (cc_queue (rc_cc s)) q' \<Longrightarrow>
    race_step i s (s\<lparr>rc_cc := cc_after c i q' (rc_cc s),
      rc_mods := (rc_mods s)[i := (if is_Idle (sys_pcs q' ! i)
        then returned (entry_popped c (sys_q (cc_queue (rc_cc s))) (sys_pcs (cc_queue (rc_cc s)) ! i)) (rc_mods s ! i)
        else rc_mods s ! i)]\<rparr>)"
| add: "i < length (rc_mods s) \<Longrightarrow> rc_mods s ! i = Taken p \<Longrightarrow> read_entry p (rc_ct s) = Inr e \<Longrightarrow>
    race_step i s (s\<lparr>rc_mods := (rc_mods s)[i := Added p],
      rc_ct := snd (addEntryToHashMap (td_name e) p (rc_ct s))\<rparr>)"
| remove: "i < length (rc_mods s) \<Longrightarrow> rc_mods s ! i = Added p \<Longrightarrow> read_entry p (rc_ct s) = Inr e \<Longrightarrow>
    race_step i s (s\<lparr>rc_mods := (rc_mods s)[i := Removed p],
      rc_ct := snd (removeEntryFromHashMap (td_name e) (rc_ct s))\<rparr>)"
| rename: "i < length (rc_mods s) \<Longrightarrow> rc_mods s ! i = Removed p \<Longrightarrow> read_entry p (rc_ct s) = Inr e \<Longrightarrow>
    write_entry p (e\<lparr>td_name := ''default''\<rparr>) (rc_ct s) = Inr ct' \<Longrightarrow>
    race_step i s (s\<lparr>rc_mods := (rc_mods s)[i := Renamed p], rc_ct := ct'\<rparr>)"
| give: "i < length (rc_mods s) \<Longrightarrow> rc_mods s ! i = Renamed p \<Longrightarrow>
    race_step i s (s\<lparr>rc_mods := (rc_mods s)[i := Giving],
      rc_cc := (rc_cc s)\<lparr>cc_queue := goto i (TryPushLoop p (q_head (sys_q (cc_queue (rc_cc s))))) (cc_queue (rc_cc s)),
        cc_held := (cc_held (rc_cc s))[i := cc_held (rc_cc s) ! i - {#p#}]\<rparr>\<rparr>)"

inductive race_reachable :: "test_data container \<Rightarrow> nat \<Rightarrow> race \<Rightarrow> bool" for ct n where
  start: "race_reachable ct n (race_new ct n)"
| step: "race_reachable ct n s \<Longrightarrow> race_step i s s' \<Longrightarrow> race_reachable ct n s'"

section \<open>The invariant\<close>

fun in_hand :: "modifier \<Rightarrow> ptr multiset" where
  "in_hand (Taken p) = {#p#}"
| "in_hand (Added p) = {#p#}"
| "in_hand (Removed p) = {#p#}"
| "in_hand (Renamed p) = {#p#}"
| "in_hand _ = {#}"

fun pc_fits :: "modifier \<Rightarrow> ptr pc \<Rightarrow> bool" where
  "pc_fits Taking p \<longleftrightarrow> (case p of PopTake t \<Rightarrow> True | _ \<Rightarrow> False)"
| "pc_fits Giving p \<longleftrightarrow> (case p of TryPushLoop x h \<Rightarrow> True | TryPushCas x h \<Rightarrow> True | PushStore x h \<Rightarrow> True | _ \<Rightarrow> False)"
| "pc_fits _ p \<longleftrightarrow> p = Idle"

definition threads_ok :: "nat \<Rightarrow> race \<Rightarrow> bool" where
  "threads_ok n s \<longleftrightarrow> length (rc_mods s) = n \<and> length (sys_pcs (cc_queue (rc_cc s))) = n \<and>
     length (cc_held (rc_cc s)) = n \<and>
     (\<forall>i < n. cc_held (rc_cc s) ! i = in_hand (rc_mods s ! i) \<and>
        pc_fits (rc_mods s ! i) (sys_pcs (cc_queue (rc_cc s)) ! i))"

definition taken_ok :: "race \<Rightarrow> bool" where
  "taken_ok s \<longleftrightarrow> gh_tail (cc_queue (rc_cc s)) = length (filter (\<lambda>m. m \<noteq> Begins) (rc_mods s))"

text \<open>Every name in the map is that of an entry somebody has added and not yet removed.\<close>

definition names_ok :: "race \<Rightarrow> bool" where
  "names_ok s \<longleftrightarrow> (\<forall>key. ct_map (rc_ct s) key \<noteq> None \<longrightarrow> (\<exists>i < length (rc_mods s). \<exists>p e.
     rc_mods s ! i = Added p \<and> read_entry p (rc_ct s) = Inr e \<and> td_name e = key))"

definition same_entries :: "'e container \<Rightarrow> 'e container \<Rightarrow> bool" where
  "same_entries ct ct' \<longleftrightarrow> ct_size ct' = ct_size ct \<and> ct_base ct' = ct_base ct \<and>
     length (ct_entries ct') = length (ct_entries ct)"

definition race_inv :: "test_data container \<Rightarrow> nat \<Rightarrow> race \<Rightarrow> bool" where
  "race_inv ct n s \<longleftrightarrow> cc_reachable ct n (rc_cc s) \<and> threads_ok n s \<and> taken_ok s \<and> names_ok s \<and>
     same_entries ct (rc_ct s)"

lemma queue_move:
  assumes step: "lfq_step c i q q'" and m: "m \<in> {Taking, Giving}" "pc_fits m (sys_pcs q ! i)"
    and room: "\<And>p h. sys_pcs q ! i = TryPushLoop p h \<Longrightarrow> sint (h - q_tail (sys_q q)) < sint (lq_size c)"
  shows "gh_tail q' = gh_tail q \<and> (\<exists>p'. sys_pcs q' = (sys_pcs q)[i := p'] \<and>
    (let m' = if is_Idle p' then returned (entry_popped c (sys_q q) (sys_pcs q ! i)) m else m
     in pc_fits m' p' \<and> in_hand m' = in_hand m + cc_gain c (sys_q q) (sys_pcs q ! i) p' \<and> m' \<noteq> Begins))"
  using step
proof (cases rule: lfq_step.cases)
  case (try_push_full x h)
  with room [of x h] show ?thesis by simp
qed (use m in \<open>auto simp: Let_def goto_def claim_head_def claim_tail_def store_elem_def take_elem_def\<close>)

lemma taken_at_most: "taken_ok s \<Longrightarrow> threads_ok n s \<Longrightarrow> gh_tail (cc_queue (rc_cc s)) \<le> n"
  by (simp add: taken_ok_def threads_ok_def) (metis length_filter_le)

lemma filter_update:
  "i < length ms \<Longrightarrow> (ms ! i \<noteq> Begins \<longleftrightarrow> m \<noteq> Begins) \<Longrightarrow>
     length (filter (\<lambda>m. m \<noteq> Begins) (ms[i := m])) = length (filter (\<lambda>m. m \<noteq> Begins) ms)"
  by (induction ms arbitrary: i) (auto simp: nth_Cons split: nat.splits)

lemma filter_update_take:
  "i < length ms \<Longrightarrow> ms ! i = Begins \<Longrightarrow> m \<noteq> Begins \<Longrightarrow>
     length (filter (\<lambda>m. m \<noteq> Begins) (ms[i := m])) = Suc (length (filter (\<lambda>m. m \<noteq> Begins) ms))"
  by (induction ms arbitrary: i) (auto simp: nth_Cons split: nat.splits)

section \<open>Entries\<close>

lemma entry_index_inj: "entry_index ct p = Some k \<Longrightarrow> entry_index ct p' = Some k \<Longrightarrow> p = p'"
proof -
  assume a: "entry_index ct p = Some k" "entry_index ct p' = Some k"
  then have "unat (p - ct_base ct) = unat (p' - ct_base ct)"
    by (auto simp: entry_index_def Let_def split: if_splits)
  then have "p - ct_base ct = p' - ct_base ct" by (simp only: word_unat_eq_iff)
  then show "p = p'" by simp
qed

lemma entry_index_map [simp]: "entry_index (ct\<lparr>ct_map := m\<rparr>) p = entry_index ct p"
  by (simp add: entry_index_def)

lemma read_entry_map [simp]: "read_entry p (ct\<lparr>ct_map := m\<rparr>) = read_entry p ct"
  by (simp add: read_entry_def split: option.split)

lemma read_entry_write:
  assumes "write_entry p e ct = Inr ct'" "p' \<noteq> p"
  shows "read_entry p' ct' = read_entry p' ct"
proof -
  from assms(1) obtain k where k: "entry_index ct p = Some k" "ct' = ct\<lparr>ct_entries := (ct_entries ct)[k := e]\<rparr>"
    by (auto simp: write_entry_def split: option.splits)
  have ix: "entry_index ct' x = entry_index ct x" for x using k(2) by (simp add: entry_index_def)
  show ?thesis
  proof (cases "entry_index ct p'")
    case (Some k')
    then have "k' \<noteq> k" using entry_index_inj [OF k(1)] assms(2) by auto
    with Some ix k(2) show ?thesis by (simp add: read_entry_def)
  qed (simp add: read_entry_def ix)
qed

lemma write_entry_frame:
  assumes "write_entry p e ct = Inr ct'"
  shows "ct_map ct' = ct_map ct" "same_entries ct ct'"
  using assms by (auto simp: write_entry_def same_entries_def split: option.splits)

lemma map_ops_frame [simp]:
  "same_entries ct (snd (addEntryToHashMap key p ct))" "same_entries ct (snd (removeEntryFromHashMap key ct))"
  "read_entry x (snd (addEntryToHashMap key p ct)) = read_entry x ct"
  "read_entry x (snd (removeEntryFromHashMap key ct)) = read_entry x ct"
  by (simp_all add: same_entries_def addEntryToHashMap_def removeEntryFromHashMap_def)

lemma same_entries_trans: "same_entries ct ct' \<Longrightarrow> same_entries ct' ct'' \<Longrightarrow> same_entries ct ct''"
  by (simp add: same_entries_def)

lemma read_entry_defined:
  assumes "same_entries ct ct'" "ct_inv ct {#}" "p \<in> set (all_entries ct)"
  shows "\<exists>e. read_entry p ct' = Inr e"
proof -
  from assms(3) obtain i where i: "i < unat (ct_size ct)" "p = ct_at (of_nat i) ct'"
    using assms(1) by (auto simp: all_entries_def ct_at_def same_entries_def)
  moreover have "unat (ct_size ct) \<le> 2 ^ 20" "length (ct_entries ct) = unat (ct_size ct)"
    using assms(2) by (simp_all add: ct_inv_def place_ok_def)
  ultimately show ?thesis using entry_index_at [of i ct'] assms(1)
    by (simp add: read_entry_def same_entries_def)
qed

section \<open>Steps\<close>

lemma race_queue_reachable:
  assumes "race_step i s s'" "threads_ok n s" "same_entries ct (rc_ct s)" "cc_reachable ct n (rc_cc s)"
  shows "cc_reachable ct n (rc_cc s')"
proof -
  have "rc_cc s' = rc_cc s \<or> cc_step (ct_cfg (ct_size ct)) (rc_cc s) (rc_cc s')"
    using assms(1)
  proof (cases rule: race_step.cases)
    case take
    with assms(2) have "sys_pcs (cc_queue (rc_cc s)) ! i = Idle" by (force simp: threads_ok_def)
    with take assms(2) show ?thesis by (simp add: threads_ok_def cc_step.take)
  next
    case (in_queue c q')
    have "c = ct_cfg (ct_size ct)" "i < length (sys_pcs (cc_queue (rc_cc s)))"
      using in_queue(2,5) assms(2,3) by (simp_all add: threads_ok_def same_entries_def)
    with in_queue(4,6) have "cc_step (ct_cfg (ct_size ct)) (rc_cc s) (cc_after c i q' (rc_cc s))"
      unfolding cc_after_def by (metis cc_step.inside)
    with in_queue(1) show ?thesis by simp
  next
    case (give p)
    with assms(2) have "sys_pcs (cc_queue (rc_cc s)) ! i = Idle" "p \<in># cc_held (rc_cc s) ! i"
      by (force simp: threads_ok_def)+
    moreover have "i < length (sys_pcs (cc_queue (rc_cc s)))" using give(2) assms(2) by (simp add: threads_ok_def)
    ultimately have "cc_step (ct_cfg (ct_size ct)) (rc_cc s) (rc_cc s')" by (simp add: give(1) cc_step.give)
    then show ?thesis ..
  qed simp_all
  with assms(4) show ?thesis by (metis cc_reachable.step)
qed

lemma threads_ok_update:
  assumes "threads_ok n s" "i < n" "pc_fits m p" "h = in_hand m"
    and "rc_mods s' = (rc_mods s)[i := m]" "sys_pcs (cc_queue (rc_cc s')) = (sys_pcs (cc_queue (rc_cc s)))[i := p]"
    "cc_held (rc_cc s') = (cc_held (rc_cc s))[i := h]"
  shows "threads_ok n s'"
  using assms by (auto simp: threads_ok_def nth_list_update)

lemma in_queue_step:
  assumes "threads_ok n s" "taken_ok s" "cc_reachable ct n (rc_cc s)" "same_entries ct (rc_ct s)" "ct_inv ct {#}"
    and "n < 2 ^ 31" "i < n" "rc_mods s ! i \<in> {Taking, Giving}"
    and "lfq_step (ct_cfg (ct_size ct)) i (cc_queue (rc_cc s)) q'"
  shows "gh_tail q' = gh_tail (cc_queue (rc_cc s)) \<and>
    (\<exists>p'. sys_pcs q' = (sys_pcs (cc_queue (rc_cc s)))[i := p'] \<and>
    (let m' = if is_Idle p' then returned (entry_popped (ct_cfg (ct_size ct)) (sys_q (cc_queue (rc_cc s)))
          (sys_pcs (cc_queue (rc_cc s)) ! i)) (rc_mods s ! i) else rc_mods s ! i
     in pc_fits m' p' \<and> in_hand m' = in_hand (rc_mods s ! i) +
        cc_gain (ct_cfg (ct_size ct)) (sys_q (cc_queue (rc_cc s))) (sys_pcs (cc_queue (rc_cc s)) ! i) p' \<and> m' \<noteq> Begins))"
proof (rule queue_move [OF assms(9,8)])
  show "pc_fits (rc_mods s ! i) (sys_pcs (cc_queue (rc_cc s)) ! i)" using assms(1,7) by (simp add: threads_ok_def)
  fix p h assume p: "sys_pcs (cc_queue (rc_cc s)) ! i = TryPushLoop p h"
  show "sint (h - q_tail (sys_q (cc_queue (rc_cc s)))) < sint (lq_size (ct_cfg (ct_size ct)))"
    using cc_never_refused [OF cc_reachable_inv [OF assms(3,5)] assms(5) cc_reachable_head_seen [OF assms(3,5)] _ p]
      taken_at_most [OF assms(2,1)] assms(1,6,7) by (simp add: threads_ok_def)
qed

lemma race_threads_step:
  assumes "race_step i s s'" "race_inv ct n s" "ct_inv ct {#}" "n < 2 ^ 31"
  shows "threads_ok n s' \<and> taken_ok s'"
proof -
  note inv = assms(2) [unfolded race_inv_def]
  then have T: "threads_ok n s" "taken_ok s" by simp_all
  then have len: "length (rc_mods s) = n" "length (sys_pcs (cc_queue (rc_cc s))) = n" "length (cc_held (rc_cc s)) = n"
    and at: "\<And>i. i < n \<Longrightarrow> cc_held (rc_cc s) ! i = in_hand (rc_mods s ! i) \<and>
      pc_fits (rc_mods s ! i) (sys_pcs (cc_queue (rc_cc s)) ! i)" by (simp_all add: threads_ok_def)
  have stay: "threads_ok n s' \<and> taken_ok s'"
    if "i < n" "rc_cc s' = rc_cc s" "rc_mods s' = (rc_mods s)[i := m]" "in_hand m = in_hand (rc_mods s ! i)"
      "rc_mods s ! i \<noteq> Begins" "m \<noteq> Begins" "pc_fits m (sys_pcs (cc_queue (rc_cc s)) ! i)" for m
    using that T at [OF that(1)] filter_update [of i "rc_mods s" m]
    by (auto simp: threads_ok_def taken_ok_def nth_list_update)
  show ?thesis using assms(1)
  proof (cases rule: race_step.cases)
    case take
    have "(cc_held (rc_cc s))[i := {#}] = cc_held (rc_cc s)" using take len at [of i] by (simp add: list_update_same_conv)
    then have e: "cc_held (rc_cc s') = (cc_held (rc_cc s))[i := {#}]" by (simp add: take(1))
    have "threads_ok n s'"
      by (rule threads_ok_update [OF T(1) _ _ _ _ _ e, of Taking]) (use take len in simp_all)
    moreover have "taken_ok s'" using take T(2) by (simp add: taken_ok_def filter_update_take claim_tail_def goto_def Let_def)
    ultimately show ?thesis ..
  next
    case (in_queue c q')
    let ?q = "cc_queue (rc_cc s)"
    have c: "c = ct_cfg (ct_size ct)" using in_queue(5) inv by (simp add: same_entries_def)
    from in_queue_step [OF T _ _ assms(3,4) _ in_queue(3) in_queue(6) [unfolded c]] inv in_queue(2) len obtain p' where
      p': "gh_tail q' = gh_tail ?q" "sys_pcs q' = (sys_pcs ?q)[i := p']"
      "let m' = if is_Idle p' then returned (entry_popped c (sys_q ?q) (sys_pcs ?q ! i)) (rc_mods s ! i) else rc_mods s ! i
       in pc_fits m' p' \<and> in_hand m' = in_hand (rc_mods s ! i) + cc_gain c (sys_q ?q) (sys_pcs ?q ! i) p' \<and> m' \<noteq> Begins"
      unfolding c by blast
    define m' where "m' = (if is_Idle p' then returned (entry_popped c (sys_q ?q) (sys_pcs ?q ! i)) (rc_mods s ! i) else rc_mods s ! i)"
    have m': "pc_fits m' p'" "in_hand m' = in_hand (rc_mods s ! i) + cc_gain c (sys_q ?q) (sys_pcs ?q ! i) p'" "m' \<noteq> Begins"
      using p'(3) unfolding Let_def m'_def by blast+
    have i: "i < n" using in_queue(2) len by simp
    have s': "rc_mods s' = (rc_mods s)[i := m']" "cc_queue (rc_cc s') = q'"
      "cc_held (rc_cc s') = (cc_held (rc_cc s))[i := in_hand m']"
      using in_queue(1) p'(2) i len at [OF i] m'(2) by (simp_all add: cc_after_def m'_def)
    have "threads_ok n s'" by (rule threads_ok_update [OF T(1) i m'(1) refl s'(1)]) (simp_all add: s' p'(2))
    moreover have "taken_ok s'"
      using T(2) s' p'(1) m'(3) in_queue(2,3) by (auto simp: taken_ok_def filter_update)
    ultimately show ?thesis ..
  next
    case (give p)
    then have "threads_ok n s'"
      using len at [of i] by (intro threads_ok_update [OF T(1), of i Giving]) auto
    moreover have "taken_ok s'" using give T(2) by (simp add: taken_ok_def filter_update goto_def)
    ultimately show ?thesis ..
  next
    case (add p e)
    then show ?thesis using len at [of i] by (intro stay [of "Added p"]) auto
  next
    case (remove p e)
    then show ?thesis using len at [of i] by (intro stay [of "Removed p"]) auto
  next
    case (rename p e ct')
    then show ?thesis using len at [of i] by (intro stay [of "Renamed p"]) auto
  qed
qed

lemma names_okD:
  assumes "names_ok s" "ct_map (rc_ct s) key \<noteq> None"
  obtains j p e where "j < length (rc_mods s)" "rc_mods s ! j = Added p" "read_entry p (rc_ct s) = Inr e" "td_name e = key"
  using assms unfolding names_ok_def by blast

lemma names_ok_keep:
  assumes "names_ok s" "\<And>p. rc_mods s ! i \<noteq> Added p" "rc_mods s' = (rc_mods s)[i := m]"
    and "\<And>key. ct_map (rc_ct s') key \<noteq> None \<Longrightarrow> ct_map (rc_ct s) key \<noteq> None"
    and "\<And>j p. j < length (rc_mods s) \<Longrightarrow> rc_mods s ! j = Added p \<Longrightarrow> read_entry p (rc_ct s') = read_entry p (rc_ct s)"
  shows "names_ok s'"
  unfolding names_ok_def
proof (intro allI impI)
  fix key assume "ct_map (rc_ct s') key \<noteq> None"
  from names_okD [OF assms(1) assms(4) [OF this]] obtain j p e where
    j: "j < length (rc_mods s)" "rc_mods s ! j = Added p" "read_entry p (rc_ct s) = Inr e" "td_name e = key" .
  then have "j \<noteq> i" using assms(2) by auto
  with j show "\<exists>i < length (rc_mods s'). \<exists>p e. rc_mods s' ! i = Added p \<and> read_entry p (rc_ct s') = Inr e \<and> td_name e = key"
    using assms(3,5) by (intro exI [of _ j] conjI exI [of _ p] exI [of _ e]) simp_all
qed

lemma other_entry:
  assumes "race_inv ct n s" "ct_inv ct {#}" "i < n" "rc_mods s ! i = Removed p"
    and "j < n" "rc_mods s ! j = Added p'"
  shows "p' \<noteq> p"
proof -
  have T: "threads_ok n s" and inv: "cc_inv ct (rc_cc s)"
    using assms(1,2) by (auto simp: race_inv_def intro: cc_reachable_inv)
  then have "cc_held (rc_cc s) ! i = {#p#}" "cc_held (rc_cc s) ! j = {#p'#}" "length (cc_held (rc_cc s)) = n" "i \<noteq> j"
    using assms(3-6) by (auto simp: threads_ok_def)
  then show ?thesis using cc_held_disjoint [OF inv assms(2), of i j] assms(3,5) by auto
qed

lemma race_names_step:
  assumes "race_step i s s'" "race_inv ct n s" "ct_inv ct {#}"
  shows "names_ok s'"
proof -
  have N: "names_ok s" and len: "length (rc_mods s) = n"
    using assms(2) by (simp_all add: race_inv_def threads_ok_def)
  show ?thesis using assms(1)
  proof (cases rule: race_step.cases)
    case (add p e)
    show ?thesis unfolding names_ok_def
    proof (intro allI impI)
      fix key assume k: "ct_map (rc_ct s') key \<noteq> None"
      show "\<exists>i < length (rc_mods s'). \<exists>p e. rc_mods s' ! i = Added p \<and> read_entry p (rc_ct s') = Inr e \<and> td_name e = key"
      proof (cases "key = td_name e")
        case True
        with add show ?thesis by (intro exI [of _ i] conjI exI [of _ p] exI [of _ e]) simp_all
      next
        case False
        with k add have "ct_map (rc_ct s) key \<noteq> None" by (simp add: addEntryToHashMap_def split: if_splits)
        from names_okD [OF N this] obtain j p' e' where j: "j < length (rc_mods s)" "rc_mods s ! j = Added p'"
          "read_entry p' (rc_ct s) = Inr e'" "td_name e' = key" .
        with add show ?thesis by (intro exI [of _ j] conjI exI [of _ p'] exI [of _ e']) (auto simp: nth_list_update)
      qed
    qed
  next
    case (remove p e)
    show ?thesis unfolding names_ok_def
    proof (intro allI impI)
      fix key assume "ct_map (rc_ct s') key \<noteq> None"
      with remove have k: "ct_map (rc_ct s) key \<noteq> None" "key \<noteq> td_name e"
        by (auto simp: removeEntryFromHashMap_def split: if_splits)
      from names_okD [OF N k(1)] obtain j p' e' where j: "j < length (rc_mods s)" "rc_mods s ! j = Added p'"
        "read_entry p' (rc_ct s) = Inr e'" "td_name e' = key" .
      then have "j \<noteq> i" using remove k(2) by auto
      with j remove show "\<exists>i < length (rc_mods s'). \<exists>p e. rc_mods s' ! i = Added p \<and> read_entry p (rc_ct s') = Inr e \<and> td_name e = key"
        by (intro exI [of _ j] conjI exI [of _ p'] exI [of _ e']) simp_all
    qed
  next
    case (rename p e ct')
    show ?thesis
    proof (rule names_ok_keep [OF N])
      fix j p' assume "j < length (rc_mods s)" "rc_mods s ! j = Added p'"
      then have "p' \<noteq> p" using other_entry [OF assms(2,3) _ rename(3)] rename(2) len by blast
      with rename show "read_entry p' (rc_ct s') = read_entry p' (rc_ct s)" by (simp add: read_entry_write)
    qed (use rename write_entry_frame(1) [OF rename(5)] in auto)
  next
    case take
    then show ?thesis by (intro names_ok_keep [OF N, of i _ Taking]) auto
  next
    case give
    then show ?thesis by (intro names_ok_keep [OF N, of i _ Giving]) auto
  next
    case (in_queue c q')
    then show ?thesis by (intro names_ok_keep [OF N, of i]) auto
  qed
qed

lemma race_inv_step:
  assumes "race_step i s s'" "race_inv ct n s" "ct_inv ct {#}" "n < 2 ^ 31"
  shows "race_inv ct n s'"
proof -
  have "same_entries (rc_ct s) (rc_ct s')"
    using assms(1)
  proof (cases rule: race_step.cases)
    case (rename p e ct')
    then show ?thesis using write_entry_frame(2) by simp
  qed (simp_all, simp_all add: same_entries_def)
  then show ?thesis
    using race_threads_step [OF assms] race_names_step [OF assms(1-3)] race_queue_reachable [OF assms(1)] assms(2)
    by (auto simp: race_inv_def intro: same_entries_trans)
qed

lemma race_reachable_inv:
  assumes "race_reachable ct n s" "ct_inv ct {#}" "n < 2 ^ 31" "ct_map ct = (\<lambda>_. None)" "q_tail (ct_inactive ct) = 0"
  shows "race_inv ct n s"
  using assms(1)
proof (induction rule: race_reachable.induct)
  case start
  have "threads_ok n (race_new ct n)" "taken_ok (race_new ct n)" "names_ok (race_new ct n)"
    using assms(4,5) by (simp_all add: race_new_def threads_ok_def taken_ok_def names_ok_def cc_new_def sys_of_def)
  then show ?case by (simp add: race_inv_def race_new_def same_entries_def cc_reachable.start)
qed (use race_inv_step assms in blast)

section \<open>The test passes\<close>

lemma tryPush_tail: "tryPush c x q = Inr (b, q') \<Longrightarrow> q_tail q' = q_tail q"
  by (auto simp: tryPush_def doPush_def Let_def and_then_Inr_iff split: if_splits)

lemma push_entries_tail: "push_entries c ps q = Inr q' \<Longrightarrow> q_tail q' = q_tail q"
  by (induction c ps q rule: push_entries.induct) (auto simp: and_then_Inr_iff dest: tryPush_tail)

lemma container_new_fresh:
  assumes "container_new m base initializer = Inr ct"
  shows "ct_map ct = (\<lambda>_. None)" "q_tail (ct_inactive ct) = 0"
  using assms by (auto simp: container_new_def and_then_Inr_iff lfq_new_def dest: push_entries_tail)

lemma race_moves:
  assumes "race_inv ct n s" "ct_inv ct {#}" "i < n" "rc_mods s ! i \<notin> {Taking, Giving, Ended}"
  shows "\<exists>s'. race_step i s s'"
proof -
  have T: "length (rc_mods s) = n" "cc_held (rc_cc s) ! i = in_hand (rc_mods s ! i)" "length (cc_held (rc_cc s)) = n"
    using assms(1,3) by (simp_all add: race_inv_def threads_ok_def)
  have inv: "cc_inv ct (rc_cc s)" "same_entries ct (rc_ct s)"
    using assms(1,2) by (auto simp: race_inv_def intro: cc_reachable_inv)
  have read: "\<exists>e. read_entry p (rc_ct s) = Inr e" if "p \<in># in_hand (rc_mods s ! i)" for p
  proof -
    have "p \<in># cc_used (rc_cc s)" using that T assms(3) by (intro held_used [of i]) simp_all
    then have "p \<in># mset (all_entries ct)" using inv(1) by (simp add: cc_inv_def)
    then show ?thesis using inv(2) assms(2) by (intro read_entry_defined) simp_all
  qed
  show ?thesis
  proof (cases "rc_mods s ! i")
    case (Removed p)
    then obtain e where e: "read_entry p (rc_ct s) = Inr e" using read by auto
    then have "\<exists>ct'. write_entry p (e\<lparr>td_name := ''default''\<rparr>) (rc_ct s) = Inr ct'"
      by (auto simp: read_entry_def write_entry_def split: option.splits)
    then show ?thesis using T assms(3) Removed e race_step.rename by blast
  next
    case Begins
    then show ?thesis using race_step.take [of i s] T(1) assms(3) by blast
  next
    case (Taken p)
    then obtain e where "read_entry p (rc_ct s) = Inr e" using read by auto
    with Taken show ?thesis using race_step.add [of i s p e] T(1) assms(3) by blast
  next
    case (Added p)
    then obtain e where "read_entry p (rc_ct s) = Inr e" using read by auto
    with Added show ?thesis using race_step.remove [of i s p e] T(1) assms(3) by blast
  next
    case (Renamed p)
    then show ?thesis using race_step.give [of i s p] T(1) assms(3) by blast
  qed (use assms(4) in auto)
qed

lemma in_queue_moves:
  assumes "race_inv ct n s" "i < n" "sys_pcs (cc_queue (rc_cc s)) ! i \<noteq> Idle"
    and "lfq_step (ct_cfg (ct_size ct)) i (cc_queue (rc_cc s)) q'"
  shows "\<exists>s'. race_step i s s'"
proof -
  have T: "length (rc_mods s) = n" "pc_fits (rc_mods s ! i) (sys_pcs (cc_queue (rc_cc s)) ! i)" "same_entries ct (rc_ct s)"
    using assms(1,2) by (simp_all add: race_inv_def threads_ok_def)
  then have "rc_mods s ! i \<in> {Taking, Giving}" using assms(3) by (cases "rc_mods s ! i") simp_all
  then show ?thesis using race_step.in_queue [OF _ _ assms(3) _ assms(4)] T assms(2)
    by (auto simp: same_entries_def)
qed

lemma race_someone_moves:
  assumes "race_inv ct n s" "ct_inv ct {#}" "i < n" "rc_mods s ! i \<noteq> Ended"
  shows "\<exists>i < n. \<exists>s'. race_step i s s'"
proof (rule ccontr)
  assume stuck: "\<not> ?thesis"
  let ?q = "cc_queue (rc_cc s)" and ?c = "ct_cfg (ct_size ct)"
  have T: "length (rc_mods s) = n" "length (sys_pcs ?q) = n" "length (cc_held (rc_cc s)) = n"
    and at: "\<And>j. j < n \<Longrightarrow> cc_held (rc_cc s) ! j = in_hand (rc_mods s ! j) \<and> pc_fits (rc_mods s ! j) (sys_pcs ?q ! j)"
    using assms(1) by (simp_all add: race_inv_def threads_ok_def)
  have inv: "cc_inv ct (rc_cc s)" using assms(1,2) by (auto simp: race_inv_def intro: cc_reachable_inv)
  have in_q: "rc_mods s ! j \<in> {Taking, Giving, Ended}" if "j < n" for j
    using race_moves [OF assms(1,2) that] stuck that by blast
  have wait: "waiting (sys_pcs ?q ! j) \<or> rc_mods s ! j = Ended" if "j < n" for j
  proof (rule ccontr)
    assume "\<not> ?thesis"
    with in_q [OF that] at [OF that] obtain x h where
      "sys_pcs ?q ! j = TryPushLoop x h \<or> sys_pcs ?q ! j = TryPushCas x h"
      by (auto simp: waiting_def split: pc.splits)
    then have "sys_pcs ?q ! j \<noteq> Idle" "\<exists>q'. lfq_step ?c j ?q q'"
      using that T(2) lfq_step.try_push_full [of j ?q x h ?c] lfq_step.try_push_room [of j ?q x h ?c]
        lfq_step.try_push_retry [of j ?q x h ?c] by (auto, meson not_le)
    then show False using in_queue_moves [OF assms(1) that] stuck that by blast
  qed
  have "\<not> can_proceed ?c ?q"
  proof
    assume "can_proceed ?c ?q"
    then obtain j q' where "j < n" "waiting (sys_pcs ?q ! j)" "lfq_step ?c j ?q q'"
      using T(2) by (auto simp: can_proceed_def)
    moreover from this(2) have "sys_pcs ?q ! j \<noteq> Idle" by (auto simp: waiting_def)
    ultimately show False using in_queue_moves [OF assms(1)] stuck by blast
  qed
  moreover have "\<exists>p \<in> set (sys_pcs ?q). waiting p" using wait [OF assms(3)] assms(3,4) T(2) by (metis nth_mem)
  moreover have "lfq_sys_inv ?c ?q" "size (cc_free ?c (rc_cc s)) \<le> unat (lq_size ?c)"
    using inv cc_counts [OF inv assms(2)] ct_invD(6) [OF assms(2)] by (simp_all add: cc_inv_def)
  ultimately have "cc_free ?c (rc_cc s) = {#}"
    using stuck_means_empty [of ?c ?q] by (simp add: cc_free_def)
  moreover have "offered (sys_pcs ?q ! j) = {#}" "cc_held (rc_cc s) ! j = {#}" if "j < n" for j
    using wait [OF that] at [OF that] in_q [OF that] by (auto simp: waiting_def split: pc.splits)
  then have "cc_used (rc_cc s) = {#}"
    using T by (auto simp: cc_used_def in_set_conv_nth intro!: gather_all_empty)
  ultimately have "unat (ct_size ct) = 0" using cc_counts [OF inv assms(2)] by simp
  then show False using assms(2) by (simp add: ct_inv_def place_ok_def unat_eq_zero)
qed

text \<open>C16: The race test of the container passes, with any number of threads and entries, in every
  interleaving: a thread outside the queue can always take its next step, in particular it never
  reads or writes memory that is no entry of the container; as long as a thread has not finished some thread can move;
  and when all have finished, \<open>size\<close> is 0, as the test asserts, and no name is left in the map.\<close>

theorem race_test_passes:
  assumes "place_ok m base" "container_new m base test_initializer = Inr ct" "race_reachable ct n s" "n < 2 ^ 31"
  shows "(\<forall>i < n. rc_mods s ! i \<notin> {Taking, Giving, Ended} \<longrightarrow> (\<exists>s'. race_step i s s')) \<and>
    ((\<exists>i < n. rc_mods s ! i \<noteq> Ended) \<longrightarrow> (\<exists>i < n. \<exists>s'. race_step i s s')) \<and>
    (rc_mods s = replicate n Ended \<longrightarrow>
      container_size ((rc_ct s)\<lparr>ct_inactive := sys_q (cc_queue (rc_cc s))\<rparr>) = 0 \<and> ct_map (rc_ct s) = (\<lambda>_. None))"
proof (intro conjI impI allI)
  from container_new_inv [OF assms(1), of test_initializer] assms(2) have fresh: "ct_inv ct {#}" by auto
  note inv = race_reachable_inv [OF assms(3) fresh assms(4) container_new_fresh [OF assms(2)]]
  show "\<exists>s'. race_step i s s'" if "i < n" "rc_mods s ! i \<notin> {Taking, Giving, Ended}" for i
    by (rule race_moves [OF inv fresh that])
  show "\<exists>i < n. \<exists>s'. race_step i s s'" if "\<exists>i < n. rc_mods s ! i \<noteq> Ended"
    using race_someone_moves [OF inv fresh] that by blast
  assume all: "rc_mods s = replicate n Ended"
  have T: "threads_ok n s" "names_ok s" "same_entries ct (rc_ct s)" "cc_inv ct (rc_cc s)"
    using inv cc_reachable_inv [OF _ fresh] by (auto simp: race_inv_def)
  have "quiescent (cc_queue (rc_cc s))" "gather id (cc_held (rc_cc s)) = {#}"
    using T(1) all by (auto simp: threads_ok_def quiescent_def list_all_length in_set_conv_nth intro!: gather_all_empty)
  then have "unat (container_size (ct\<lparr>ct_inactive := sys_q (cc_queue (rc_cc s))\<rparr>)) = 0"
    using cc_quiescent_size [OF T(4) fresh] by simp
  then have "container_size ((rc_ct s)\<lparr>ct_inactive := sys_q (cc_queue (rc_cc s))\<rparr>) = 0"
    using T(3) by (simp add: container_size_def same_entries_def unat_eq_zero)
  moreover have "ct_map (rc_ct s) key = None" for key
    using T(2) all by (auto simp: names_ok_def)
  ultimately show "container_size ((rc_ct s)\<lparr>ct_inactive := sys_q (cc_queue (rc_cc s))\<rparr>) = 0"
    "ct_map (rc_ct s) = (\<lambda>_. None)" by blast+
qed

text \<open>One thread, one entry: the whole run.\<close>

lemma demo_race_container:
  "\<exists>ct. container_new 1 0x1000 test_initializer = Inr ct \<and> ct_size ct = 1 \<and> ct_base ct = 0x1000 \<and>
     ct_inactive ct = \<lparr>q_head = 1, q_tail = 0, q_elems = [0x1000]\<rparr> \<and>
     ct_entries ct = [\<lparr>td_name = ''TestData0'', td_id = 0\<rparr>] \<and> ct_map ct = (\<lambda>_. None)"
proof -
  have q: "push_entries (ct_cfg 1) [0x1000] (lfq_new (ct_cfg 1)) = Inr \<lparr>q_head = 1, q_tail = 0, q_elems = [0x1000]\<rparr>"
    by code_simp
  have "GET_ALIGNED_ENTRY 0x1000 0 = 0x1000" by code_simp
  moreover have "to_string 0 = ''0''" by code_simp
  ultimately show ?thesis using q by (simp add: container_new_def test_initializer_def)
qed

lemma demo_race_cfg: "lq_nil (ct_cfg 1) = 0" "lq_size (ct_cfg 1) = 1" "lfq_slot (ct_cfg 1) 0 = 0" "lfq_slot (ct_cfg 1) 1 = 0"
  by code_simp+

lemma demo_race:
  "\<exists>ct s. container_new 1 0x1000 test_initializer = Inr ct \<and> race_reachable ct 1 s \<and> rc_mods s = [Ended]"
proof -
  obtain ct where ct: "container_new 1 0x1000 test_initializer = Inr ct" "ct_size ct = 1" "ct_base ct = 0x1000"
      "ct_inactive ct = \<lparr>q_head = 1, q_tail = 0, q_elems = [0x1000]\<rparr>"
      "ct_entries ct = [\<lparr>td_name = ''TestData0'', td_id = 0\<rparr>]" "ct_map ct = (\<lambda>_. None)"
    using demo_race_container by blast
  note defs = race_new_def cc_new_def sys_of_def goto_def claim_tail_def claim_head_def take_elem_def store_elem_def
    cc_after_def Let_def demo_race_cfg ct
  let ?E = "\<lambda>s nm. ct_size (rc_ct s) = 1 \<and> ct_base (rc_ct s) = 0x1000 \<and> ct_entries (rc_ct s) = [\<lparr>td_name = nm, td_id = 0\<rparr>]"
  have r: "read_entry 0x1000 (rc_ct s) = Inr \<lparr>td_name = nm, td_id = 0\<rparr>" if "?E s nm" for s nm
    using that by (simp add: read_entry_def entry_index_def)
  obtain s1 where s1: "race_reachable ct 1 s1" "rc_mods s1 = [Taking]" "sys_pcs (cc_queue (rc_cc s1)) = [PopTake 0]"
      "sys_q (cc_queue (rc_cc s1)) = \<lparr>q_head = 1, q_tail = 1, q_elems = [0x1000]\<rparr>"
      "cc_held (rc_cc s1) = [{#}]" "?E s1 ''TestData0''"
    by (rule that [OF race_reachable.step [OF race_reachable.start race_step.take [of 0]]]) (simp_all add: defs)
  obtain s2 where s2: "race_reachable ct 1 s2" "rc_mods s2 = [Taken 0x1000]" "sys_pcs (cc_queue (rc_cc s2)) = [Idle]"
      "sys_q (cc_queue (rc_cc s2)) = \<lparr>q_head = 1, q_tail = 1, q_elems = [0]\<rparr>"
      "cc_held (rc_cc s2) = [{#0x1000#}]" "?E s2 ''TestData0''"
    by (rule that [OF race_reachable.step [OF s1(1) race_step.in_queue [of 0, OF _ _ _ refl lfq_step.pop_take [of _ _ 0]]]])
      (simp_all add: s1 defs)
  obtain s3 where s3: "race_reachable ct 1 s3" "rc_mods s3 = [Added 0x1000]" "rc_cc s3 = rc_cc s2" "?E s3 ''TestData0''"
    by (rule that [OF race_reachable.step [OF s2(1) race_step.add [of 0 _ "0x1000", OF _ _ r [OF s2(6)]]]])
      (simp_all add: s2 addEntryToHashMap_def)
  obtain s4 where s4: "race_reachable ct 1 s4" "rc_mods s4 = [Removed 0x1000]" "rc_cc s4 = rc_cc s2" "?E s4 ''TestData0''"
    by (rule that [OF race_reachable.step [OF s3(1) race_step.remove [of 0 _ "0x1000", OF _ _ r [OF s3(4)]]]])
      (simp_all add: s3 removeEntryFromHashMap_def)
  obtain s5 where s5: "race_reachable ct 1 s5" "rc_mods s5 = [Renamed 0x1000]" "rc_cc s5 = rc_cc s2" "?E s5 ''default''"
    by (rule that [OF race_reachable.step [OF s4(1) race_step.rename [of 0 _ "0x1000", OF _ _ r [OF s4(4)]]]])
      (simp_all add: s4 write_entry_def entry_index_def, simp add: s4)
  obtain s6 where s6: "race_reachable ct 1 s6" "rc_mods s6 = [Giving]" "sys_pcs (cc_queue (rc_cc s6)) = [TryPushLoop 0x1000 1]"
      "sys_q (cc_queue (rc_cc s6)) = \<lparr>q_head = 1, q_tail = 1, q_elems = [0]\<rparr>" "?E s6 ''default''"
    by (rule that [OF race_reachable.step [OF s5(1) race_step.give [of 0 _ "0x1000"]]]) (simp_all add: s5 s2 goto_def)
  obtain s7 where s7: "race_reachable ct 1 s7" "rc_mods s7 = [Giving]" "sys_pcs (cc_queue (rc_cc s7)) = [TryPushCas 0x1000 1]"
      "sys_q (cc_queue (rc_cc s7)) = \<lparr>q_head = 1, q_tail = 1, q_elems = [0]\<rparr>" "?E s7 ''default''"
    by (rule that [OF race_reachable.step [OF s6(1) race_step.in_queue [of 0, OF _ _ _ refl lfq_step.try_push_room [of _ _ "0x1000" 1]]]])
      (simp_all add: s6 defs)
  obtain s8 where s8: "race_reachable ct 1 s8" "rc_mods s8 = [Giving]" "sys_pcs (cc_queue (rc_cc s8)) = [PushStore 0x1000 1]"
      "sys_q (cc_queue (rc_cc s8)) = \<lparr>q_head = 2, q_tail = 1, q_elems = [0]\<rparr>" "?E s8 ''default''"
    by (rule that [OF race_reachable.step [OF s7(1) race_step.in_queue [of 0, OF _ _ _ refl lfq_step.try_push_cas [of _ _ "0x1000" 1]]]])
      (simp_all add: s7 defs)
  obtain s9 where s9: "race_reachable ct 1 s9" "rc_mods s9 = [Ended]"
    by (rule that [OF race_reachable.step [OF s8(1) race_step.in_queue [of 0, OF _ _ _ refl lfq_step.push_store [of _ _ "0x1000" 1]]]])
      (simp_all add: s8 defs)
  with ct(1) show ?thesis by blast
qed

theorem race_test_passes_witness:
  "\<exists>ct s. container_new 1 0x1000 test_initializer = Inr ct \<and> race_reachable ct 1 s \<and> rc_mods s = [Ended] \<and>
     container_size ((rc_ct s)\<lparr>ct_inactive := sys_q (cc_queue (rc_cc s))\<rparr>) = 0 \<and> ct_map (rc_ct s) = (\<lambda>_. None)"
proof -
  have place: "place_ok 1 0x1000" by (simp add: place_ok_def)
  from demo_race obtain ct s where
    s: "container_new 1 0x1000 test_initializer = Inr ct" "race_reachable ct 1 s" "rc_mods s = [Ended]" by blast
  from race_test_passes [OF place s(1,2)] s show ?thesis by auto
qed

end
