(* ===== verification/Memory.thy ===== *)
theory Memory
  imports Itc_Prelude
begin

text \<open>
  The part of the C++ memory model the program needs: dynamically allocated byte blocks,
  keyed by the address \<open>new\<close> returned, and little-endian access to their bytes and 32-bit
  words. An access outside a live block is \<open>WildAccess\<close>; null is never a live block.
  Which address an allocation gets, whether it succeeds, and what a fresh block contains is
  decided by the environment: the fields \<open>addr_at\<close> and \<open>junk\<close> are arbitrary.
\<close>

section \<open>Little-endian bytes\<close>

definition u32_bytes :: "u32 \<Rightarrow> u8 list" where
  "u32_bytes w = [ucast w, ucast (drop_bit 8 w), ucast (drop_bit 16 w), ucast (drop_bit 24 w)]"

definition bytes_u32 :: "u8 \<Rightarrow> u8 \<Rightarrow> u8 \<Rightarrow> u8 \<Rightarrow> u32" where
  "bytes_u32 a b c d =
     ucast a OR push_bit 8 (ucast b) OR push_bit 16 (ucast c) OR push_bit 24 (ucast d)"

definition get32 :: "nat \<Rightarrow> u8 list \<Rightarrow> u32" where
  "get32 off bs = bytes_u32 (bs ! off) (bs ! (off + 1)) (bs ! (off + 2)) (bs ! (off + 3))"

definition put32 :: "nat \<Rightarrow> u32 \<Rightarrow> u8 list \<Rightarrow> u8 list" where
  "put32 off w bs = bs[off := ucast w, off + 1 := ucast (drop_bit 8 w),
     off + 2 := ucast (drop_bit 16 w), off + 3 := ucast (drop_bit 24 w)]"

lemma bytes_u32_u32_bytes:
  "bytes_u32 (ucast w) (ucast (drop_bit 8 w)) (ucast (drop_bit 16 w)) (ucast (drop_bit 24 w)) = w"
proof (rule bit_word_eqI)
  fix n assume "n < LENGTH(32)"
  then have "n < 8 \<or> 8 \<le> n \<and> n < 16 \<or> 16 \<le> n \<and> n < 24 \<or> 24 \<le> n \<and> n < 32" by auto
  then show "bit (bytes_u32 (ucast w) (ucast (drop_bit 8 w)) (ucast (drop_bit 16 w))
      (ucast (drop_bit 24 w))) n = bit w n"
    by (elim disjE) (auto simp: bytes_u32_def bit_simps)
qed

lemma length_put32 [simp]: "length (put32 off w bs) = length bs"
  by (simp add: put32_def)

lemma get32_put32_same [simp]: "off + 4 \<le> length bs \<Longrightarrow> get32 off (put32 off w bs) = w"
  by (simp add: get32_def put32_def nth_list_update bytes_u32_u32_bytes)

lemma get32_put32_other [simp]:
  "off + 4 \<le> off' \<or> off' + 4 \<le> off \<Longrightarrow> get32 off (put32 off' w bs) = get32 off bs"
  by (auto simp: get32_def put32_def nth_list_update)

lemma get32_update_other [simp]:
  "k < off \<or> off + 4 \<le> k \<Longrightarrow> get32 off (bs[k := b]) = get32 off bs"
  by (auto simp: get32_def nth_list_update)

lemma nth_put32_other [simp]:
  "k < off \<or> off + 4 \<le> k \<Longrightarrow> put32 off w bs ! k = bs ! k"
  by (auto simp: put32_def nth_list_update)

lemma get32_append: "off + 4 \<le> length bs \<Longrightarrow> get32 off (bs @ rest) = get32 off bs"
  by (simp add: get32_def nth_append)

lemma get32_take_head: "off + 4 \<le> n \<Longrightarrow> n \<le> length bs \<Longrightarrow> get32 off (take n bs) = get32 off bs"
  by (simp add: get32_def)

section \<open>Blocks\<close>

record heap =
  blocks :: "ptr \<Rightarrow> u8 list option"
  allocs :: nat              \<comment> \<open>allocations made so far\<close>
  addr_at :: "nat \<Rightarrow> ptr"     \<comment> \<open>the address the environment offers to the next allocation\<close>
  junk :: "nat \<Rightarrow> u8"         \<comment> \<open>what a fresh block contains\<close>

abbreviation block :: "heap \<Rightarrow> ptr \<Rightarrow> u8 list option" where
  "block h a \<equiv> blocks h a"

definition can_alloc :: "heap \<Rightarrow> nat \<Rightarrow> bool" where
  "can_alloc h n \<longleftrightarrow> addr_at h (allocs h) \<noteq> nullptr \<and> block h (addr_at h (allocs h)) = None \<and>
     unat (addr_at h (allocs h)) + n < 2 ^ 64"

definition heap_new :: "nat \<Rightarrow> heap \<Rightarrow> (ptr \<times> heap) res" where
  "heap_new n h =
     (if can_alloc h n
      then let a = addr_at h (allocs h)
           in Inr (a, h\<lparr>blocks := (blocks h)(a := Some (map (junk h) [0..<n])),
                       allocs := allocs h + 1\<rparr>)
      else Inl BadAlloc)"

definition heap_delete :: "ptr \<Rightarrow> heap \<Rightarrow> heap res" where
  "heap_delete a h =
     (case block h a of None \<Rightarrow> Inl InvalidFree | Some _ \<Rightarrow> Inr (h\<lparr>blocks := (blocks h)(a := None)\<rparr>))"

definition with_block :: "ptr \<Rightarrow> heap \<Rightarrow> nat \<Rightarrow> (u8 list \<Rightarrow> 'a) \<Rightarrow> 'a res" where
  "with_block a h end_off f =
     (case block h a of None \<Rightarrow> Inl WildAccess
      | Some bs \<Rightarrow> if end_off \<le> length bs then Inr (f bs) else Inl WildAccess)"

definition read8 :: "ptr \<Rightarrow> nat \<Rightarrow> heap \<Rightarrow> u8 res" where
  "read8 a off h = with_block a h (off + 1) (\<lambda>bs. bs ! off)"

definition read32 :: "ptr \<Rightarrow> nat \<Rightarrow> heap \<Rightarrow> u32 res" where
  "read32 a off h = with_block a h (off + 4) (get32 off)"

definition set_block :: "ptr \<Rightarrow> u8 list \<Rightarrow> heap \<Rightarrow> heap" where
  "set_block a bs h = h\<lparr>blocks := (blocks h)(a := Some bs)\<rparr>"

definition write8 :: "ptr \<Rightarrow> nat \<Rightarrow> u8 \<Rightarrow> heap \<Rightarrow> heap res" where
  "write8 a off b h = with_block a h (off + 1) (\<lambda>bs. set_block a (bs[off := b]) h)"

definition write32 :: "ptr \<Rightarrow> nat \<Rightarrow> u32 \<Rightarrow> heap \<Rightarrow> heap res" where
  "write32 a off w h = with_block a h (off + 4) (\<lambda>bs. set_block a (put32 off w bs) h)"

text \<open>\<open>heap_wf\<close>: null is not a block. The executions below keep it.\<close>

definition heap_wf :: "heap \<Rightarrow> bool" where
  "heap_wf h \<longleftrightarrow> block h nullptr = None"

named_theorems heap_simps "evaluation of memory accesses on known blocks"

lemma blocks_set_block [heap_simps]: "blocks (set_block a bs h) = (blocks h)(a := Some bs)"
  by (simp add: set_block_def)

lemma set_block_set_block [heap_simps]: "set_block a bs (set_block a bs' h) = set_block a bs h"
  by (simp add: set_block_def)

lemma read8_block [heap_simps]:
  "block h a = Some bs \<Longrightarrow> read8 a off h = (if off < length bs then Inr (bs ! off) else Inl WildAccess)"
  by (simp add: read8_def with_block_def Suc_le_eq)

lemma read32_block [heap_simps]:
  "block h a = Some bs \<Longrightarrow>
   read32 a off h = (if off + 4 \<le> length bs then Inr (get32 off bs) else Inl WildAccess)"
  by (simp add: read32_def with_block_def)

lemma write8_block [heap_simps]:
  "block h a = Some bs \<Longrightarrow>
   write8 a off b h = (if off < length bs then Inr (set_block a (bs[off := b]) h) else Inl WildAccess)"
  by (simp add: write8_def with_block_def Suc_le_eq)

lemma write32_block [heap_simps]:
  "block h a = Some bs \<Longrightarrow>
   write32 a off w h =
     (if off + 4 \<le> length bs then Inr (set_block a (put32 off w bs) h) else Inl WildAccess)"
  by (simp add: write32_def with_block_def)

lemma no_block [heap_simps]:
  assumes "block h a = None"
  shows "read8 a off h = Inl WildAccess" "read32 a off h = Inl WildAccess"
    "write8 a off b h = Inl WildAccess" "write32 a off w h = Inl WildAccess"
    "heap_delete a h = Inl InvalidFree"
  using assms
  by (simp_all add: read8_def read32_def write8_def write32_def heap_delete_def with_block_def)

lemma heap_delete_block [heap_simps]:
  "block h a = Some bs \<Longrightarrow> heap_delete a h = Inr (h\<lparr>blocks := (blocks h)(a := None)\<rparr>)"
  by (simp add: heap_delete_def)

lemma heap_new_cases:
  obtains (full) "\<not> can_alloc h n" "heap_new n h = Inl BadAlloc"
    | (ok) a h' where "can_alloc h n" "heap_new n h = Inr (a, h')" "a = addr_at h (allocs h)"
        "a \<noteq> nullptr" "block h a = None"
        "h' = h\<lparr>blocks := (blocks h)(a := Some (map (junk h) [0..<n])), allocs := allocs h + 1\<rparr>"
  by (cases "can_alloc h n") (auto simp: heap_new_def can_alloc_def Let_def)

text \<open>An environment that offers fresh addresses \<open>0x1000\<close> apart, for concrete runs.\<close>

definition demo_heap :: heap where
  "demo_heap = \<lparr>blocks = (\<lambda>_. None), allocs = 0, addr_at = (\<lambda>k. of_nat (0x1000 * (k + 1))),
     junk = (\<lambda>_. 0xCD)\<rparr>"

lemma demo_can_alloc: "n < 2 ^ 63 \<Longrightarrow> can_alloc demo_heap n"
  by (simp add: demo_heap_def can_alloc_def)

end
