(* ===== verification/Itc_Constants.thy ===== *)
theory Itc_Constants
  imports Itc_Prelude
begin

text \<open>
  The constants of \<open>itc.h\<close> and \<open>itcConstant.h\<close>, the return codes of the platform
  interface, and how a 32-bit mailbox id is taken apart: the upper 12 bits name the region
  (process), the lower 16 bits the unit (index of the mailbox in its container); bits 16 to 19
  belong to neither.
\<close>

named_theorems itc_const "values of the source's constants"

definition ITC_MAX_SUPPORTED_MAILBOXES :: u32 where
  [itc_const]: "ITC_MAX_SUPPORTED_MAILBOXES = 1024"

definition ITC_MAILBOX_ID_DEFAULT :: u32 where
  [itc_const]: "ITC_MAILBOX_ID_DEFAULT = 0xFFFFFFFF"

definition ITC_MESSAGE_MSGNO_DEFAULT :: u32 where
  [itc_const]: "ITC_MESSAGE_MSGNO_DEFAULT = 0xFFFFFFFF"

definition ITC_MESSAGE_MSGNO_SIZE :: u32 where
  [itc_const]: "ITC_MESSAGE_MSGNO_SIZE = 4"

definition ITC_FLAG_DEFAULT :: u32 where
  [itc_const]: "ITC_FLAG_DEFAULT = 0"

definition ITC_FLAG_EXTERNAL_COMMUNICATION_NEEDED :: u32 where
  [itc_const]: "ITC_FLAG_EXTERNAL_COMMUNICATION_NEEDED = 1"

definition ITC_MODE_DEFAULT :: u32 where
  [itc_const]: "ITC_MODE_DEFAULT = 0"

definition ITC_MODE_RECEIVE_NON_BLOCKING :: u32 where
  [itc_const]: "ITC_MODE_RECEIVE_NON_BLOCKING = 1"

definition ITC_MODE_LOCATE_IN_REGION :: u32 where
  [itc_const]: "ITC_MODE_LOCATE_IN_REGION = 2"

definition ITC_MODE_LOCATE_IN_WORLD :: u32 where
  [itc_const]: "ITC_MODE_LOCATE_IN_WORLD = 4"

definition ITC_MODE_LOCATE_IN_UNIVERSE :: u32 where
  [itc_const]: "ITC_MODE_LOCATE_IN_UNIVERSE = 8"

definition ITC_MODE_LOCATE_IN_ALL :: u32 where
  [itc_const]: "ITC_MODE_LOCATE_IN_ALL = 14"

definition ITC_MASK_LOCATE :: u32 where
  [itc_const]: "ITC_MASK_LOCATE = 0x1110"

definition ITC_MASK_UNIT_ID :: u32 where
  [itc_const]: "ITC_MASK_UNIT_ID = 0x0000FFFF"

definition ITC_MASK_REGION_ID :: u32 where
  [itc_const]: "ITC_MASK_REGION_ID = 0xFFF00000"

definition ITC_REGION_ID_SHIFT :: nat where
  [itc_const]: "ITC_REGION_ID_SHIFT = 20"

definition ITC_MAX_SUPPORTED_REGIONS :: u32 where
  [itc_const]: "ITC_MAX_SUPPORTED_REGIONS = 255"

definition ITC_PATH_ITC_DIRECTORY_POSITION :: nat where
  [itc_const]: "ITC_PATH_ITC_DIRECTORY_POSITION = 2"

definition ITC_FLAG_I_AM_ITC_SERVER :: u32 where
  [itc_const]: "ITC_FLAG_I_AM_ITC_SERVER = 1"

definition ITC_NR_INTERNAL_USED_MAILBOXES :: u64 where
  [itc_const]: "ITC_NR_INTERNAL_USED_MAILBOXES = 1"

definition ITC_SYSTEM_MESSAGE_FORWARD_MESSAGE_TO_ITC_SERVER_REQUEST :: u32 where
  [itc_const]: "ITC_SYSTEM_MESSAGE_FORWARD_MESSAGE_TO_ITC_SERVER_REQUEST = 0x16"

datatype itc_code = ITC_UNDEFINED | ITC_OK | ITC_FAILED

section \<open>Singletons\<close>

text \<open>\<open>SINGLETON_DEFINITION\<close>: the instance is made by the first caller, under the class's mutex.\<close>

definition getInstance :: "('s \<Rightarrow> 'a \<times> 's) \<Rightarrow> 'a option \<times> 's \<Rightarrow> 'a \<times> 'a option \<times> 's" where
  "getInstance new = (\<lambda>(m_instance, s).
     case m_instance of
       None \<Rightarrow> (let (x, s) = new s in (x, Some x, s))
     | Some x \<Rightarrow> (x, Some x, s))"

definition getInstance_if :: "('s \<Rightarrow> 'a \<times> 's) \<Rightarrow> 'a option \<times> 's \<Rightarrow> 'a \<times> 'a option \<times> 's" where
  "getInstance_if new = getInstance new"

lemma getInstance_once: "getInstance new x = (i, x') \<Longrightarrow> getInstance new' x' = (i, x')"
  by (auto simp: getInstance_def split: option.splits prod.splits)

section \<open>Parts of a mailbox id\<close>

abbreviation unit_of :: "u32 \<Rightarrow> u32" where
  "unit_of mid \<equiv> mid AND ITC_MASK_UNIT_ID"

abbreviation region_of :: "u32 \<Rightarrow> u32" where
  "region_of mid \<equiv> mid AND ITC_MASK_REGION_ID"

lemma unit_mask: "ITC_MASK_UNIT_ID = mask 16"
  by (simp add: itc_const mask_eq_exp_minus_1)

lemma unit_of_less: "unat (unit_of mid) < 65536"
proof -
  have "unit_of mid = mid mod 2 ^ 16" by (simp add: unit_mask take_bit_eq_mod flip: take_bit_eq_mask)
  then have "unat (unit_of mid) = unat mid mod 65536" by (simp add: unat_mod)
  then show ?thesis by simp
qed

lemma unit_of_index: "i < 1024 \<Longrightarrow> unit_of (of_nat i) = of_nat i"
  by (simp add: unit_mask take_bit_nat_eq_self flip: take_bit_eq_mask of_nat_take_bit)

end
