(* ===== verification/Admin_Message.thy ===== *)
theory Admin_Message
  imports Memory Itc_Constants
begin

text \<open>
  \<open>itcAdminMessage.h\<close>: the message block (16 bytes of preamble, 4 bytes of message number,
  payload, one endpoint byte \<open>0xAA\<close>) and the helper that allocates and frees it. Sizes have
  the widths of the source: the requested size is a 64-bit \<open>size_t\<close>, the size recorded in
  the preamble has 32 bits. A message is known by the address of its preamble; users see the
  address of its \<open>msgno\<close> field.
\<close>

section \<open>Layout\<close>

definition ITC_ADMIN_MESSAGE_ENDPOINT :: u8 where
  [itc_const]: "ITC_ADMIN_MESSAGE_ENDPOINT = 0xAA"

definition ITC_ADMIN_MESSAGE_ENDPOINT_SIZE :: u8 where
  [itc_const]: "ITC_ADMIN_MESSAGE_ENDPOINT_SIZE = 1"

definition ITC_ADMIN_MESSAGE_PREAMBLE_SIZE :: u32 where
  [itc_const]: "ITC_ADMIN_MESSAGE_PREAMBLE_SIZE = 16"

definition ITC_ADMIN_MESSAGE_MIN_SIZE :: u32 where
  [itc_const]: "ITC_ADMIN_MESSAGE_MIN_SIZE =
     ITC_ADMIN_MESSAGE_PREAMBLE_SIZE + ITC_MESSAGE_MSGNO_SIZE + ucast ITC_ADMIN_MESSAGE_ENDPOINT_SIZE"

definition ITC_FLAG_MESSAGE_IN_RX_QUEUE :: u32 where
  [itc_const]: "ITC_FLAG_MESSAGE_IN_RX_QUEUE = 1"

text \<open>Offsets of the fields of \<open>ItcAdminMessage\<close>.\<close>

datatype admin_field = F_sender | F_receiver | F_flags | F_size | F_msgno

fun field_off :: "admin_field \<Rightarrow> nat" where
  "field_off F_sender = 0"
| "field_off F_receiver = 4"
| "field_off F_flags = 8"
| "field_off F_size = 12"
| "field_off F_msgno = 16"

definition read_field :: "admin_field \<Rightarrow> ptr \<Rightarrow> heap \<Rightarrow> u32 res" where
  "read_field f a h = read32 a (field_off f) h"

definition write_field :: "admin_field \<Rightarrow> ptr \<Rightarrow> u32 \<Rightarrow> heap \<Rightarrow> heap res" where
  "write_field f a w h = write32 a (field_off f) w h"

definition CONVERT_TO_ADMIN_MESSAGE :: "ptr \<Rightarrow> ptr" where
  "CONVERT_TO_ADMIN_MESSAGE msg = msg - ucast ITC_ADMIN_MESSAGE_PREAMBLE_SIZE"

definition CONVERT_TO_USER_MESSAGE :: "ptr \<Rightarrow> ptr" where
  "CONVERT_TO_USER_MESSAGE admMsg = admMsg + of_nat (field_off F_msgno)"

text \<open>Offset of the endpoint from the start of the block; the address arithmetic wraps at 64 bits.\<close>

definition endpoint_off :: "u64 \<Rightarrow> nat" where
  "endpoint_off sz = unat (of_nat (field_off F_msgno) + sz)"

section \<open>Allocation and deallocation\<close>

definition allocate :: "u32 \<Rightarrow> u64 \<Rightarrow> heap \<Rightarrow> (ptr \<times> heap) res" where
  "allocate msgno sz h =
     (if sz < ucast ITC_MESSAGE_MSGNO_SIZE then Inr (nullptr, h)
      else and_then (heap_new (unat (ucast ITC_ADMIN_MESSAGE_PREAMBLE_SIZE + sz +
                                     ucast ITC_ADMIN_MESSAGE_ENDPOINT_SIZE)) h) (\<lambda>(a, h).
           and_then (write_field F_msgno a msgno h) (\<lambda>h.
           and_then (write_field F_sender a ITC_MAILBOX_ID_DEFAULT h) (\<lambda>h.
           and_then (write_field F_receiver a ITC_MAILBOX_ID_DEFAULT h) (\<lambda>h.
           and_then (write_field F_size a (ucast sz) h) (\<lambda>h.
           and_then (write_field F_flags a ITC_FLAG_DEFAULT h) (\<lambda>h.
           and_then (write8 a (endpoint_off sz) ITC_ADMIN_MESSAGE_ENDPOINT h) (\<lambda>h.
             Inr (a, h)))))))))"

definition deallocate :: "ptr \<Rightarrow> heap \<Rightarrow> (bool \<times> heap) res" where
  "deallocate a h =
     (if a = nullptr then Inr (True, h)
      else and_then (read_field F_flags a h) (\<lambda>flags.
        if flags AND ITC_FLAG_MESSAGE_IN_RX_QUEUE \<noteq> 0 then Inr (False, h)
        else and_then (read_field F_size a h) (\<lambda>sz.
             and_then (read8 a (endpoint_off (ucast sz)) h) (\<lambda>endpoint.
               if endpoint \<noteq> ITC_ADMIN_MESSAGE_ENDPOINT then Inr (False, h)
               else and_then (heap_delete a h) (\<lambda>h. Inr (True, h))))))"

section \<open>Well-formed messages\<close>

text \<open>
  A well-formed message: a live block whose length is what its recorded size says, with at
  least a message number, the endpoint in place, and not marked as queued.
\<close>

definition msg_bytes_ok :: "u8 list \<Rightarrow> bool" where
  "msg_bytes_ok bs \<longleftrightarrow> 21 \<le> length bs \<and> length bs = 17 + unat (get32 (field_off F_size) bs) \<and>
     last bs = ITC_ADMIN_MESSAGE_ENDPOINT"

definition msg_ok :: "heap \<Rightarrow> ptr \<Rightarrow> bool" where
  "msg_ok h a \<longleftrightarrow> a \<noteq> nullptr \<and>
     (case block h a of None \<Rightarrow> False
      | Some bs \<Rightarrow> msg_bytes_ok bs \<and>
          get32 (field_off F_flags) bs AND ITC_FLAG_MESSAGE_IN_RX_QUEUE = 0)"

definition freed :: "ptr \<Rightarrow> heap \<Rightarrow> heap" where
  "freed a h = h\<lparr>blocks := (blocks h)(a := None)\<rparr>"

lemma endpoint_off_small:
  assumes "unat sz < 2 ^ 64 - 17"
  shows "endpoint_off sz = 16 + unat sz"
  using assms by (simp add: endpoint_off_def unat_word_ariths)

lemma endpoint_off_u32 [simp]: "endpoint_off (ucast (sz :: u32)) = 16 + unat sz"
proof -
  have "unat sz < 2 ^ 32" using unsigned_less [of sz] by simp
  moreover from this have "unat (ucast sz :: u64) = unat sz"
    by (simp add: unsigned_ucast_eq take_bit_nat_eq_self)
  ultimately show ?thesis by (subst endpoint_off_small) simp_all
qed

lemma deallocate_msg_ok:
  assumes "msg_ok h a"
  shows "deallocate a h = Inr (True, freed a h)"
proof -
  from assms obtain bs where bs: "block h a = Some bs" "a \<noteq> nullptr" "msg_bytes_ok bs"
      "get32 8 bs AND ITC_FLAG_MESSAGE_IN_RX_QUEUE = 0"
    by (auto simp: msg_ok_def split: option.splits)
  then have "bs \<noteq> []" "length bs - 1 = 16 + unat (get32 12 bs)"
    by (auto simp: msg_bytes_ok_def)
  with bs have "bs ! (16 + unat (get32 12 bs)) = ITC_ADMIN_MESSAGE_ENDPOINT"
    unfolding msg_bytes_ok_def by (metis last_conv_nth)
  with bs show ?thesis
    by (simp add: deallocate_def read_field_def heap_simps msg_bytes_ok_def freed_def)
qed

lemma msg_ok_freed: "msg_ok (freed a h) b \<longleftrightarrow> b \<noteq> a \<and> msg_ok h b"
  by (auto simp: msg_ok_def freed_def)

section \<open>What allocation and deallocation guarantee\<close>

definition fields_are :: "heap \<Rightarrow> ptr \<Rightarrow> u32 \<Rightarrow> u32 \<Rightarrow> u32 \<Rightarrow> u32 \<Rightarrow> u32 \<Rightarrow> bool" where
  "fields_are h a sender rcv flags sz no \<longleftrightarrow>
     read_field F_sender a h = Inr sender \<and> read_field F_receiver a h = Inr rcv \<and>
     read_field F_flags a h = Inr flags \<and> read_field F_size a h = Inr sz \<and>
     read_field F_msgno a h = Inr no"

text \<open>The bytes of a fresh message of \<open>n\<close> bytes over the junk the block held.\<close>

definition fresh_bytes :: "u32 \<Rightarrow> nat \<Rightarrow> (nat \<Rightarrow> u8) \<Rightarrow> u8 list" where
  "fresh_bytes no n g =
     (put32 8 ITC_FLAG_DEFAULT (put32 12 (of_nat n) (put32 4 ITC_MAILBOX_ID_DEFAULT
       (put32 0 ITC_MAILBOX_ID_DEFAULT (put32 16 no (map g [0..<17 + n]))))))
     [16 + n := ITC_ADMIN_MESSAGE_ENDPOINT]"

lemma length_fresh_bytes [simp]: "length (fresh_bytes no n g) = 17 + n"
  by (simp add: fresh_bytes_def)

lemma allocate_bytes:
  assumes "4 \<le> n" "can_alloc h (17 + n)"
  shows "allocate no (of_nat n) h = Inr (addr_at h (allocs h),
     h\<lparr>blocks := (blocks h)(addr_at h (allocs h) := Some (fresh_bytes no n (junk h))),
       allocs := allocs h + 1\<rparr>)"
proof -
  have room: "17 + n < 2 ^ 64" using assms(2) by (simp add: can_alloc_def)
  then have n: "unat (of_nat n :: u64) = n" by (intro unat_of_nat_less) simp
  have "unat (of_nat (17 + n) :: u64) = 17 + n"
    using room by (intro unat_of_nat_less) simp
  then have len: "unat (17 + of_nat n :: u64) = 17 + n" by simp
  have off: "endpoint_off (of_nat n) = 16 + n"
    using room n by (subst endpoint_off_small) simp_all
  have lt: "\<not> (of_nat n :: u64) < 4"
    using assms(1) n by (simp add: word_less_nat_alt)
  have sz: "ucast (of_nat n :: u64) = (of_nat n :: u32)"
    by (metis n of_nat_unat)
  show ?thesis
    using assms lt
    by (simp add: allocate_def itc_const len off sz heap_new_def Let_def write_field_def heap_simps
        fresh_bytes_def set_block_def)
qed

lemma fresh_bytes_fields [simp]:
  assumes "4 \<le> n"
  shows "get32 0 (fresh_bytes no n g) = ITC_MAILBOX_ID_DEFAULT"
    "get32 4 (fresh_bytes no n g) = ITC_MAILBOX_ID_DEFAULT"
    "get32 8 (fresh_bytes no n g) = ITC_FLAG_DEFAULT"
    "get32 12 (fresh_bytes no n g) = of_nat n"
    "get32 16 (fresh_bytes no n g) = no"
    "fresh_bytes no n g ! (16 + n) = ITC_ADMIN_MESSAGE_ENDPOINT"
  using assms by (simp_all add: fresh_bytes_def)

lemma fresh_bytes_payload:
  assumes "20 \<le> i" "i < 16 + n"
  shows "fresh_bytes no n g ! i = g i"
  using assms by (simp add: fresh_bytes_def)

lemma fresh_bytes_last: "4 \<le> n \<Longrightarrow> last (fresh_bytes no n g) = ITC_ADMIN_MESSAGE_ENDPOINT"
  by (subst last_conv_nth) (auto simp flip: length_greater_0_conv)

lemma msg_bytes_ok_fresh: "4 \<le> n \<Longrightarrow> n < 2 ^ 32 \<Longrightarrow> msg_bytes_ok (fresh_bytes no n g)"
  by (simp add: msg_bytes_ok_def fresh_bytes_last unat_of_nat_less)

lemma msg_bytes_ok_put_header:
  assumes "msg_bytes_ok bs" "off + 4 \<le> 12"
  shows "msg_bytes_ok (put32 off w bs)"
proof -
  have "bs \<noteq> []" "put32 off w bs \<noteq> []" using assms(1) by (auto simp: msg_bytes_ok_def simp flip: length_greater_0_conv)
  then have "last (put32 off w bs) = last bs"
    using assms by (simp add: last_conv_nth msg_bytes_ok_def)
  with assms show ?thesis by (simp add: msg_bytes_ok_def)
qed

lemma fields_are_block:
  "block h a = Some bs \<Longrightarrow> 20 \<le> length bs \<Longrightarrow>
   fields_are h a (get32 0 bs) (get32 4 bs) (get32 8 bs) (get32 12 bs) (get32 16 bs)"
  by (simp add: fields_are_def read_field_def heap_simps)

text \<open>C13: Whatever address the allocator hands out and whatever that block held, allocating a
  message of 4 bytes up to 4 GiB yields a live block at an address that was not in use, with
  default sender and receiver, clear flags, the requested size and message number and a valid
  endpoint; it touches no other block, and deallocating the message succeeds and gives back
  exactly the blocks there were before.\<close>

theorem allocate_deallocate_roundtrip:
  assumes "4 \<le> n" "n < 2 ^ 32" "can_alloc h (17 + n)"
  shows "\<exists>a h1 h2. allocate no (of_nat n) h = Inr (a, h1) \<and> a \<noteq> nullptr \<and> block h a = None \<and>
    fields_are h1 a ITC_MAILBOX_ID_DEFAULT ITC_MAILBOX_ID_DEFAULT ITC_FLAG_DEFAULT (of_nat n) no \<and>
    (\<forall>b. b \<noteq> a \<longrightarrow> block h1 b = block h b) \<and>
    deallocate a h1 = Inr (True, h2) \<and> blocks h2 = blocks h"
proof -
  let ?a = "addr_at h (allocs h)"
  let ?h1 = "h\<lparr>blocks := (blocks h)(?a := Some (fresh_bytes no n (junk h))), allocs := allocs h + 1\<rparr>"
  have a: "?a \<noteq> nullptr" "block h ?a = None" using assms(3) by (simp_all add: can_alloc_def)
  have "msg_ok ?h1 ?a"
    using a assms(1,2) by (simp add: msg_ok_def msg_bytes_ok_fresh itc_const)
  then have "deallocate ?a ?h1 = Inr (True, freed ?a ?h1)" by (rule deallocate_msg_ok)
  moreover have "blocks (freed ?a ?h1) = blocks h" using a by (auto simp: freed_def)
  moreover have "fields_are ?h1 ?a ITC_MAILBOX_ID_DEFAULT ITC_MAILBOX_ID_DEFAULT ITC_FLAG_DEFAULT
      (of_nat n) no"
    using fields_are_block [of ?h1 ?a] assms(1) by simp
  ultimately show ?thesis
    using allocate_bytes [OF assms(1,3), of no] a
    by (intro exI [of _ ?a] exI [of _ ?h1] exI [of _ "freed ?a ?h1"]) simp
qed

theorem allocate_deallocate_roundtrip_witness:
  "\<exists>a h1 h2. allocate 7 8 demo_heap = Inr (a, h1) \<and> read_field F_msgno a h1 = Inr 7 \<and>
     deallocate a h1 = Inr (True, h2) \<and> blocks h2 = blocks demo_heap"
proof -
  have "can_alloc demo_heap (17 + 8)" by (rule demo_can_alloc) simp
  from allocate_deallocate_roundtrip [of 8, OF _ _ this, of 7]
  obtain a h1 h2 where "allocate 7 (of_nat 8) demo_heap = Inr (a, h1)"
    "read_field F_msgno a h1 = Inr 7"
    "deallocate a h1 = Inr (True, h2)" "blocks h2 = blocks demo_heap"
    unfolding fields_are_def by auto
  then show ?thesis by auto
qed

text \<open>Deallocation frees only what it should: a non-null message is freed only when its
  in-queue flag is clear and the byte its recorded size points at is the endpoint, it then
  frees that block and no other, and deallocating it again is caught as an access to a dead
  block; when the call refuses, nothing has changed.\<close>

theorem deallocate_guarded:
  assumes "deallocate a h = Inr (r, h')" "a \<noteq> nullptr"
  shows "if r then h' = freed a h \<and> deallocate a h' = Inl WildAccess \<and>
             (\<exists>flags sz. read_field F_flags a h = Inr flags \<and> read_field F_size a h = Inr sz \<and>
                flags AND ITC_FLAG_MESSAGE_IN_RX_QUEUE = 0 \<and>
                read8 a (16 + unat sz) h = Inr ITC_ADMIN_MESSAGE_ENDPOINT)
         else h' = h"
proof -
  have "deallocate a (freed a h) = Inl WildAccess"
    using assms(2) by (simp add: deallocate_def read_field_def freed_def heap_simps)
  with assms show ?thesis
    by (auto simp: deallocate_def and_then_Inr_iff heap_delete_def freed_def
        split: if_splits option.splits)
qed

theorem deallocate_guarded_witness:
  "deallocate 0x1000 (freed 0x1000 (demo_heap\<lparr>blocks := [0x1000 \<mapsto> fresh_bytes 7 4 (\<lambda>_. 0)]\<rparr>)) =
     Inl WildAccess"
proof -
  let ?h = "demo_heap\<lparr>blocks := [0x1000 \<mapsto> fresh_bytes 7 4 (\<lambda>_. 0)]\<rparr>"
  have "msg_ok ?h 0x1000" by (simp add: msg_ok_def msg_bytes_ok_fresh itc_const)
  then have "deallocate 0x1000 ?h = Inr (True, freed 0x1000 ?h)" by (rule deallocate_msg_ok)
  from deallocate_guarded [OF this] show ?thesis by simp
qed

text \<open>The recorded size has 32 bits, the requested one 64: a request of \<open>2 ^ 32 + k\<close> bytes
  succeeds but records \<open>k\<close>, so that deallocation looks for the endpoint inside the payload, and
  unless the payload happens to hold \<open>0xAA\<close> there it refuses and the message can never be
  freed.\<close>

lemma oversized_message_not_freeable:
  assumes "4 \<le> k" "k < 2 ^ 32" "can_alloc h (17 + (2 ^ 32 + k))" "junk h (16 + k) \<noteq> 0xAA"
  shows "\<exists>a h1. allocate no (of_nat (2 ^ 32 + k)) h = Inr (a, h1) \<and>
           read_field F_size a h1 = Inr (of_nat k) \<and> deallocate a h1 = Inr (False, h1)"
proof -
  let ?n = "2 ^ 32 + k" and ?a = "addr_at h (allocs h)"
  let ?bs = "fresh_bytes no ?n (junk h)"
  let ?h1 = "h\<lparr>blocks := (blocks h)(?a := Some ?bs), allocs := allocs h + 1\<rparr>"
  have n: "4 \<le> ?n" by simp
  have zero: "(4294967296 :: u32) = 0" by code_simp
  then have k: "(of_nat ?n :: u32) = of_nat k" by simp
  have "?bs ! (16 + k) = junk h (16 + k)" using assms(1) by (intro fresh_bytes_payload) auto
  then have "deallocate ?a ?h1 = Inr (False, ?h1)"
    using fresh_bytes_fields [OF n, of no "junk h"] assms zero
    by (simp add: deallocate_def read_field_def heap_simps can_alloc_def itc_const unat_of_nat_less
        del: fresh_bytes_fields)
  moreover have "read_field F_size ?a ?h1 = Inr (of_nat k)"
    using fresh_bytes_fields(4) [OF n, of no "junk h"] zero
    by (simp add: read_field_def heap_simps del: fresh_bytes_fields)
  ultimately show ?thesis
    using allocate_bytes [OF n assms(3)] by (intro exI [of _ ?a] exI [of _ ?h1]) simp
qed

lemma oversized_message_not_freeable_witness:
  "\<exists>a h1. allocate 7 0x100000004 demo_heap = Inr (a, h1) \<and> deallocate a h1 = Inr (False, h1)"
  using oversized_message_not_freeable [of 4 demo_heap 7]
  by (simp add: demo_heap_def can_alloc_def) auto

end
