(* ===== verification/Mailbox_Interface.thy ===== *)
theory Mailbox_Interface
  imports Itc_Constants
begin

text \<open>
  What the transports and the platform rely on when they hand a message to a mailbox or take
  one from it: an inactive box refuses and returns null, an active one is a bounded
  first-in first-out list of non-null message addresses. The client lemmas say what a sequence
  of messages put into a box comes out as.
\<close>

fun put_seq :: "(ptr \<Rightarrow> 'm \<Rightarrow> (bool \<times> 'm) res) \<Rightarrow> ptr list \<Rightarrow> 'm \<Rightarrow> (bool list \<times> 'm) res" where
  "put_seq put [] m = Inr ([], m)"
| "put_seq put (p # ps) m =
     and_then (put p m) (\<lambda>(b, m'). and_then (put_seq put ps m') (\<lambda>(bs, m''). Inr (b # bs, m'')))"

fun get_seq :: "('m \<Rightarrow> (ptr \<times> 'm) res) \<Rightarrow> nat \<Rightarrow> 'm \<Rightarrow> (ptr list \<times> 'm) res" where
  "get_seq get 0 m = Inr ([], m)"
| "get_seq get (Suc n) m =
     and_then (get m) (\<lambda>(p, m'). and_then (get_seq get n m') (\<lambda>(ps, m''). Inr (p # ps, m'')))"

locale message_box =
  fixes ok :: "'m \<Rightarrow> bool"
    and active :: "'m \<Rightarrow> bool"
    and held :: "'m \<Rightarrow> ptr list"
    and cap :: nat
    and put :: "ptr \<Rightarrow> 'm \<Rightarrow> (bool \<times> 'm) res"
    and get :: "u32 \<Rightarrow> 'm \<Rightarrow> (ptr \<times> 'm) res"
  assumes put_inactive: "\<not> active m \<Longrightarrow> put p m = Inr (False, m)"
    and put_room: "ok m \<Longrightarrow> active m \<Longrightarrow> p \<noteq> nullptr \<Longrightarrow> length (held m) < cap \<Longrightarrow>
      \<exists>m'. put p m = Inr (True, m') \<and> ok m' \<and> active m' \<and> held m' = held m @ [p]"
    and put_full: "ok m \<Longrightarrow> active m \<Longrightarrow> p \<noteq> nullptr \<Longrightarrow> length (held m) = cap \<Longrightarrow>
      put p m = Inl Blocked"
    and held_bound: "ok m \<Longrightarrow> length (held m) \<le> cap"
    and get_inactive: "\<not> active m \<Longrightarrow> get mode m = Inr (nullptr, m)"
    and get_some: "ok m \<Longrightarrow> active m \<Longrightarrow> held m = p # ps \<Longrightarrow>
      \<exists>m'. get mode m = Inr (p, m') \<and> ok m' \<and> active m' \<and> held m' = ps"
    and get_empty: "ok m \<Longrightarrow> active m \<Longrightarrow> held m = [] \<Longrightarrow>
      get mode m = (if mode AND ITC_MODE_RECEIVE_NON_BLOCKING \<noteq> 0 then Inr (nullptr, m)
                    else Inl Blocked)"
begin

lemma put_seq_held:
  assumes "ok m" "active m" "nullptr \<notin> set ps" "length (held m) + length ps \<le> cap"
  shows "\<exists>m'. put_seq put ps m = Inr (replicate (length ps) True, m') \<and> ok m' \<and> active m' \<and>
           held m' = held m @ ps"
  using assms
proof (induction ps arbitrary: m)
  case (Cons p ps)
  then obtain m' where m': "put p m = Inr (True, m')" "ok m'" "active m'" "held m' = held m @ [p]"
    using put_room [of m p] by auto
  with Cons.prems Cons.IH [of m'] show ?case by auto
qed simp

lemma get_seq_held:
  assumes "ok m" "active m" "n \<le> length (held m)"
  shows "\<exists>m'. get_seq (get mode) n m = Inr (take n (held m), m') \<and> ok m' \<and> active m' \<and>
           held m' = drop n (held m)"
  using assms
proof (induction n arbitrary: m)
  case (Suc n)
  then obtain p ps where held: "held m = p # ps" by (cases "held m") auto
  then obtain m' where "get mode m = Inr (p, m')" "ok m'" "active m'" "held m' = ps"
    using get_some [OF Suc.prems(1,2)] by blast
  with held Suc.prems(3) Suc.IH [of m'] show ?case by auto
qed simp

lemma delivered_in_order:
  assumes "ok m" "active m" "nullptr \<notin> set ps" "length (held m) + length ps \<le> cap"
  shows "\<exists>m' m''. put_seq put ps m = Inr (replicate (length ps) True, m') \<and>
    get_seq (get mode) (length (held m) + length ps) m' = Inr (held m @ ps, m'') \<and>
    ok m'' \<and> active m'' \<and> held m'' = []"
proof -
  from put_seq_held [OF assms] obtain m' where m': "put_seq put ps m = Inr (replicate (length ps) True, m')"
    "ok m'" "active m'" "held m' = held m @ ps" by blast
  with get_seq_held [of m' "length (held m) + length ps" mode] show ?thesis by simp
qed

end

end
