(* ===== verification/Mailbox.thy ===== *)
theory Mailbox
  imports LockFree_Queue Admin_Message Mailbox_Interface
begin

text \<open>
  \<open>itcMailbox.h\<close> and \<open>itcMailbox.cc\<close>: a mailbox is an id, flags, an activity flag and a
  queue of message addresses, behind a \<open>unique_ptr\<close> that a move leaves null (\<open>None\<close>).
  The operations are those of one thread; the queue is used through its bounded-list contract.
  The last part relates a mailbox to the list of the messages it holds.
\<close>

section \<open>State\<close>

definition ITC_MAILBOX_RX_MESSAGE_QUEUE_SIZE :: u32 where
  [itc_const]: "ITC_MAILBOX_RX_MESSAGE_QUEUE_SIZE = 1024"

definition rx_cfg :: "ptr lfq_cfg" where
  "rx_cfg = lfq_template 1 ITC_MAILBOX_RX_MESSAGE_QUEUE_SIZE nullptr 8"

record mailbox =
  mb_id :: u32
  mb_flags :: u32
  mb_queue :: "ptr lfq option"
  mb_active :: bool

definition mbox_new :: "u32 \<Rightarrow> mailbox" where
  "mbox_new flags = \<lparr>mb_id = ITC_MAILBOX_ID_DEFAULT, mb_flags = flags,
     mb_queue = Some (lfq_new rx_cfg), mb_active = False\<rparr>"

definition with_queue :: "mailbox \<Rightarrow> (ptr lfq \<Rightarrow> 'a res) \<Rightarrow> 'a res" where
  "with_queue m f = (case mb_queue m of None \<Rightarrow> Inl WildAccess | Some q \<Rightarrow> f q)"

section \<open>Operations\<close>

definition mbox_push :: "ptr \<Rightarrow> mailbox \<Rightarrow> (bool \<times> mailbox) res" where
  "mbox_push msg m =
     (if \<not> mb_active m then Inr (False, m)
      else with_queue m (\<lambda>q. and_then (lfq_push rx_cfg msg q) (\<lambda>q'.
             Inr (True, m\<lparr>mb_queue := Some q'\<rparr>))))"

definition mbox_pop :: "u32 \<Rightarrow> mailbox \<Rightarrow> (ptr \<times> mailbox) res" where
  "mbox_pop mode m =
     (if \<not> mb_active m then Inr (nullptr, m)
      else with_queue m (\<lambda>q.
        if mode AND ITC_MODE_RECEIVE_NON_BLOCKING \<noteq> 0
        then and_then (tryPop rx_cfg q) (\<lambda>(r, q').
               Inr (case r of Some msg \<Rightarrow> msg | None \<Rightarrow> nullptr, m\<lparr>mb_queue := Some q'\<rparr>))
        else and_then (lfq_pop rx_cfg q) (\<lambda>(msg, q'). Inr (msg, m\<lparr>mb_queue := Some q'\<rparr>))))"

text \<open>
  The loop of \<open>setState\<close>. It ends on every state whatsoever: the queue is not empty, so
  \<open>tryPop\<close> either stops the thread for ever or moves the tail one ticket towards the head.
\<close>

function mbox_drain :: "ptr lfq \<Rightarrow> heap \<Rightarrow> (ptr lfq \<times> heap) res" where
  "mbox_drain q h =
     (if lfq_empty q then Inr (q, h)
      else case tryPop rx_cfg q of
             Inl e \<Rightarrow> Inl e
           | Inr (r, q') \<Rightarrow>
               (case r of
                  Some adminMsg \<Rightarrow>
                    if adminMsg \<noteq> nullptr
                    then and_then (deallocate adminMsg h) (\<lambda>(_, h'). mbox_drain q' h')
                    else mbox_drain q' h
                | None \<Rightarrow> mbox_drain q' h))"
  by pat_completeness auto
termination
  by (relation "measure (\<lambda>(q, h). unat (lfq_size q))") (auto intro: tryPop_shrinks)

declare mbox_drain.simps [simp del]

definition setState :: "bool \<Rightarrow> mailbox \<times> heap \<Rightarrow> (mailbox \<times> heap) res" where
  "setState newState = (\<lambda>(m, h).
     if mb_active m = newState then Inr (m, h)
     else if newState then Inr (m\<lparr>mb_active := True\<rparr>, h)
     else let m = m\<lparr>mb_active := False, mb_id := ITC_MAILBOX_ID_DEFAULT, mb_flags := ITC_FLAG_DEFAULT\<rparr>
          in with_queue m (\<lambda>q. and_then (mbox_drain q h) (\<lambda>(q', h').
               Inr (m\<lparr>mb_queue := Some q'\<rparr>, h'))))"

text \<open>Copying, moving, comparing, destroying.\<close>

definition mbox_copy :: "mailbox \<Rightarrow> mailbox" where
  "mbox_copy other = \<lparr>mb_id = mb_id other, mb_flags = mb_flags other,
     mb_queue = Some (lfq_new rx_cfg), mb_active = False\<rparr>"

definition mbox_assign :: "mailbox \<Rightarrow> mailbox \<Rightarrow> mailbox" where
  "mbox_assign this other = this\<lparr>mb_id := mb_id other, mb_flags := mb_flags other,
     mb_queue := Some (lfq_new rx_cfg)\<rparr>"

definition mbox_move :: "mailbox \<Rightarrow> mailbox \<times> mailbox" where
  "mbox_move other = (\<lparr>mb_id = mb_id other, mb_flags = mb_flags other,
     mb_queue = mb_queue other, mb_active = False\<rparr>, other\<lparr>mb_queue := None\<rparr>)"

definition mbox_move_assign ::
    "mailbox \<Rightarrow> mailbox \<Rightarrow> heap \<Rightarrow> (mailbox \<times> mailbox \<times> heap) res" where
  "mbox_move_assign this other h =
     and_then (setState False (this, h)) (\<lambda>(this, h).
       Inr (this\<lparr>mb_id := mb_id other, mb_flags := mb_flags other, mb_queue := mb_queue other\<rparr>,
            other\<lparr>mb_queue := None\<rparr>, h))"

definition mbox_eq :: "mailbox \<Rightarrow> mailbox \<Rightarrow> bool" where
  "mbox_eq m m' \<longleftrightarrow> mb_id m = mb_id m' \<and> mb_flags m = mb_flags m'"

definition mbox_destroy :: "mailbox \<Rightarrow> heap \<Rightarrow> heap res" where
  "mbox_destroy m h = and_then (setState False (m, h)) (\<lambda>(_, h). Inr h)"

section \<open>A mailbox as a list of messages\<close>

lemma rx_cfg_ok [simp]: "cfg_ok rx_cfg"
  and rx_size [simp]: "unat (lq_size rx_cfg) = 1024"
  and rx_nil [simp]: "lq_nil rx_cfg = nullptr"
  by (code_simp, code_simp, simp add: rx_cfg_def lfq_template_def)

definition mbox_ok :: "mailbox \<Rightarrow> bool" where
  "mbox_ok m \<longleftrightarrow> (case mb_queue m of None \<Rightarrow> False | Some q \<Rightarrow> lfq_ok rx_cfg q)"

definition mbox_list :: "mailbox \<Rightarrow> ptr list" where
  "mbox_list m = (case mb_queue m of None \<Rightarrow> [] | Some q \<Rightarrow> lfq_list rx_cfg q)"

lemma mbox_okE:
  assumes "mbox_ok m"
  obtains q where "mb_queue m = Some q" "lfq_ok rx_cfg q" "mbox_list m = lfq_list rx_cfg q"
  using assms by (auto simp: mbox_ok_def mbox_list_def split: option.splits)

lemmas mbox_simps = mbox_push_def mbox_pop_def with_queue_def mbox_ok_def mbox_list_def

lemma mailbox_put_room:
  assumes "mbox_ok m" "mb_active m" "p \<noteq> nullptr" "length (mbox_list m) < 1024"
  shows "\<exists>m'. mbox_push p m = Inr (True, m') \<and> mbox_ok m' \<and> mb_active m' \<and>
           mbox_list m' = mbox_list m @ [p]"
proof -
  from assms(1) obtain q where q: "mb_queue m = Some q" "lfq_ok rx_cfg q" "mbox_list m = lfq_list rx_cfg q"
    by (rule mbox_okE)
  with assms lfq.push_room [of rx_cfg q p] show ?thesis
    by (auto simp: mbox_simps)
qed

lemma mailbox_get_some:
  assumes "mbox_ok m" "mb_active m" "mbox_list m = p # ps"
  shows "\<exists>m'. mbox_pop mode m = Inr (p, m') \<and> mbox_ok m' \<and> mb_active m' \<and> mbox_list m' = ps"
proof -
  from assms(1) obtain q where q: "mb_queue m = Some q" "lfq_ok rx_cfg q" "mbox_list m = lfq_list rx_cfg q"
    by (rule mbox_okE)
  with assms lfq.pop_some [of rx_cfg q p ps] lfq.try_pop_some [of rx_cfg q p ps] show ?thesis
    by (auto simp: mbox_simps)
qed

lemma mailbox_put_full:
  assumes "mbox_ok m" "mb_active m" "p \<noteq> nullptr" "length (mbox_list m) = 1024"
  shows "mbox_push p m = Inl Blocked"
  using assms by (elim mbox_okE) (simp add: mbox_push_def with_queue_def lfq.push_full)

lemma mailbox_get_empty:
  assumes "mbox_ok m" "mb_active m" "mbox_list m = []"
  shows "mbox_pop mode m = (if mode AND ITC_MODE_RECEIVE_NON_BLOCKING \<noteq> 0 then Inr (nullptr, m)
           else Inl Blocked)"
  using assms
  by (elim mbox_okE) (simp add: mbox_pop_def with_queue_def lfq.try_pop_none lfq.pop_none)

lemma mailbox_held_bound: "mbox_ok m \<Longrightarrow> length (mbox_list m) \<le> 1024"
  by (elim mbox_okE) (metis lfq.contents_bound rx_size)

lemma mailbox_inactive:
  assumes "\<not> mb_active m"
  shows "mbox_push p m = Inr (False, m)" "mbox_pop mode m = Inr (nullptr, m)"
  using assms by (simp_all add: mbox_push_def mbox_pop_def)

interpretation mbox: message_box mbox_ok mb_active mbox_list 1024 mbox_push mbox_pop
  by unfold_locales
    (auto simp: mailbox_put_full mailbox_get_empty mailbox_held_bound mailbox_inactive
      intro: mailbox_put_room mailbox_get_some)

lemma mbox_new_ok [simp]: "mbox_ok (mbox_new flags)" "mbox_list (mbox_new flags) = []"
  by (simp_all add: mbox_ok_def mbox_list_def mbox_new_def lfq_new_ok lfq_new_list)

section \<open>Draining\<close>

text \<open>What the loop of \<open>setState\<close> does to the list: one deallocation per message, in order,
  whose refusals are ignored.\<close>

fun dealloc_all :: "ptr list \<Rightarrow> heap \<Rightarrow> heap res" where
  "dealloc_all [] h = Inr h"
| "dealloc_all (p # ps) h = and_then (deallocate p h) (\<lambda>(_, h'). dealloc_all ps h')"

lemma mbox_drain_list:
  assumes "lfq_ok rx_cfg q"
  shows "map_sum id (\<lambda>(q', h'). (lfq_ok rx_cfg q', lfq_list rx_cfg q', h')) (mbox_drain q h) =
         map_sum id (\<lambda>h'. (True, [], h')) (dealloc_all (lfq_list rx_cfg q) h)"
  using assms
proof (induction "lfq_list rx_cfg q" arbitrary: q h)
  case Nil
  then have "lfq_empty q" by (simp add: lfq_empty_def lfq.size_of_zero_iff)
  with Nil show ?case by (subst mbox_drain.simps) simp
next
  case (Cons p ps)
  then have ne: "\<not> lfq_empty q" by (simp add: lfq_empty_def lfq.size_of_zero_iff flip: Cons.hyps(2))
  obtain q' where q': "tryPop rx_cfg q = Inr (Some p, q')" "lfq_ok rx_cfg q'"
      "lfq_list rx_cfg q' = ps"
    using lfq.try_pop_some [OF Cons.prems Cons.hyps(2) [symmetric]] by blast
  have "p \<noteq> nullptr"
    using lfq.contents_valid [OF Cons.prems, of p] by (simp flip: Cons.hyps(2))
  with ne q' have "mbox_drain q h = and_then (deallocate p h) (\<lambda>(_, h'). mbox_drain q' h')"
    by (subst mbox_drain.simps) simp
  with Cons.hyps(1) [OF q'(3) [symmetric] q'(2)] show ?case
    by (cases "deallocate p h") (auto simp: q'(3) simp flip: Cons.hyps(2))
qed

lemma dealloc_all_ok:
  assumes "distinct ps" "\<forall>p \<in> set ps. msg_ok h p"
  shows "\<exists>h'. dealloc_all ps h = Inr h' \<and>
           blocks h' = (\<lambda>a. if a \<in> set ps then None else block h a)"
  using assms
proof (induction ps arbitrary: h)
  case (Cons p ps)
  have "deallocate p h = Inr (True, freed p h)" using Cons.prems by (simp add: deallocate_msg_ok)
  moreover have "\<exists>h'. dealloc_all ps (freed p h) = Inr h' \<and>
      blocks h' = (\<lambda>a. if a \<in> set ps then None else block (freed p h) a)"
    using Cons.prems by (intro Cons.IH) (auto simp: msg_ok_freed)
  ultimately show ?case by (auto simp: freed_def fun_eq_iff)
qed simp

section \<open>Specification\<close>

record mbox_abs =
  ab_active :: bool
  ab_id :: u32
  ab_flags :: u32
  ab_msgs :: "ptr list"

definition mbox_view :: "mailbox \<Rightarrow> mbox_abs" where
  "mbox_view m = \<lparr>ab_active = mb_active m, ab_id = mb_id m, ab_flags = mb_flags m,
     ab_msgs = mbox_list m\<rparr>"

datatype mbox_op = MPush ptr | MPop u32 | MSetState bool

datatype mbox_ret = MPushed bool | MPopped ptr | MDone

fun mbox_op_valid :: "mbox_op \<Rightarrow> bool" where
  "mbox_op_valid (MPush p) \<longleftrightarrow> p \<noteq> nullptr"
| "mbox_op_valid _ \<longleftrightarrow> True"

fun mbox_do :: "mbox_op \<Rightarrow> mailbox \<times> heap \<Rightarrow> (mbox_ret \<times> mailbox \<times> heap) res" where
  "mbox_do (MPush p) (m, h) = and_then (mbox_push p m) (\<lambda>(b, m). Inr (MPushed b, m, h))"
| "mbox_do (MPop mode) (m, h) = and_then (mbox_pop mode m) (\<lambda>(p, m). Inr (MPopped p, m, h))"
| "mbox_do (MSetState b) (m, h) = and_then (setState b (m, h)) (\<lambda>mh. Inr (MDone, mh))"

fun mbox_spec :: "mbox_op \<Rightarrow> mbox_abs \<times> heap \<Rightarrow> (mbox_ret \<times> mbox_abs \<times> heap) res" where
  "mbox_spec (MPush p) (b, h) =
     (if \<not> ab_active b then Inr (MPushed False, b, h)
      else if length (ab_msgs b) < 1024
      then Inr (MPushed True, b\<lparr>ab_msgs := ab_msgs b @ [p]\<rparr>, h)
      else Inl Blocked)"
| "mbox_spec (MPop mode) (b, h) =
     (if \<not> ab_active b then Inr (MPopped nullptr, b, h)
      else case ab_msgs b of
             p # ps \<Rightarrow> Inr (MPopped p, b\<lparr>ab_msgs := ps\<rparr>, h)
           | [] \<Rightarrow> if mode AND ITC_MODE_RECEIVE_NON_BLOCKING \<noteq> 0
                   then Inr (MPopped nullptr, b, h) else Inl Blocked)"
| "mbox_spec (MSetState True) (b, h) = Inr (MDone, b\<lparr>ab_active := True\<rparr>, h)"
| "mbox_spec (MSetState False) (b, h) =
     (if \<not> ab_active b then Inr (MDone, b, h)
      else and_then (dealloc_all (ab_msgs b) h) (\<lambda>h'.
             Inr (MDone, \<lparr>ab_active = False, ab_id = ITC_MAILBOX_ID_DEFAULT,
                          ab_flags = ITC_FLAG_DEFAULT, ab_msgs = []\<rparr>, h')))"

section \<open>The mailbox refines its specification\<close>

lemma mbox_push_frame: "mbox_push p m = Inr (b, m') \<Longrightarrow> \<exists>q. m' = m\<lparr>mb_queue := q\<rparr>"
  by (auto simp: mbox_push_def with_queue_def and_then_Inr_iff split: if_splits option.splits
      intro: exI [of _ "mb_queue m"])

lemma mbox_pop_frame: "mbox_pop mode m = Inr (p, m') \<Longrightarrow> \<exists>q. m' = m\<lparr>mb_queue := q\<rparr>"
  by (auto simp: mbox_pop_def with_queue_def and_then_Inr_iff split: if_splits option.splits
      intro: exI [of _ "mb_queue m"])

lemma mbox_view_queue:
  "mbox_view (m\<lparr>mb_queue := q\<rparr>) = (mbox_view m)\<lparr>ab_msgs := mbox_list (m\<lparr>mb_queue := q\<rparr>)\<rparr>"
  by (simp add: mbox_view_def)

lemma mbox_view_sels [simp]:
  "ab_active (mbox_view m) = mb_active m" "ab_msgs (mbox_view m) = mbox_list m"
  by (simp_all add: mbox_view_def)

definition agrees :: "mbox_op \<Rightarrow> mailbox \<Rightarrow> heap \<Rightarrow> bool" where
  "agrees x m h \<longleftrightarrow>
     map_sum id (apsnd (apfst mbox_view)) (mbox_do x (m, h)) = mbox_spec x (mbox_view m, h) \<and>
     (\<forall>r m' h'. mbox_do x (m, h) = Inr (r, m', h') \<longrightarrow> mbox_ok m')"

lemma agrees_push: "mbox_ok m \<Longrightarrow> p \<noteq> nullptr \<Longrightarrow> agrees (MPush p) m h"
proof (cases "mb_active m")
  case True
  assume m: "mbox_ok m" and p: "p \<noteq> nullptr"
  show ?thesis
  proof (cases "length (mbox_list m) < 1024")
    case room: True
    from mbox.put_room [OF m True p room] obtain m' where
      m': "mbox_push p m = Inr (True, m')" "mbox_ok m'" "mbox_list m' = mbox_list m @ [p]" by blast
    moreover from mbox_push_frame [OF m'(1)] m'(3)
    have "mbox_view m' = (mbox_view m)\<lparr>ab_msgs := mbox_list m @ [p]\<rparr>"
      by (auto simp: mbox_view_queue)
    ultimately show ?thesis using True room by (simp add: agrees_def)
  next
    case False
    with mbox.held_bound [OF m] have "length (mbox_list m) = 1024" by simp
    with mbox.put_full [OF m True p] True show ?thesis by (simp add: agrees_def)
  qed
qed (simp add: agrees_def mbox.put_inactive)

lemma agrees_pop: "mbox_ok m \<Longrightarrow> agrees (MPop mode) m h"
proof (cases "mb_active m")
  case True
  assume m: "mbox_ok m"
  show ?thesis
  proof (cases "mbox_list m")
    case Nil
    with mbox.get_empty [OF m True] m True show ?thesis by (auto simp: agrees_def)
  next
    case (Cons p ps)
    from mbox.get_some [OF m True Cons] obtain m' where
      m': "mbox_pop mode m = Inr (p, m')" "mbox_ok m'" "mbox_list m' = ps" by blast
    moreover from mbox_pop_frame [OF m'(1)] m'(3)
    have "mbox_view m' = (mbox_view m)\<lparr>ab_msgs := ps\<rparr>"
      by (auto simp: mbox_view_queue)
    ultimately show ?thesis using True Cons by (simp add: agrees_def)
  qed
qed (simp add: agrees_def mbox.get_inactive)

lemma setState_False_active:
  assumes "mbox_ok m" "mb_active m"
  shows "(\<exists>e. setState False (m, h) = Inl e \<and> dealloc_all (mbox_list m) h = Inl e) \<or>
    (\<exists>m' h'. setState False (m, h) = Inr (m', h') \<and> dealloc_all (mbox_list m) h = Inr h' \<and>
       mbox_ok m' \<and> mbox_view m' = \<lparr>ab_active = False, ab_id = ITC_MAILBOX_ID_DEFAULT,
         ab_flags = ITC_FLAG_DEFAULT, ab_msgs = []\<rparr>)"
proof -
  from assms(1) obtain q where q: "mb_queue m = Some q" "lfq_ok rx_cfg q"
      "mbox_list m = lfq_list rx_cfg q" by (rule mbox_okE)
  with mbox_drain_list [OF q(2), of h] assms(2) show ?thesis
    by (cases "mbox_drain q h"; cases "dealloc_all (lfq_list rx_cfg q) h")
      (auto simp: setState_def with_queue_def mbox_view_def mbox_ok_def mbox_list_def)
qed

lemma agrees_setState: "mbox_ok m \<Longrightarrow> agrees (MSetState b) m h"
proof (cases "b = mb_active m \<or> b")
  case True
  assume "mbox_ok m"
  then have "mbox_ok (m\<lparr>mb_active := True\<rparr>)" by (simp add: mbox_ok_def)
  with True \<open>mbox_ok m\<close> show ?thesis
    by (cases b) (auto simp: agrees_def setState_def mbox_view_def mbox_list_def)
next
  case False
  assume "mbox_ok m"
  with False setState_False_active [of m h] show ?thesis by (auto simp: agrees_def)
qed

lemma mbox_agrees: "mbox_ok m \<Longrightarrow> mbox_op_valid x \<Longrightarrow> agrees x m h"
  by (cases x) (simp_all add: agrees_push agrees_pop agrees_setState)

text \<open>C9: A mailbox behaves as its specification says over every sequence of pushes, pops (in
  either mode) and activations or deactivations, from any well-formed state and heap: an
  inactive mailbox refuses messages and returns null; an active one is a first-in first-out
  list of at most 1024 messages; deactivating it deallocates the held messages in order and
  resets id and flags; the calls return, block or fail exactly where the specification does.\<close>

theorem mailbox_refines_spec:
  assumes "mbox_ok m" "list_all mbox_op_valid ops"
  shows "map_sum id (apsnd (apfst mbox_view)) (run_ops mbox_do ops (m, h)) =
         run_ops mbox_spec ops (mbox_view m, h)"
  using assms
proof (induction ops arbitrary: m h)
  case (Cons x ops)
  then have a: "agrees x m h" by (simp add: mbox_agrees)
  show ?case
  proof (cases "mbox_do x (m, h)")
    case (Inl e)
    with a show ?thesis by (cases "mbox_spec x (mbox_view m, h)") (auto simp: agrees_def)
  next
    case (Inr t)
    obtain r m' h' where t: "t = (r, m', h')" by (cases t)
    with a Inr have "mbox_spec x (mbox_view m, h) = Inr (r, mbox_view m', h')" "mbox_ok m'"
      by (auto simp: agrees_def)
    with Cons.IH [of m' h'] Cons.prems Inr t show ?thesis
      by (cases "run_ops mbox_do ops (m', h')";
          cases "run_ops mbox_spec ops (mbox_view m', h')") auto
  qed
qed simp

theorem mailbox_refines_spec_witness:
  "map_sum id (apsnd (apfst mbox_view))
     (run_ops mbox_do [MSetState True, MPush 16, MPush 32, MPop 0, MPop 1, MPop 1] (mbox_new 0, demo_heap)) =
   Inr ([MDone, MPushed True, MPushed True, MPopped 16, MPopped 32, MPopped nullptr],
        \<lparr>ab_active = True, ab_id = ITC_MAILBOX_ID_DEFAULT, ab_flags = 0, ab_msgs = []\<rparr>, demo_heap)"
  using mailbox_refines_spec [of "mbox_new 0"
      "[MSetState True, MPush 16, MPush 32, MPop 0, MPop 1, MPop 1]" demo_heap]
  by (simp add: mbox_view_def itc_const) (simp add: mbox_new_def itc_const)

text \<open>Deactivating an active mailbox frees every message it holds, each exactly once, and no
  other block: if the held messages are distinct well-formed messages, the call returns, the
  mailbox is inactive and empty with default id and flags, and the blocks are those before
  less the held messages.\<close>

theorem deactivation_frees_messages:
  assumes "mbox_ok m" "mb_active m" "distinct (mbox_list m)" "\<forall>p \<in> set (mbox_list m). msg_ok h p"
  shows "\<exists>m' h'. setState False (m, h) = Inr (m', h') \<and> mbox_ok m' \<and> mbox_list m' = [] \<and>
    \<not> mb_active m' \<and> mb_id m' = ITC_MAILBOX_ID_DEFAULT \<and> mb_flags m' = ITC_FLAG_DEFAULT \<and>
    blocks h' = (\<lambda>a. if a \<in> set (mbox_list m) then None else block h a)"
proof -
  from dealloc_all_ok [OF assms(3,4)] obtain h' where h': "dealloc_all (mbox_list m) h = Inr h'"
    "blocks h' = (\<lambda>a. if a \<in> set (mbox_list m) then None else block h a)" by blast
  with setState_False_active [OF assms(1,2), of h] show ?thesis
    by (auto simp: mbox_view_def)
qed

theorem deactivation_frees_messages_witness:
  "\<exists>m m' h'. mbox_push 0x1000 ((mbox_new 0)\<lparr>mb_active := True\<rparr>) = Inr (True, m) \<and>
     setState False (m, demo_heap\<lparr>blocks := [0x1000 \<mapsto> fresh_bytes 7 4 (\<lambda>_. 0)]\<rparr>) = Inr (m', h') \<and>
     blocks h' = (\<lambda>_. None)"
proof -
  let ?m = "(mbox_new 0)\<lparr>mb_active := True\<rparr>"
  let ?h = "demo_heap\<lparr>blocks := [0x1000 \<mapsto> fresh_bytes 7 4 (\<lambda>_. 0)]\<rparr>"
  have "mbox_ok ?m" "mbox_list ?m = []"
    using mbox_new_ok [of 0] by (simp_all add: mbox_ok_def mbox_list_def)
  with mbox.put_room [where m = ?m and p = "0x1000"] obtain m where
    m: "mbox_push 0x1000 ?m = Inr (True, m)" "mbox_ok m" "mb_active m" "mbox_list m = [0x1000]"
    by auto
  have "msg_ok ?h 0x1000" by (simp add: msg_ok_def msg_bytes_ok_fresh itc_const)
  with m deactivation_frees_messages [where m = m and h = ?h] show ?thesis
    by (auto simp: fun_eq_iff split: if_splits)
qed

text \<open>Moving an active mailbox loses it: the new mailbox is inactive, so it refuses every
  message and its own destruction frees none of the messages it took over, while the
  moved-from one is still marked active and its destruction dereferences the null queue.\<close>

lemma moved_active_mailbox_broken:
  assumes "mb_active other" "mbox_move other = (this, other')"
  shows "mbox_list this = mbox_list other \<and> mbox_push p this = Inr (False, this) \<and>
         mbox_destroy this h = Inr h \<and> mbox_destroy other' h = Inl WildAccess"
  using assms
  by (auto simp: mbox_move_def mbox_push_def mbox_destroy_def setState_def with_queue_def mbox_list_def)

lemma moved_active_mailbox_broken_witness:
  "mbox_destroy (snd (mbox_move ((mbox_new 0)\<lparr>mb_active := True\<rparr>))) demo_heap = Inl WildAccess"
  using moved_active_mailbox_broken [of "(mbox_new 0)\<lparr>mb_active := True\<rparr>"]
  by (cases "mbox_move ((mbox_new 0)\<lparr>mb_active := True\<rparr>)") auto

end
