(* ===== verification/Mailbox_Concurrent.thy ===== *)
theory Mailbox_Concurrent
  imports Mailbox Queue_Clients
begin

text \<open>
  \<open>itcMailbox.cc\<close> with several threads: any number of senders, receivers and threads that change
  the state of one mailbox. A step is one access to \<open>m_isActive\<close>, one store to another member, one
  atomic access inside the queue (\<open>Queue_Interleaving\<close>), with \<open>size\<close> as its two loads, or one call
  of \<open>deallocate\<close> on the heap that all threads share. A mailbox operation reads the flag first and
  uses the queue later, so others may move in between. Ghost fields collect the messages handed to
  receivers, those whose deallocation succeeded and those whose deallocation was refused, and keep
  what the last \<open>push\<close> of each thread returned.
\<close>

section \<open>Steps\<close>

datatype mb_act =
    Outside
  | PushSeen ptr     \<comment> \<open>\<open>push\<close>, the flag was set; next: push into the queue\<close>
  | Pushing
  | PopSeen u32      \<comment> \<open>\<open>pop\<close>, the flag was set; next: pop from the queue in the mode\<close>
  | Popping
  | Closing          \<comment> \<open>\<open>setState(false)\<close>, the exchange has succeeded; next: store \<open>m_mailboxId\<close>\<close>
  | ClosingFlags     \<comment> \<open>next: store \<open>m_flags\<close>\<close>
  | Draining         \<comment> \<open>the loop of \<open>setState\<close>; next: \<open>empty\<close>, the first of its two loads\<close>
  | DrainHead u32    \<comment> \<open>\<open>m_head\<close> loaded; next: \<open>m_tail\<close>\<close>
  | DrainTail u32    \<comment> \<open>\<open>m_tail\<close> loaded; next: \<open>m_head\<close>\<close>
  | DrainSeen        \<comment> \<open>the queue was not empty; next: \<open>tryPop\<close>\<close>
  | DrainPopping
  | DrainFree ptr    \<comment> \<open>\<open>tryPop\<close> gave the message; next: \<open>deallocate\<close>\<close>

record mc_sys =
  mc_queue :: "ptr lfq_sys"
  mc_active :: bool
  mc_id :: u32
  mc_flags :: u32
  mc_heap :: heap
  mc_acts :: "mb_act list"
  mc_ret :: "bool option list"
  mc_got :: "ptr multiset"
  mc_freed :: "ptr multiset"
  mc_leaked :: "ptr multiset"

text \<open>A mailbox made by the constructor, with its id set and activated, and \<open>n\<close> threads outside its operations.\<close>

definition mc_new :: "u32 \<Rightarrow> u32 \<Rightarrow> nat \<Rightarrow> heap \<Rightarrow> mc_sys" where
  "mc_new mid flags n h = \<lparr>mc_queue = sys_init rx_cfg n, mc_active = True, mc_id = mid, mc_flags = flags,
     mc_heap = h, mc_acts = replicate n Outside, mc_ret = replicate n None,
     mc_got = {#}, mc_freed = {#}, mc_leaked = {#}\<rparr>"

definition act :: "nat \<Rightarrow> mb_act \<Rightarrow> mc_sys \<Rightarrow> mc_sys" where
  "act i a s = s\<lparr>mc_acts := (mc_acts s)[i := a]\<rparr>"

text \<open>Thread \<open>i\<close> returns from \<open>push\<close>.\<close>

definition push_returns :: "nat \<Rightarrow> bool \<Rightarrow> mc_sys \<Rightarrow> mc_sys" where
  "push_returns i r s = act i Outside (s\<lparr>mc_ret := (mc_ret s)[i := Some r]\<rparr>)"

text \<open>What the end of a queue call means for the operation it belongs to; \<open>r\<close> is the message popped.\<close>

definition mc_return :: "nat \<Rightarrow> ptr option \<Rightarrow> mc_sys \<Rightarrow> mc_sys" where
  "mc_return i r s =
     (case mc_acts s ! i of
        DrainPopping \<Rightarrow> (case r of
            Some adminMsg \<Rightarrow> act i (if adminMsg \<noteq> nullptr then DrainFree adminMsg else Draining) s
          | None \<Rightarrow> act i Draining s)
      | Popping \<Rightarrow> act i Outside (s\<lparr>mc_got := mc_got s + (case r of Some msg \<Rightarrow> {#msg#} | None \<Rightarrow> {#})\<rparr>)
      | _ \<Rightarrow> push_returns i True s)"

fun popped :: "ptr lfq \<Rightarrow> ptr pc \<Rightarrow> ptr option" where
  "popped q (PopTake t) = Some (q_elems q ! lfq_slot rx_cfg t)"
| "popped q _ = None"

text \<open>The test of \<open>empty\<close> on the two values loaded.\<close>

definition drain_test :: "u32 \<Rightarrow> u32 \<Rightarrow> mb_act" where
  "drain_test head tail = (if sint (head - tail) \<le> 0 then Outside else DrainSeen)"

text \<open>A step of thread \<open>i\<close>; \<open>setState(true)\<close> is kept apart. A deallocation that is undefined behaviour has
  no step.\<close>

inductive mc_step :: "nat \<Rightarrow> mc_sys \<Rightarrow> mc_sys \<Rightarrow> bool" for i s where
  push_load: "i < length (mc_acts s) \<Longrightarrow> mc_acts s ! i = Outside \<Longrightarrow> msg \<noteq> nullptr \<Longrightarrow>
    mc_step i s (if mc_active s then act i (PushSeen msg) s else push_returns i False s)"
| push_claim: "i < length (mc_acts s) \<Longrightarrow> mc_acts s ! i = PushSeen msg \<Longrightarrow>
    mc_step i s (act i Pushing (s\<lparr>mc_queue := claim_head i msg (mc_queue s)\<rparr>))"
| pop_load: "i < length (mc_acts s) \<Longrightarrow> mc_acts s ! i = Outside \<Longrightarrow>
    mc_step i s (if mc_active s then act i (PopSeen mode) s else s)"
| pop_claim: "i < length (mc_acts s) \<Longrightarrow> mc_acts s ! i = PopSeen mode \<Longrightarrow>
    mc_step i s (act i Popping (s\<lparr>mc_queue :=
      (if mode AND ITC_MODE_RECEIVE_NON_BLOCKING \<noteq> 0
       then goto i (TryPopLoop (q_tail (sys_q (mc_queue s)))) (mc_queue s)
       else claim_tail i (mc_queue s))\<rparr>))"
| deactivate: "i < length (mc_acts s) \<Longrightarrow> mc_acts s ! i = Outside \<Longrightarrow>
    mc_step i s (if mc_active s then act i Closing (s\<lparr>mc_active := False\<rparr>) else s)"
| close_id: "i < length (mc_acts s) \<Longrightarrow> mc_acts s ! i = Closing \<Longrightarrow>
    mc_step i s (act i ClosingFlags (s\<lparr>mc_id := ITC_MAILBOX_ID_DEFAULT\<rparr>))"
| close_flags: "i < length (mc_acts s) \<Longrightarrow> mc_acts s ! i = ClosingFlags \<Longrightarrow>
    mc_step i s (act i Draining (s\<lparr>mc_flags := ITC_FLAG_DEFAULT\<rparr>))"
| drain_head: "i < length (mc_acts s) \<Longrightarrow> mc_acts s ! i = Draining \<Longrightarrow>
    mc_step i s (act i (DrainHead (q_head (sys_q (mc_queue s)))) s)"
| drain_tail: "i < length (mc_acts s) \<Longrightarrow> mc_acts s ! i = Draining \<Longrightarrow>
    mc_step i s (act i (DrainTail (q_tail (sys_q (mc_queue s)))) s)"
| drain_check_tail: "i < length (mc_acts s) \<Longrightarrow> mc_acts s ! i = DrainHead h \<Longrightarrow>
    mc_step i s (act i (drain_test h (q_tail (sys_q (mc_queue s)))) s)"
| drain_check_head: "i < length (mc_acts s) \<Longrightarrow> mc_acts s ! i = DrainTail t \<Longrightarrow>
    mc_step i s (act i (drain_test (q_head (sys_q (mc_queue s))) t) s)"
| drain_pop: "i < length (mc_acts s) \<Longrightarrow> mc_acts s ! i = DrainSeen \<Longrightarrow>
    mc_step i s (act i DrainPopping (s\<lparr>mc_queue := goto i (TryPopLoop (q_tail (sys_q (mc_queue s)))) (mc_queue s)\<rparr>))"
| drain_free: "i < length (mc_acts s) \<Longrightarrow> mc_acts s ! i = DrainFree msg \<Longrightarrow>
    deallocate msg (mc_heap s) = Inr (ok, h) \<Longrightarrow>
    mc_step i s (act i Draining (s\<lparr>mc_heap := h,
      mc_freed := mc_freed s + (if ok then {#msg#} else {#}),
      mc_leaked := mc_leaked s + (if ok then {#} else {#msg#})\<rparr>))"
| inside: "i < length (mc_acts s) \<Longrightarrow> mc_acts s ! i \<in> {Pushing, Popping, DrainPopping} \<Longrightarrow>
    lfq_step rx_cfg i (mc_queue s) q' \<Longrightarrow> sys_pcs (mc_queue s) ! i \<noteq> Idle \<Longrightarrow>
    mc_step i s ((if is_Idle (sys_pcs q' ! i)
      then mc_return i (popped (sys_q (mc_queue s)) (sys_pcs (mc_queue s) ! i)) else id) (s\<lparr>mc_queue := q'\<rparr>))"

definition mc_activate :: "mc_sys \<Rightarrow> mc_sys" where
  "mc_activate s = s\<lparr>mc_active := True\<rparr>"

text \<open>The heap may be changed at any time by code outside the mailbox.\<close>

inductive mc_reachable :: "u32 \<Rightarrow> u32 \<Rightarrow> nat \<Rightarrow> heap \<Rightarrow> mc_sys \<Rightarrow> bool" for mid flags n h0 where
  start: "mc_reachable mid flags n h0 (mc_new mid flags n h0)"
| step: "mc_reachable mid flags n h0 s \<Longrightarrow> mc_step i s s' \<Longrightarrow> mc_reachable mid flags n h0 s'"
| activate: "mc_reachable mid flags n h0 s \<Longrightarrow> mc_reachable mid flags n h0 (mc_activate s)"
| heap: "mc_reachable mid flags n h0 s \<Longrightarrow> mc_reachable mid flags n h0 (s\<lparr>mc_heap := h\<rparr>)"

section \<open>The invariant\<close>

fun act_msg_ok :: "mb_act \<Rightarrow> bool" where
  "act_msg_ok (PushSeen msg) \<longleftrightarrow> msg \<noteq> nullptr"
| "act_msg_ok _ \<longleftrightarrow> True"

text \<open>A thread outside the queue is idle there, and one inside is in a call of the right kind.\<close>

fun act_at :: "mb_act \<Rightarrow> ptr pc \<Rightarrow> bool" where
  "act_at Pushing p \<longleftrightarrow> (case p of PushStore x h \<Rightarrow> True | _ \<Rightarrow> False)"
| "act_at Popping p \<longleftrightarrow> (case p of TryPopLoop t \<Rightarrow> True | TryPopCas t \<Rightarrow> True | PopTake t \<Rightarrow> True | _ \<Rightarrow> False)"
| "act_at DrainPopping p \<longleftrightarrow> (case p of TryPopLoop t \<Rightarrow> True | TryPopCas t \<Rightarrow> True | PopTake t \<Rightarrow> True | _ \<Rightarrow> False)"
| "act_at _ p \<longleftrightarrow> p = Idle"

text \<open>The message a draining thread is about to free, and the one a sender is about to push.\<close>

fun freeing :: "mb_act \<Rightarrow> ptr multiset" where
  "freeing (DrainFree msg) = {#msg#}"
| "freeing _ = {#}"

fun offering :: "mb_act \<Rightarrow> ptr multiset" where
  "offering (PushSeen msg) = {#msg#}"
| "offering _ = {#}"

definition mc_inv :: "mc_sys \<Rightarrow> bool" where
  "mc_inv s \<longleftrightarrow> lfq_sys_inv rx_cfg (mc_queue s) \<and> list_all act_msg_ok (mc_acts s) \<and>
     list_all2 act_at (mc_acts s) (sys_pcs (mc_queue s)) \<and> length (mc_ret s) = length (mc_acts s) \<and>
     gh_out (mc_queue s) = mc_got s + mc_freed s + mc_leaked s + gather freeing (mc_acts s)"

lemma act_sels [simp]:
  "mc_queue (act i a s) = mc_queue s" "mc_acts (act i a s) = (mc_acts s)[i := a]"
  "mc_active (act i a s) = mc_active s" "mc_got (act i a s) = mc_got s" "mc_freed (act i a s) = mc_freed s"
  "mc_leaked (act i a s) = mc_leaked s" "mc_heap (act i a s) = mc_heap s" "mc_ret (act i a s) = mc_ret s"
  by (simp_all add: act_def)

lemma push_returns_sels [simp]:
  "mc_queue (push_returns i r s) = mc_queue s" "mc_acts (push_returns i r s) = (mc_acts s)[i := Outside]"
  "mc_active (push_returns i r s) = mc_active s" "mc_got (push_returns i r s) = mc_got s"
  "mc_freed (push_returns i r s) = mc_freed s" "mc_leaked (push_returns i r s) = mc_leaked s"
  "mc_heap (push_returns i r s) = mc_heap s" "mc_ret (push_returns i r s) = (mc_ret s)[i := Some r]"
  by (simp_all add: push_returns_def)

lemma drain_test_ok [simp]:
  "act_msg_ok (drain_test h t)" "freeing (drain_test h t) = {#}" "offering (drain_test h t) = {#}"
  "act_at (drain_test h t) p \<longleftrightarrow> p = Idle"
  by (simp_all add: drain_test_def)

lemma mc_inv_new: "mc_inv (mc_new mid flags n h)"
  by (simp add: mc_inv_def mc_new_def lfq_sys_inv_init list_all_iff gather_replicate_empty)
    (simp add: sys_init_def list_all2_conv_all_nth)

lemma mc_inv_act:
  assumes "mc_inv s" "i < length (mc_acts s)" "act_msg_ok a" "act_at a (sys_pcs (mc_queue s) ! i)"
    and "freeing a = freeing (mc_acts s ! i)"
  shows "mc_inv (act i a s)"
  using assms list_all2_update_cong [of act_at "mc_acts s" "sys_pcs (mc_queue s)" a "sys_pcs (mc_queue s) ! i" i]
  by (simp add: mc_inv_def list_all_update gather_update_same)

lemma mc_inv_push_returns: "mc_inv (act i Outside s) \<Longrightarrow> mc_inv (push_returns i r s)"
  by (simp add: mc_inv_def)

lemma mc_inv_call:
  assumes "mc_inv s" "i < length (mc_acts s)" "lfq_step rx_cfg i (mc_queue s) q'"
    and "sys_pcs q' = (sys_pcs (mc_queue s))[i := p]" "gh_out q' = gh_out (mc_queue s)"
    and "act_msg_ok a" "act_at a p" "freeing a = freeing (mc_acts s ! i)"
  shows "mc_inv (act i a (s\<lparr>mc_queue := q'\<rparr>))"
proof -
  have "lfq_sys_inv rx_cfg q'" using assms(1,3) by (auto simp: mc_inv_def intro: lfq_step_inv)
  then show ?thesis
    using assms by (simp add: mc_inv_def list_all_update list_all2_update_cong gather_update_same)
qed

lemma mc_idle:
  assumes "mc_inv s" "i < length (mc_acts s)"
  shows "i < length (sys_pcs (mc_queue s))" "act_at (mc_acts s ! i) (sys_pcs (mc_queue s) ! i)"
    "act_msg_ok (mc_acts s ! i)"
  using assms by (auto simp: mc_inv_def list_all2_conv_all_nth list_all_length)

lemma freeing_update:
  assumes "i < length acts" "freeing (acts ! i) = {#}"
  shows "gather freeing (acts[i := a]) = gather freeing acts + freeing a"
  using assms by (intro gather_update_add) simp_all

lemma mc_inv_inside:
  assumes inv: "mc_inv s" and i: "i < length (mc_acts s)" "mc_acts s ! i \<in> {Pushing, Popping, DrainPopping}"
    and step: "lfq_step rx_cfg i (mc_queue s) q'" "sys_pcs (mc_queue s) ! i \<noteq> Idle"
  shows "mc_inv ((if is_Idle (sys_pcs q' ! i)
      then mc_return i (popped (sys_q (mc_queue s)) (sys_pcs (mc_queue s) ! i)) else id) (s\<lparr>mc_queue := q'\<rparr>))"
proof -
  note at = mc_idle [OF inv i(1)]
  have q': "lfq_sys_inv rx_cfg q'" using inv step(1) by (auto simp: mc_inv_def intro: lfq_step_inv)
  have acts: "list_all act_msg_ok (mc_acts s)" "list_all2 act_at (mc_acts s) (sys_pcs (mc_queue s))"
    "gh_out (mc_queue s) = mc_got s + mc_freed s + mc_leaked s + gather freeing (mc_acts s)"
    "length (mc_ret s) = length (mc_acts s)" using inv by (simp_all add: mc_inv_def)
  have upd: "list_all2 act_at (mc_acts s) ((sys_pcs (mc_queue s))[i := p])" if "act_at (mc_acts s ! i) p" for p
    using list_all2_update_cong [OF acts(2) that, of i] by simp
  have upd2: "list_all2 act_at ((mc_acts s)[i := a]) ((sys_pcs (mc_queue s))[i := p])" if "act_at a p" for a p
    using list_all2_update_cong [OF acts(2) that] .
  have free: "gather freeing ((mc_acts s)[i := a]) = gather freeing (mc_acts s) + freeing a" for a
    using i by (intro freeing_update) auto
  from step(1) show ?thesis
    by (cases rule: lfq_step.cases)
      (use i at step(2) q' acts upd upd2 free in \<open>auto simp: mc_inv_def mc_return_def list_all_update ac_simps\<close>)
qed

lemma mc_step_inv:
  assumes "mc_step i s s'" "mc_inv s"
  shows "mc_inv s'"
  using assms(1)
proof (cases rule: mc_step.cases)
  case (push_load msg)
  note at = mc_idle [OF assms(2) push_load(2)]
  have "mc_inv (act i (PushSeen msg) s)" "mc_inv (act i Outside s)"
    using at push_load by (auto intro!: mc_inv_act [OF assms(2)])
  then show ?thesis using push_load(1) by (simp add: mc_inv_push_returns)
next
  case (push_claim msg)
  note at = mc_idle [OF assms(2) push_claim(2)]
  then have "lfq_step rx_cfg i (mc_queue s) (claim_head i msg (mc_queue s))"
    using push_claim by (intro lfq_step.call_push) simp_all
  then show ?thesis unfolding push_claim(1)
    using push_claim
    by (intro mc_inv_call [OF assms(2) push_claim(2), where p = "PushStore msg (q_head (sys_q (mc_queue s)))"])
      simp_all
next
  case (pop_claim mode)
  note at = mc_idle [OF assms(2) pop_claim(2)]
  have "mc_inv (act i Popping (s\<lparr>mc_queue := goto i (TryPopLoop (q_tail (sys_q (mc_queue s)))) (mc_queue s)\<rparr>))"
    using at pop_claim
    by (intro mc_inv_call [OF assms(2) pop_claim(2) lfq_step.call_try_pop, where
          p = "TryPopLoop (q_tail (sys_q (mc_queue s)))"]) simp_all
  moreover have "mc_inv (act i Popping (s\<lparr>mc_queue := claim_tail i (mc_queue s)\<rparr>))"
    using at pop_claim
    by (intro mc_inv_call [OF assms(2) pop_claim(2) lfq_step.call_pop, where
          p = "PopTake (q_tail (sys_q (mc_queue s)))"]) simp_all
  ultimately show ?thesis using pop_claim(1) by simp
next
  case drain_pop
  note at = mc_idle [OF assms(2) drain_pop(2)]
  show ?thesis unfolding drain_pop(1) using at drain_pop
    by (intro mc_inv_call [OF assms(2) drain_pop(2) lfq_step.call_try_pop, where
          p = "TryPopLoop (q_tail (sys_q (mc_queue s)))"]) simp_all
next
  case (drain_free msg ok h)
  note at = mc_idle [OF assms(2) drain_free(2)]
  have "gather freeing (mc_acts s) = gather freeing ((mc_acts s)[i := Draining]) + {#msg#}"
    using drain_free(2,3) by (intro gather_update_sub) simp_all
  moreover have "list_all2 act_at ((mc_acts s)[i := Draining]) ((sys_pcs (mc_queue s))[i := sys_pcs (mc_queue s) ! i])"
    using assms(2) at drain_free(3) by (intro list_all2_update_cong) (simp_all add: mc_inv_def)
  then have "list_all2 act_at ((mc_acts s)[i := Draining]) (sys_pcs (mc_queue s))" by (simp only: list_update_id)
  ultimately show ?thesis unfolding drain_free(1)
    using assms(2) by (simp add: mc_inv_def list_all_update ac_simps)
next
  case (inside q')
  show ?thesis unfolding inside(1) using inside by (intro mc_inv_inside [OF assms(2)]) simp_all
next
  case deactivate
  have "mc_inv (s\<lparr>mc_active := False\<rparr>)" using assms(2) by (simp add: mc_inv_def)
  with deactivate mc_idle [OF assms(2) deactivate(2)] show ?thesis
    using assms(2) by (auto intro!: mc_inv_act)
next
  case close_id
  have "mc_inv (s\<lparr>mc_id := ITC_MAILBOX_ID_DEFAULT\<rparr>)" using assms(2) by (simp add: mc_inv_def)
  with close_id mc_idle [OF assms(2) close_id(2)] show ?thesis by (auto intro!: mc_inv_act)
next
  case close_flags
  have "mc_inv (s\<lparr>mc_flags := ITC_FLAG_DEFAULT\<rparr>)" using assms(2) by (simp add: mc_inv_def)
  with close_flags mc_idle [OF assms(2) close_flags(2)] show ?thesis by (auto intro!: mc_inv_act)
qed (use assms(2) mc_idle [OF assms(2), of i] in \<open>auto intro!: mc_inv_act\<close>)

lemma mc_inv_activate: "mc_inv s \<Longrightarrow> mc_inv (mc_activate s)" "mc_inv s \<Longrightarrow> mc_inv (s\<lparr>mc_heap := h\<rparr>)"
  by (simp_all add: mc_activate_def mc_inv_def)

lemma mc_reachable_inv: "mc_reachable mid flags n h0 s \<Longrightarrow> mc_inv s"
  by (induction rule: mc_reachable.induct) (auto intro: mc_inv_new mc_step_inv mc_inv_activate)

lemma inside_keeps:
  assumes "mc_inv s" "i < length (mc_acts s)" "mc_acts s ! i \<in> {Pushing, Popping, DrainPopping}"
    and "lfq_step rx_cfg i (mc_queue s) q'" "sys_pcs (mc_queue s) ! i \<noteq> Idle"
  shows "gh_in q' = gh_in (mc_queue s)"
  using assms(4) mc_idle(2) [OF assms(1,2)] assms(3,5)
  by (cases rule: lfq_step.cases) (auto simp: goto_def store_elem_def claim_tail_def take_elem_def Let_def)

section \<open>Every accepted message is in one place\<close>

text \<open>The messages in the custody of the mailbox: offered by a sender that has seen the flag, being
  stored, in the queue, or popped by a draining thread that has not freed it yet.\<close>

definition custody :: "mc_sys \<Rightarrow> ptr multiset" where
  "custody s = gather offering (mc_acts s) + gather pending (sys_pcs (mc_queue s)) +
     stored rx_cfg (sys_q (mc_queue s)) + gather freeing (mc_acts s)"

text \<open>Executions that keep the convention of the API: a thread sends a message that is allocated and
  that is not in the mailbox's custody already, and nobody else touches the blocks that are.\<close>

inductive mc_owned :: "u32 \<Rightarrow> u32 \<Rightarrow> nat \<Rightarrow> heap \<Rightarrow> mc_sys \<Rightarrow> bool" for mid flags n h0 where
  start: "mc_owned mid flags n h0 (mc_new mid flags n h0)"
| step: "mc_owned mid flags n h0 s \<Longrightarrow> mc_step i s s' \<Longrightarrow>
    (\<And>msg. mc_acts s ! i = Outside \<Longrightarrow> mc_acts s' ! i = PushSeen msg \<Longrightarrow>
       msg_ok (mc_heap s) msg \<and> msg \<notin># custody s) \<Longrightarrow> mc_owned mid flags n h0 s'"
| activate: "mc_owned mid flags n h0 s \<Longrightarrow> mc_owned mid flags n h0 (mc_activate s)"
| heap: "mc_owned mid flags n h0 s \<Longrightarrow> (\<And>p. p \<in># custody s \<Longrightarrow> block h p = block (mc_heap s) p) \<Longrightarrow>
    mc_owned mid flags n h0 (s\<lparr>mc_heap := h\<rparr>)"

lemma mc_owned_reachable: "mc_owned mid flags n h0 s \<Longrightarrow> mc_reachable mid flags n h0 s"
  by (induction rule: mc_owned.induct) (auto intro: mc_reachable.intros)

lemma custody_sum:
  assumes "mc_inv s"
  shows "custody s + mc_got s + mc_freed s + mc_leaked s = gh_in (mc_queue s) + gather offering (mc_acts s)"
  using assms by (simp add: mc_inv_def lfq_sys_inv_def custody_def ac_simps)

text \<open>What a step does with the messages and with the heap.\<close>

lemma offering_update:
  assumes "i < length acts" "offering (acts ! i) = {#}"
  shows "gather offering (acts[i := a]) = gather offering acts + offering a"
  using assms by (intro gather_update_add) simp_all

lemma mc_return_frame [simp]:
  "mc_queue (mc_return i r s) = mc_queue s" "mc_heap (mc_return i r s) = mc_heap s"
  "mc_freed (mc_return i r s) = mc_freed s" "mc_leaked (mc_return i r s) = mc_leaked s"
  "mc_got s \<subseteq># mc_got (mc_return i r s)"
  by (auto simp: mc_return_def split: mb_act.splits option.splits)

lemma mc_return_offering:
  assumes "i < length (mc_acts s)" "mc_acts s ! i \<in> {Pushing, Popping, DrainPopping}"
  shows "gather offering (mc_acts (mc_return i r s)) = gather offering (mc_acts s)"
  using assms by (auto simp: mc_return_def gather_update_same split: option.splits)

text \<open>What a step does with the messages: a load of the flag may take a new message into custody; any
  other step keeps the sum.\<close>

lemma mc_step_messages:
  assumes "mc_step i s s'" "mc_inv s"
  shows "(\<exists>msg. mc_acts s ! i = Outside \<and> mc_acts s' ! i = PushSeen msg \<and>
       gh_in (mc_queue s') + gather offering (mc_acts s') =
         gh_in (mc_queue s) + gather offering (mc_acts s) + {#msg#} \<and>
       mc_got s' = mc_got s \<and> mc_freed s' = mc_freed s \<and> mc_leaked s' = mc_leaked s) \<or>
     gh_in (mc_queue s') + gather offering (mc_acts s') = gh_in (mc_queue s) + gather offering (mc_acts s) \<and>
       mc_got s \<subseteq># mc_got s' \<and> mc_freed s \<subseteq># mc_freed s' \<and> mc_leaked s \<subseteq># mc_leaked s'"
  using assms(1)
proof (cases rule: mc_step.cases)
  case (push_load msg)
  then show ?thesis by (cases "mc_active s") (simp_all add: offering_update gather_update_same)
next
  case (push_claim msg)
  then have "gather offering (mc_acts s) = gather offering ((mc_acts s)[i := Pushing]) + {#msg#}"
    by (intro gather_update_sub) simp_all
  then show ?thesis using push_claim by (simp add: claim_head_def goto_def Let_def)
next
  case (inside q')
  note keeps = inside_keeps [OF assms(2) inside(2-5)]
  then show ?thesis using inside(1-3)
    mc_return_offering [of i "s\<lparr>mc_queue := q'\<rparr>"]
    mc_return_frame(5) [of "s\<lparr>mc_queue := q'\<rparr>" i] by simp
qed (auto simp: goto_def claim_tail_def Let_def gather_update_same)

lemma mc_step_heap:
  assumes "mc_step i s s'"
  shows "(\<exists>msg ok. mc_acts s ! i = DrainFree msg \<and> deallocate msg (mc_heap s) = Inr (ok, mc_heap s') \<and>
      mc_freed s' = mc_freed s + (if ok then {#msg#} else {#}) \<and>
      mc_leaked s' = mc_leaked s + (if ok then {#} else {#msg#})) \<or>
    (\<forall>msg. mc_acts s ! i \<noteq> DrainFree msg) \<and> mc_heap s' = mc_heap s \<and> mc_freed s' = mc_freed s \<and> mc_leaked s' = mc_leaked s"
  using assms by (cases rule: mc_step.cases) auto

definition owned_inv :: "mc_sys \<Rightarrow> bool" where
  "owned_inv s \<longleftrightarrow> mc_inv s \<and> (\<forall>p. count (custody s) p \<le> 1) \<and> (\<forall>p \<in># custody s. msg_ok (mc_heap s) p) \<and>
     mc_leaked s = {#}"

lemma in_custody_freeing:
  "i < length (mc_acts s) \<Longrightarrow> mc_acts s ! i = DrainFree msg \<Longrightarrow> msg \<in># custody s"
  by (auto simp: custody_def gather_nth)

lemma mc_step_in_range: "mc_step i s s' \<Longrightarrow> i < length (mc_acts s)"
  by (cases rule: mc_step.cases) auto

text \<open>A deallocation in the loop frees the message.\<close>

lemma owned_free:
  assumes "owned_inv s" "i < length (mc_acts s)" "mc_acts s ! i = DrainFree msg"
  shows "deallocate msg (mc_heap s) = Inr (True, freed msg (mc_heap s))"
  using assms in_custody_freeing by (auto simp: owned_inv_def intro: deallocate_msg_ok)

lemma owned_step_frees:
  assumes "owned_inv s" "mc_step i s s'"
  shows "mc_leaked s' = {#}"
    "block (mc_heap s') p = (if p \<in># mc_freed s' - mc_freed s then None else block (mc_heap s) p)"
proof -
  note i = mc_step_in_range [OF assms(2)]
  from mc_step_heap [OF assms(2)] show "mc_leaked s' = {#}"
    "block (mc_heap s') p = (if p \<in># mc_freed s' - mc_freed s then None else block (mc_heap s) p)"
    using owned_free [OF assms(1) i] assms(1) by (auto simp: owned_inv_def freed_def)
qed

lemma owned_inv_step:
  assumes "owned_inv s" "mc_step i s s'"
    and new: "\<And>msg. mc_acts s ! i = Outside \<Longrightarrow> mc_acts s' ! i = PushSeen msg \<Longrightarrow>
       msg_ok (mc_heap s) msg \<and> msg \<notin># custody s"
  shows "owned_inv s'"
proof -
  have inv: "mc_inv s" "mc_inv s'" using assms(1) mc_step_inv [OF assms(2)] by (simp_all add: owned_inv_def)
  note sums = custody_sum [OF inv(1)] custody_sum [OF inv(2)]
  note old = owned_step_frees [OF assms(1,2)]
  consider (new) msg where "mc_acts s ! i = Outside" "mc_acts s' ! i = PushSeen msg" "mc_freed s' = mc_freed s"
      "custody s' = custody s + {#msg#}"
    | (moved) "custody s = custody s' + (mc_got s' - mc_got s) + (mc_freed s' - mc_freed s)"
  proof -
    have none: "mc_leaked s = {#}" "mc_leaked s' = {#}" using assms(1) old(1) by (simp_all add: owned_inv_def)
    from mc_step_messages [OF assms(2) inv(1)] show ?thesis
    proof (elim disjE exE conjE)
      fix msg
      assume "mc_acts s ! i = Outside" "mc_acts s' ! i = PushSeen msg" "mc_freed s' = mc_freed s"
        "mc_got s' = mc_got s" and sum: "gh_in (mc_queue s') + gather offering (mc_acts s') =
          gh_in (mc_queue s) + gather offering (mc_acts s) + {#msg#}"
      moreover from this have "custody s' + mc_got s + mc_freed s = custody s + {#msg#} + mc_got s + mc_freed s"
        using sums none by simp
      then have "custody s' = custody s + {#msg#}" by (simp only: add_right_cancel)
      ultimately show ?thesis by (intro that(1))
    next
      assume sum: "gh_in (mc_queue s') + gather offering (mc_acts s') = gh_in (mc_queue s) + gather offering (mc_acts s)"
        and le: "mc_got s \<subseteq># mc_got s'" "mc_freed s \<subseteq># mc_freed s'"
      from le obtain g f where "mc_got s' = mc_got s + g" "mc_freed s' = mc_freed s + f"
        by (auto simp: mset_subset_eq_exists_conv)
      moreover from this have "custody s + (mc_got s + mc_freed s) = custody s' + g + f + (mc_got s + mc_freed s)"
        using sums none sum by (simp add: ac_simps)
      then have "custody s = custody s' + g + f" by (simp only: add_right_cancel)
      ultimately show ?thesis by (intro that(2)) simp
    qed
  qed
  then show ?thesis
  proof cases
    case (new msg)
    then have "msg_ok (mc_heap s) msg" "msg \<notin># custody s" using assms(3) by blast+
    moreover have "block (mc_heap s') p = block (mc_heap s) p" for p using old(2) new(3) by simp
    ultimately show ?thesis using assms(1) inv(2) new(4) old(1)
      by (auto simp: owned_inv_def msg_ok_def not_in_iff)
  next
    case moved
    have "block (mc_heap s') p = block (mc_heap s) p" if "p \<in># custody s'" for p
    proof -
      have "count (custody s) p \<le> 1" using assms(1) by (simp add: owned_inv_def)
      moreover have "0 < count (custody s') p" using that by simp
      moreover have "count (custody s) p = count (custody s') p + count (mc_got s' - mc_got s) p +
          count (mc_freed s' - mc_freed s) p" by (subst moved) (simp only: count_union)
      ultimately have "count (mc_freed s' - mc_freed s) p = 0" by linarith
      then have "p \<notin># mc_freed s' - mc_freed s" by (simp only: not_in_iff)
      then show ?thesis using old(2) by simp
    qed
    moreover have "custody s' \<subseteq># custody s" unfolding moved by simp
    moreover have "count (custody s') p \<le> 1" for p
      using assms(1) mset_subset_eq_count [OF \<open>custody s' \<subseteq># custody s\<close>, of p]
      by (auto simp: owned_inv_def intro: le_trans)
    ultimately show ?thesis using assms(1) inv(2) old(1) mset_subset_eqD
      by (fastforce simp: owned_inv_def msg_ok_def)
  qed
qed

lemma mc_owned_inv: "mc_owned mid flags n h0 s \<Longrightarrow> owned_inv s"
proof (induction rule: mc_owned.induct)
  case start
  have "custody (mc_new mid flags n h0) = {#}"
    by (simp add: custody_def mc_new_def sys_init_def lfq_new_def stored_def gather_replicate_empty)
  moreover have "mc_leaked (mc_new mid flags n h0) = {#}" by (simp add: mc_new_def)
  ultimately show ?case by (simp add: owned_inv_def mc_inv_new)
next
  case (step s i s')
  show ?case by (rule owned_inv_step [OF step.IH step.hyps(2)]) (rule step.hyps(3))
next
  case (activate s)
  have "custody (mc_activate s) = custody s" "mc_heap (mc_activate s) = mc_heap s"
    "mc_leaked (mc_activate s) = mc_leaked s" by (simp_all add: custody_def mc_activate_def)
  with activate mc_inv_activate(1) [of s] show ?case by (simp add: owned_inv_def)
next
  case (heap s h)
  have "custody (s\<lparr>mc_heap := h\<rparr>) = custody s" by (simp add: custody_def)
  with heap mc_inv_activate(2) [of s h] show ?case by (simp add: owned_inv_def msg_ok_def)
qed

text \<open>C8: However senders, receivers and threads that deactivate or activate a mailbox interleave, as
  long as senders send allocated messages that the mailbox does not hold and nobody else touches
  those it holds: every message accepted is in exactly one place: delivered to one receiver,
  freed by one deactivation, popped by a deactivation that frees it next, in the queue, or in
  the hands of the sender that is storing it. The messages not yet delivered or freed are
  intact, allocated and all different, each deallocation in the loop of setState succeeds, so
  that none leaks, and a step of the mailbox frees exactly the blocks it reports as freed and
  changes no other.\<close>

theorem mailbox_messages_accounted:
  assumes "mc_owned mid flags n h0 s"
  shows "gh_in (mc_queue s) = mc_got s + mc_freed s + gather freeing (mc_acts s) +
      stored rx_cfg (sys_q (mc_queue s)) + gather pending (sys_pcs (mc_queue s)) \<and>
    (\<forall>p. count (custody s) p \<le> 1) \<and> (\<forall>p \<in># custody s. msg_ok (mc_heap s) p) \<and> mc_leaked s = {#} \<and>
    (\<forall>i msg. i < length (mc_acts s) \<longrightarrow> mc_acts s ! i = DrainFree msg \<longrightarrow>
       deallocate msg (mc_heap s) = Inr (True, freed msg (mc_heap s))) \<and>
    (\<forall>i s' p. mc_step i s s' \<longrightarrow>
       block (mc_heap s') p = (if p \<in># mc_freed s' - mc_freed s then None else block (mc_heap s) p))"
proof -
  have inv: "owned_inv s" using assms by (rule mc_owned_inv)
  then have "mc_inv s" "mc_leaked s = {#}" by (simp_all add: owned_inv_def)
  then have "gh_in (mc_queue s) = mc_got s + mc_freed s + gather freeing (mc_acts s) +
      stored rx_cfg (sys_q (mc_queue s)) + gather pending (sys_pcs (mc_queue s))"
    by (simp add: mc_inv_def lfq_sys_inv_def)
  moreover have "\<forall>i msg. i < length (mc_acts s) \<longrightarrow> mc_acts s ! i = DrainFree msg \<longrightarrow>
       deallocate msg (mc_heap s) = Inr (True, freed msg (mc_heap s))"
    using owned_free [OF inv] by blast
  moreover have "\<forall>i s' p. mc_step i s s' \<longrightarrow>
       block (mc_heap s') p = (if p \<in># mc_freed s' - mc_freed s then None else block (mc_heap s) p)"
    using owned_step_frees(2) [OF inv] by blast
  ultimately show ?thesis using inv unfolding owned_inv_def by blast
qed

section \<open>Deactivation that meets another operation\<close>

text \<open>A sender that has read the flag before the deactivation pushes after it: thread 0 sends, thread 1
  deactivates and has returned.\<close>

definition late_start :: "ptr \<Rightarrow> heap \<Rightarrow> mc_sys" where
  "late_start msg h =
     (let s1 = act 0 (PushSeen msg) (mc_new 7 0 2 h);
          s2 = act 1 Closing (s1\<lparr>mc_active := False\<rparr>);
          s3 = act 1 ClosingFlags (s2\<lparr>mc_id := ITC_MAILBOX_ID_DEFAULT\<rparr>);
          s4 = act 1 Draining (s3\<lparr>mc_flags := ITC_FLAG_DEFAULT\<rparr>);
          s5 = act 1 (DrainHead 0) s4
      in act 1 Outside s5)"

lemma custody_new_act: "i < n \<Longrightarrow> custody (act i (PushSeen msg) (mc_new mid flags n h)) = {#msg#}"
  by (simp add: custody_def mc_new_def sys_init_def lfq_new_def stored_def gather_replicate_empty
      offering_update freeing_update)

lemma late_start_owned:
  assumes "msg_ok h msg"
  shows "mc_owned 7 0 2 h (late_start msg h)"
proof -
  let ?s0 = "mc_new 7 0 2 h"
  let ?s1 = "act 0 (PushSeen msg) ?s0"
  let ?s2 = "act 1 Closing (?s1\<lparr>mc_active := False\<rparr>)"
  let ?s3 = "act 1 ClosingFlags (?s2\<lparr>mc_id := ITC_MAILBOX_ID_DEFAULT\<rparr>)"
  let ?s4 = "act 1 Draining (?s3\<lparr>mc_flags := ITC_FLAG_DEFAULT\<rparr>)"
  let ?s5 = "act 1 (DrainHead 0) ?s4"
  let ?s6 = "act 1 Outside ?s5"
  have a: "mc_acts ?s0 = [Outside, Outside]" "mc_active ?s0" "mc_heap ?s0 = h"
    "q_head (sys_q (mc_queue ?s0)) = 0" "q_tail (sys_q (mc_queue ?s0)) = 0"
    by (simp_all add: mc_new_def sys_init_def numeral_2_eq_2 lfq_new_def)
  have "custody ?s0 = {#}"
    by (simp add: custody_def mc_new_def sys_init_def lfq_new_def stored_def gather_replicate_empty)
  have quiet: "mc_owned 7 0 2 h s'" if "mc_owned 7 0 2 h s" "mc_step 1 s s'" "\<And>msg. mc_acts s' ! 1 \<noteq> PushSeen msg"
    for s s'
    using mc_owned.step [OF that(1,2)] that(3) by blast
  have "mc_owned 7 0 2 h ?s1"
    using mc_owned.step [OF mc_owned.start [of 7 0 2 h], of 0 ?s1] mc_step.push_load [of 0 ?s0 msg] a assms
      \<open>custody ?s0 = {#}\<close> by (simp add: msg_ok_def)
  then have "mc_owned 7 0 2 h ?s2" using quiet [of ?s1 ?s2] mc_step.deactivate [of 1 ?s1] a by simp
  then have "mc_owned 7 0 2 h ?s3" using quiet [of ?s2 ?s3] mc_step.close_id [of 1 ?s2] a by simp
  then have "mc_owned 7 0 2 h ?s4" using quiet [of ?s3 ?s4] mc_step.close_flags [of 1 ?s3] a by simp
  then have "mc_owned 7 0 2 h ?s5" using quiet [of ?s4 ?s5] mc_step.drain_head [of 1 ?s4] a by simp
  then have "mc_owned 7 0 2 h ?s6"
    using quiet [of ?s5 ?s6] mc_step.drain_check_tail [of 1 ?s5 0] a by (simp add: drain_test_def)
  then show ?thesis by (simp add: late_start_def Let_def)
qed

theorem mailbox_messages_accounted_witness:
  "custody (late_start 0x1000 (demo_heap\<lparr>blocks := [0x1000 \<mapsto> fresh_bytes 7 4 (\<lambda>_. 0)]\<rparr>)) = {#0x1000#} \<and>
   (\<forall>p. count (custody (late_start 0x1000 (demo_heap\<lparr>blocks := [0x1000 \<mapsto> fresh_bytes 7 4 (\<lambda>_. 0)]\<rparr>))) p \<le> 1)"
proof -
  let ?h = "demo_heap\<lparr>blocks := [0x1000 \<mapsto> fresh_bytes 7 4 (\<lambda>_. 0)]\<rparr>"
  have "msg_ok ?h 0x1000" by (simp add: msg_ok_def msg_bytes_ok_fresh itc_const)
  from mailbox_messages_accounted [OF late_start_owned [OF this]] show ?thesis
    by (simp add: late_start_def Let_def custody_def mc_new_def sys_init_def lfq_new_def stored_def
        gather_replicate_empty numeral_2_eq_2) (simp add: gather_def act_def)
qed

fun not_pushing :: "mb_act \<Rightarrow> bool" where
  "not_pushing (PushSeen msg) = False"
| "not_pushing Pushing = False"
| "not_pushing _ = True"

text \<open>Whatever the threads do, short of activating the mailbox again, and whatever becomes of the heap.\<close>

definition mc_run :: "mc_sys \<Rightarrow> mc_sys \<Rightarrow> bool" where
  "mc_run = (\<lambda>s s'. (\<exists>i. mc_step i s s') \<or> (\<exists>h. s' = s\<lparr>mc_heap := h\<rparr>))\<^sup>*\<^sup>*"

definition deserted :: "mc_sys \<Rightarrow> bool" where
  "deserted s \<longleftrightarrow> mc_inv s \<and> \<not> mc_active s \<and> list_all not_pushing (mc_acts s) \<and>
     (\<forall>j < unat (lq_size rx_cfg). q_elems (sys_q (mc_queue s)) ! j = nullptr)"

lemma not_pushing_test [simp]: "not_pushing (drain_test h t)"
  by (simp add: drain_test_def)

lemma deserted_step:
  assumes "mc_step i s s'" "deserted s"
  shows "deserted s' \<and> (sys_pcs (mc_queue s) ! k = PopTake t \<longrightarrow> sys_pcs (mc_queue s') ! k = PopTake t)"
proof -
  have inv: "mc_inv s" "mc_inv s'" using assms(2) mc_step_inv [OF assms(1)] by (simp_all add: deserted_def)
  from assms(1) show ?thesis
  proof (cases rule: mc_step.cases)
    case (inside q')
    note at = mc_idle [OF inv(1) inside(2)]
    have np: "not_pushing (mc_acts s ! i)" "list_all not_pushing (mc_acts s)" "\<not> mc_active s"
      using assms(2) inside(2) by (simp_all add: deserted_def list_all_length)
    have none: "q_elems (sys_q (mc_queue s)) ! lfq_slot rx_cfg w = nullptr" for w
      using assms(2) lfq_slot_less [OF rx_cfg_ok, of w] by (simp add: deserted_def)
    have "q_elems (sys_q q') = q_elems (sys_q (mc_queue s)) \<and>
      (sys_pcs (mc_queue s) ! k = PopTake t \<longrightarrow> sys_pcs q' ! k = PopTake t)"
      using inside(4) at np(1) inside(3) none
      by (cases rule: lfq_step.cases) (auto simp: nth_list_update split: if_splits)
    then show ?thesis
      using assms(2) np inside(1) inv
      by (auto simp: deserted_def mc_return_def list_all_update push_returns_def split: mb_act.splits option.splits)
  qed (use assms(2) inv mc_idle [OF inv(1), of i] in
      \<open>auto simp: deserted_def list_all_update list_all_length nth_list_update\<close>)
qed

lemma stored_empty:
  assumes "lfq_sys_inv c s" "stored c (sys_q s) = {#}" "j < unat (lq_size c)"
  shows "q_elems (sys_q s) ! j = lq_nil c"
proof -
  have len: "length (q_elems (sys_q s)) = unat (lq_size c)" using assms(1) by (simp add: lfq_sys_inv_def)
  have "size (occupied c (sys_q s)) = 0" using size_stored_occupied [of c "sys_q s"] assms(2) by simp
  then have "count (occupied c (sys_q s)) j = 0" by simp
  then show ?thesis using len assms(3) unfolding count_occupied by (metis zero_neq_one)
qed

lemma deserted_heap: "deserted s \<Longrightarrow> deserted (s\<lparr>mc_heap := h\<rparr>)"
  by (simp add: deserted_def mc_inv_activate)

text \<open>C36: A receiver that waits in a mailbox when it is deactivated waits for ever: once the mailbox is
  inactive, its queue empty and no sender past the check of the flag, then whatever the threads
  do, short of activating the mailbox again, a thread that waits in a blocking pop stays there.\<close>

theorem deactivation_strands_receiver:
  assumes "mc_reachable mid flags n h0 s" "\<not> mc_active s" "list_all not_pushing (mc_acts s)"
    and "stored rx_cfg (sys_q (mc_queue s)) = {#}" "sys_pcs (mc_queue s) ! k = PopTake t" "mc_run s s'"
  shows "sys_pcs (mc_queue s') ! k = PopTake t \<and> \<not> mc_active s'"
proof -
  have inv: "mc_inv s" by (rule mc_reachable_inv [OF assms(1)])
  then have "\<forall>j < unat (lq_size rx_cfg). q_elems (sys_q (mc_queue s)) ! j = nullptr"
    using stored_empty [of rx_cfg "mc_queue s"] assms(4) by (simp add: mc_inv_def)
  then have "deserted s"
    using inv assms(2,3) by (simp add: deserted_def)
  from assms(6) this assms(5) have "deserted s' \<and> sys_pcs (mc_queue s') ! k = PopTake t"
    unfolding mc_run_def
  proof (induction rule: rtranclp_induct)
    case (step y z)
    then show ?case using deserted_step deserted_heap by fastforce
  qed simp
  then show ?thesis by (simp add: deserted_def)
qed

text \<open>Thread 0 waits in \<open>pop\<close>; thread 1 deactivates the mailbox.\<close>

definition demo_stranded :: mc_sys where
  "demo_stranded =
     (let s1 = act 0 (PopSeen 0) (mc_new 7 0 2 demo_heap);
          s2 = act 0 Popping (s1\<lparr>mc_queue := claim_tail 0 (mc_queue s1)\<rparr>)
      in act 1 Closing (s2\<lparr>mc_active := False\<rparr>))"

lemma demo_stranded_reachable: "mc_reachable 7 0 2 demo_heap demo_stranded"
proof -
  let ?s0 = "mc_new 7 0 2 demo_heap"
  let ?s1 = "act 0 (PopSeen 0) ?s0"
  let ?s2 = "act 0 Popping (?s1\<lparr>mc_queue := claim_tail 0 (mc_queue ?s1)\<rparr>)"
  have a: "mc_acts ?s0 = [Outside, Outside]" "mc_active ?s0"
    by (simp_all add: mc_new_def numeral_2_eq_2)
  note step = mc_reachable.step [of 7 0 2 demo_heap]
  have "mc_reachable 7 0 2 demo_heap ?s1"
    using step [OF mc_reachable.start, of 0 ?s1] mc_step.pop_load [of 0 ?s0 0] a by simp
  then have "mc_reachable 7 0 2 demo_heap ?s2"
    using step [of ?s1 0 ?s2] mc_step.pop_claim [of 0 ?s1 0] a by simp
  then show ?thesis
    using step [of ?s2 1 demo_stranded] mc_step.deactivate [of 1 ?s2] a
    by (simp add: demo_stranded_def Let_def act_def)
qed

theorem deactivation_strands_receiver_witness:
  "{s'. mc_run demo_stranded s'} \<subseteq> {s'. sys_pcs (mc_queue s') ! 0 = PopTake 0}"
proof (intro Collect_mono impI)
  fix s' assume run: "mc_run demo_stranded s'"
  have acts: "\<not> mc_active demo_stranded" "list_all not_pushing (mc_acts demo_stranded)"
    "sys_pcs (mc_queue demo_stranded) ! 0 = PopTake 0"
    by (simp_all add: demo_stranded_def Let_def mc_new_def sys_init_def lfq_new_def numeral_2_eq_2 act_def
        claim_tail_def goto_def)
  have "stored rx_cfg (sys_q (mc_queue demo_stranded)) = {#}"
    by (simp add: demo_stranded_def Let_def mc_new_def sys_init_def lfq_new_def stored_def gather_replicate_empty)
  from deactivation_strands_receiver [OF demo_stranded_reachable acts(1,2) this acts(3) run]
  show "sys_pcs (mc_queue s') ! 0 = PopTake 0" ..
qed

section \<open>A message that is pushed too late\<close>

text \<open>Only thread \<open>i\<close> is inside an operation, past the check of the flag with message \<open>msg\<close>, or has
  pushed it already.\<close>

definition late_message :: "nat \<Rightarrow> ptr \<Rightarrow> mc_sys \<Rightarrow> bool" where
  "late_message i msg s \<longleftrightarrow> mc_inv s \<and> \<not> mc_active s \<and> i < length (mc_acts s) \<and>
     (\<forall>j < length (mc_acts s). j \<noteq> i \<longrightarrow> mc_acts s ! j = Outside) \<and>
     mc_acts s ! i \<in> {PushSeen msg, Pushing, Outside} \<and>
     stored rx_cfg (sys_q (mc_queue s)) + gather pending (sys_pcs (mc_queue s)) =
       (if mc_acts s ! i = PushSeen msg then {#} else {#msg#})"

lemma nothing_freeing: "(\<And>j. j < length acts \<Longrightarrow> freeing (acts ! j) = {#}) \<Longrightarrow> gather freeing acts = {#}"
  by (intro gather_all_empty) (auto simp: in_set_conv_nth)

lemma late_message_step:
  assumes "late_message i msg s" "mc_step k s s'"
  shows "late_message i msg s' \<and> mc_got s' = mc_got s \<and> mc_freed s' = mc_freed s \<and> mc_leaked s' = mc_leaked s"
proof -
  have inv: "mc_inv s" "mc_inv s'" using assms mc_step_inv by (auto simp: late_message_def)
  have off: "\<not> mc_active s" "i < length (mc_acts s)" using assms(1) by (simp_all add: late_message_def)
  have others: "\<And>j. j < length (mc_acts s) \<Longrightarrow> j \<noteq> i \<Longrightarrow> mc_acts s ! j = Outside"
    and own: "mc_acts s ! i \<in> {PushSeen msg, Pushing, Outside}"
    using assms(1) by (simp_all add: late_message_def)
  have k: "k < length (mc_acts s)" using assms(2) by (rule mc_step_in_range)
  have at: "mc_acts s ! k = Outside \<or> k = i \<and> (mc_acts s ! i = PushSeen msg \<or> mc_acts s ! i = Pushing)"
    using others [OF k] own by (cases "k = i") auto
  have *: "\<not> mc_active s' \<and> mc_got s' = mc_got s \<and> mc_freed s' = mc_freed s \<and> mc_leaked s' = mc_leaked s \<and>
    (mc_acts s' = mc_acts s \<and> gh_in (mc_queue s') = gh_in (mc_queue s) \<or>
     k = i \<and> mc_acts s ! i = PushSeen msg \<and> mc_acts s' = (mc_acts s)[i := Pushing] \<and>
       gh_in (mc_queue s') = gh_in (mc_queue s) + {#msg#} \<or>
     k = i \<and> mc_acts s ! i = Pushing \<and> mc_acts s' = (mc_acts s)[i := Outside] \<and>
       gh_in (mc_queue s') = gh_in (mc_queue s))"
    using assms(2)
  proof (cases rule: mc_step.cases)
    case (push_claim m)
    with at off show ?thesis by (auto simp: claim_head_def goto_def Let_def)
  next
    case (inside q')
    with at have i: "k = i" "mc_acts s ! i = Pushing" by auto
    have "gh_in q' = gh_in (mc_queue s)" using inside_keeps [OF inv(1) inside(2-5)] .
    with inside i off show ?thesis by (auto simp: mc_return_def)
  qed (use at off in \<open>auto simp: list_update_same_conv\<close>)
  have quiet: "freeing (mc_acts s ! j) = {#}" if "j < length (mc_acts s)" for j
    using others [OF that] own by (cases "j = i") auto
  then have "gather freeing (mc_acts s) = {#}" by (rule nothing_freeing)
  moreover from this have "gather freeing (mc_acts s') = {#}"
    using * freeing_update [OF off(2) quiet [OF off(2)]] by auto
  ultimately have none: "gather freeing (mc_acts s) = {#}" "gather freeing (mc_acts s') = {#}" by blast+
  let ?rest = "mc_got s + mc_freed s + mc_leaked s"
  have "gh_in (mc_queue s) = ?rest + (stored rx_cfg (sys_q (mc_queue s)) + gather pending (sys_pcs (mc_queue s)))"
    "gh_in (mc_queue s') = ?rest + (stored rx_cfg (sys_q (mc_queue s')) + gather pending (sys_pcs (mc_queue s')))"
    using inv none * by (simp_all add: mc_inv_def lfq_sys_inv_def)
  moreover have "stored rx_cfg (sys_q (mc_queue s)) + gather pending (sys_pcs (mc_queue s)) =
       (if mc_acts s ! i = PushSeen msg then {#} else {#msg#})" using assms(1) by (simp add: late_message_def)
  ultimately have "stored rx_cfg (sys_q (mc_queue s')) + gather pending (sys_pcs (mc_queue s')) =
       (if mc_acts s' ! i = PushSeen msg then {#} else {#msg#})"
    using * off(2) by (auto split: if_splits)
  with * inv(2) others own off show ?thesis
    by (auto simp: late_message_def nth_list_update)
qed

lemma late_message_run:
  assumes "mc_run s s'" "late_message i msg s"
  shows "late_message i msg s' \<and> mc_got s' = mc_got s \<and> mc_freed s' = mc_freed s \<and> mc_leaked s' = mc_leaked s"
  using assms(1) unfolding mc_run_def
proof (induction rule: rtranclp_induct)
  case (step y z)
  from step.hyps(2) show ?case
  proof (elim disjE exE)
    fix k assume "mc_step k y z"
    with step.IH late_message_step [of i msg y k z] show ?thesis by simp
  next
    fix h assume "z = y\<lparr>mc_heap := h\<rparr>"
    with step.IH show ?thesis by (simp add: late_message_def mc_inv_activate)
  qed
qed (use assms(2) in simp)

text \<open>The push that has begun ends, and returns true.\<close>

lemma late_push_ends:
  assumes "late_message i msg s" "mc_acts s ! i = PushSeen msg"
  shows "\<exists>s'. mc_run s s' \<and> mc_acts s' ! i = Outside \<and> mc_ret s' ! i = Some True"
proof -
  have inv: "mc_inv s" and i: "i < length (mc_acts s)" and none: "stored rx_cfg (sys_q (mc_queue s)) = {#}"
    using assms by (auto simp: late_message_def)
  let ?h = "q_head (sys_q (mc_queue s))"
  let ?s1 = "act i Pushing (s\<lparr>mc_queue := claim_head i msg (mc_queue s)\<rparr>)"
  let ?q2 = "store_elem rx_cfg i msg ?h (mc_queue ?s1)"
  let ?s2 = "push_returns i True (?s1\<lparr>mc_queue := ?q2\<rparr>)"
  have pc: "i < length (sys_pcs (mc_queue s))" "length (mc_ret s) = length (mc_acts s)"
    using mc_idle [OF inv i] inv by (simp_all add: mc_inv_def)
  have slot: "q_elems (sys_q (mc_queue s)) ! lfq_slot rx_cfg ?h = nullptr"
    using stored_empty [of rx_cfg "mc_queue s" "lfq_slot rx_cfg ?h"] inv none lfq_slot_less [OF rx_cfg_ok, of ?h]
    by (simp add: mc_inv_def)
  have "mc_step i s ?s1" using i assms(2) by (rule mc_step.push_claim)
  moreover have "mc_step i ?s1 ?s2"
  proof -
    have "lfq_step rx_cfg i (mc_queue ?s1) ?q2"
      using pc(1) slot by (intro lfq_step.push_store) simp_all
    then show ?thesis using mc_step.inside [of i ?s1 ?q2] i pc(1) by (simp add: mc_return_def)
  qed
  ultimately have "mc_run s ?s2"
    unfolding mc_run_def by (intro rtranclp.rtrancl_into_rtrancl [OF r_into_rtranclp]) blast+
  then show ?thesis using i pc by (intro exI [of _ ?s2]) simp
qed

text \<open>C37: Deactivating a mailbox does not free a message that is being sent: in any state where setState
  has finished (the mailbox is inactive and its queue empty) and the only thread in an
  operation is a sender that had read the flag before, the push of its message can be completed
  and returns true; and whatever the threads do from there, short of activating the mailbox
  again, the message is with the sender, on its way into the queue or in the queue: no receiver
  gets it, and nobody frees it.\<close>

theorem deactivation_strands_message:
  assumes "mc_reachable mid flags n h0 s" "\<not> mc_active s" "stored rx_cfg (sys_q (mc_queue s)) = {#}"
    and "i < length (mc_acts s)" "mc_acts s ! i = PushSeen msg"
    and "\<forall>j < length (mc_acts s). j \<noteq> i \<longrightarrow> mc_acts s ! j = Outside"
  shows "(\<exists>s'. mc_run s s' \<and> mc_acts s' ! i = Outside \<and> mc_ret s' ! i = Some True \<and>
      stored rx_cfg (sys_q (mc_queue s')) = {#msg#}) \<and>
    (\<forall>s'. mc_run s s' \<longrightarrow> \<not> mc_active s' \<and> mc_got s' = mc_got s \<and> mc_freed s' = mc_freed s \<and>
      (if mc_acts s' ! i = PushSeen msg then stored rx_cfg (sys_q (mc_queue s')) = {#}
       else stored rx_cfg (sys_q (mc_queue s')) + gather pending (sys_pcs (mc_queue s')) = {#msg#}))"
proof -
  have inv: "mc_inv s" using assms(1) by (rule mc_reachable_inv)
  have idle: "sys_pcs (mc_queue s) ! j = Idle" if "j < length (mc_acts s)" for j
    using mc_idle(2) [OF inv that] assms(5,6) that by (cases "j = i") auto
  have "length (sys_pcs (mc_queue s)) = length (mc_acts s)"
    using inv by (auto simp: mc_inv_def dest: list_all2_lengthD)
  then have "gather pending (sys_pcs (mc_queue s)) = {#}"
    using idle by (intro gather_all_empty) (auto simp: in_set_conv_nth)
  then have late: "late_message i msg s" using inv assms by (simp add: late_message_def)
  have after: "\<not> mc_active s' \<and> mc_got s' = mc_got s \<and> mc_freed s' = mc_freed s \<and>
      (if mc_acts s' ! i = PushSeen msg then stored rx_cfg (sys_q (mc_queue s')) = {#}
       else stored rx_cfg (sys_q (mc_queue s')) + gather pending (sys_pcs (mc_queue s')) = {#msg#})"
    if "mc_run s s'" for s'
    using late_message_run [OF that late] by (auto simp: late_message_def)
  from late_push_ends [OF late assms(5)] obtain s' where
    s': "mc_run s s'" "mc_acts s' ! i = Outside" "mc_ret s' ! i = Some True" by blast
  have "late_message i msg s'" using late_message_run [OF s'(1) late] by blast
  then have late': "mc_inv s'" "\<And>j. j < length (mc_acts s') \<Longrightarrow> mc_acts s' ! j = Outside"
    using s'(2) by (auto simp: late_message_def)
  have "length (sys_pcs (mc_queue s')) = length (mc_acts s')"
    using late'(1) by (auto simp: mc_inv_def dest: list_all2_lengthD)
  then have "gather pending (sys_pcs (mc_queue s')) = {#}"
    using mc_idle(2) [OF late'(1)] late'(2) by (intro gather_all_empty) (auto simp: in_set_conv_nth)
  then have "stored rx_cfg (sys_q (mc_queue s')) = {#msg#}" using after [OF s'(1)] s'(2) by simp
  with s' after show ?thesis by blast
qed

theorem deactivation_strands_message_witness:
  "\<exists>s s'. mc_reachable 7 0 2 (demo_heap\<lparr>blocks := [0x1000 \<mapsto> fresh_bytes 7 4 (\<lambda>_. 0)]\<rparr>) s \<and> \<not> mc_active s \<and>
     mc_run s s' \<and> mc_ret s' ! 0 = Some True \<and> stored rx_cfg (sys_q (mc_queue s')) = {#0x1000#} \<and>
     mc_freed s' = {#}"
proof -
  let ?h = "demo_heap\<lparr>blocks := [0x1000 \<mapsto> fresh_bytes 7 4 (\<lambda>_. 0)]\<rparr>"
  let ?s = "late_start 0x1000 ?h"
  have "msg_ok ?h 0x1000" by (simp add: msg_ok_def msg_bytes_ok_fresh itc_const)
  then have r: "mc_reachable 7 0 2 ?h ?s" by (intro mc_owned_reachable late_start_owned)
  have s: "\<not> mc_active ?s" "stored rx_cfg (sys_q (mc_queue ?s)) = {#}" "mc_acts ?s = [PushSeen 0x1000, Outside]"
    "mc_freed ?s = {#}"
    by (simp_all add: late_start_def Let_def mc_new_def sys_init_def lfq_new_def stored_def
        gather_replicate_empty numeral_2_eq_2 act_def)
  have others: "\<forall>j < length (mc_acts ?s). j \<noteq> 0 \<longrightarrow> mc_acts ?s ! j = Outside"
    using s(3) by (simp add: less_Suc_eq_0_disj)
  from deactivation_strands_message [OF r s(1,2) _ _ others, of "0x1000"] s(3,4) r s(1)
  show ?thesis by auto
qed

end
