(* ===== verification/Mailbox_Tests.thy ===== *)
theory Mailbox_Tests
  imports Mailbox_Concurrent
begin

text \<open>
  \<open>itcMailboxTest.cc\<close>: \<open>test1\<close>, one thread that sends itself a message, and \<open>test4\<close>, ten senders and
  a receiver that deactivates the mailbox after 100 messages. The threads of \<open>test4\<close> move one
  access at a time as in \<open>Mailbox_Concurrent\<close>, on the heap the messages are in; a ghost field collects the messages whose pointer
  the macro \<open>PUSH\<close> overwrites although the mailbox refused them.
\<close>

section \<open>One thread\<close>

definition mailbox_test1 :: "heap \<Rightarrow> (bool \<times> heap) res" where
  "mailbox_test1 h =
     and_then (setState True (mbox_new ITC_FLAG_DEFAULT, h)) (\<lambda>(mbox, h).
     and_then (allocate 0xAAAABBBB (ucast ITC_MESSAGE_MSGNO_SIZE) h) (\<lambda>(sentMessage, h).
     and_then (mbox_push sentMessage mbox) (\<lambda>(_, mbox).
     and_then (mbox_pop ITC_MODE_DEFAULT mbox) (\<lambda>(msg, mbox).
       if msg \<noteq> sentMessage then and_then (mbox_destroy mbox h) (\<lambda>h. Inr (False, h))
       else and_then (deallocate msg h) (\<lambda>(_, h).
            and_then (mbox_destroy mbox h) (\<lambda>h. Inr (True, h)))))))"

lemma mailbox_test1_passes:
  assumes "can_alloc h 21"
  shows "\<exists>h'. mailbox_test1 h = Inr (True, h') \<and> blocks h' = blocks h"
proof -
  let ?m = "(mbox_new ITC_FLAG_DEFAULT)\<lparr>mb_active := True\<rparr>"
  let ?a = "addr_at h (allocs h)"
  let ?h1 = "h\<lparr>blocks := (blocks h)(?a := Some (fresh_bytes 0xAAAABBBB 4 (junk h))), allocs := allocs h + 1\<rparr>"
  have m: "setState True (mbox_new ITC_FLAG_DEFAULT, h) = Inr (?m, h)" "mbox_ok ?m" "mb_active ?m"
    "mbox_list ?m = []"
    by (simp_all add: setState_def mbox_new_def mbox_ok_def mbox_list_def lfq_new_ok lfq_new_list)
  have a: "?a \<noteq> nullptr" "block h ?a = None" using assms by (simp_all add: can_alloc_def)
  have alloc: "allocate 0xAAAABBBB (ucast ITC_MESSAGE_MSGNO_SIZE) h = Inr (?a, ?h1)"
    using allocate_bytes [of 4 h] assms by (simp add: itc_const)
  obtain m1 where m1: "mbox_push ?a ?m = Inr (True, m1)" "mbox_ok m1" "mb_active m1" "mbox_list m1 = [?a]"
    using mailbox_put_room [of ?m ?a] m a by auto
  obtain m2 where m2: "mbox_pop ITC_MODE_DEFAULT m1 = Inr (?a, m2)" "mbox_ok m2" "mb_active m2" "mbox_list m2 = []"
    using mailbox_get_some [of m1 ?a "[]" ITC_MODE_DEFAULT] m1 by auto
  have "msg_ok ?h1 ?a" using a by (simp add: msg_ok_def msg_bytes_ok_fresh itc_const)
  then have free: "deallocate ?a ?h1 = Inr (True, freed ?a ?h1)" by (rule deallocate_msg_ok)
  obtain q where q: "mb_queue m2 = Some q" "lfq_ok rx_cfg q" "lfq_list rx_cfg q = []"
    using m2(2,4) by (auto elim: mbox_okE)
  have "mbox_drain q (freed ?a ?h1) = Inr (q, freed ?a ?h1)"
    using q by (subst mbox_drain.simps) (simp add: lfq_empty_def lfq.size_of_zero_iff)
  then have "mbox_destroy m2 (freed ?a ?h1) = Inr (freed ?a ?h1)"
    using q m2(3) by (simp add: mbox_destroy_def setState_def with_queue_def Let_def)
  then have "mailbox_test1 h = Inr (True, freed ?a ?h1)"
    using m(1) alloc m1(1) m2(1) free by (simp add: mailbox_test1_def)
  moreover have "blocks (freed ?a ?h1) = blocks h" using a by (auto simp: freed_def)
  ultimately show ?thesis by blast
qed

section \<open>Shutdown: state and steps\<close>

definition NUMBER_OF_SENDERS :: nat where
  "NUMBER_OF_SENDERS = 10"

definition MESSAGES_PER_SENDER :: nat where
  "MESSAGES_PER_SENDER = 100"

datatype main_at = Receiving | Stopping | Joining

text \<open>\<open>sh_msgs\<close> holds the ten arrays \<open>messages0\<close> to \<open>messages9\<close>; thread 10 is the one that runs the test.\<close>

record shutdown =
  sh_mbox :: mc_sys
  sh_msgs :: "ptr list list"
  sh_i :: "nat list"
  sh_stop :: "bool list"
  sh_main :: main_at
  sh_toBeFree :: "ptr list"
  sh_lost :: "ptr multiset"

definition shutdown_new :: "ptr list list \<Rightarrow> heap \<Rightarrow> shutdown" where
  "shutdown_new msgs h = \<lparr>sh_mbox = mc_new ITC_MAILBOX_ID_DEFAULT ITC_FLAG_DEFAULT (NUMBER_OF_SENDERS + 1) h,
     sh_msgs = msgs, sh_i = replicate NUMBER_OF_SENDERS 0, sh_stop = replicate NUMBER_OF_SENDERS False,
     sh_main = Receiving, sh_toBeFree = [], sh_lost = {#}\<rparr>"

definition sending :: "nat \<Rightarrow> shutdown \<Rightarrow> bool" where
  "sending k s \<longleftrightarrow> sh_i s ! k < MESSAGES_PER_SENDER \<and> \<not> sh_stop s ! k"

definition next_message :: "nat \<Rightarrow> shutdown \<Rightarrow> ptr" where
  "next_message k s = sh_msgs s ! k ! (sh_i s ! k)"

text \<open>The macro \<open>PUSH\<close> once \<open>push\<close> has returned, and the end of the iteration.\<close>

definition PUSH_returned :: "nat \<Rightarrow> bool \<Rightarrow> shutdown \<Rightarrow> shutdown" where
  "PUSH_returned k ok s =
     s\<lparr>sh_stop := (if ok then sh_stop s else (sh_stop s)[k := True]),
       sh_msgs := (sh_msgs s)[k := (sh_msgs s ! k)[sh_i s ! k := nullptr]],
       sh_i := (sh_i s)[k := sh_i s ! k + 1]\<rparr>"

text \<open>The message a pop takes with its last access.\<close>

fun taken_msgs :: "ptr lfq \<Rightarrow> ptr pc \<Rightarrow> ptr list" where
  "taken_msgs q (PopTake t) = [q_elems q ! lfq_slot rx_cfg t]"
| "taken_msgs q _ = []"

definition main_received :: "mc_sys \<Rightarrow> shutdown \<Rightarrow> shutdown" where
  "main_received m' s =
     s\<lparr>sh_mbox := m', sh_toBeFree := sh_toBeFree s @
         (if mc_acts m' ! NUMBER_OF_SENDERS = Outside
          then taken_msgs (sys_q (mc_queue (sh_mbox s))) (sys_pcs (mc_queue (sh_mbox s)) ! NUMBER_OF_SENDERS)
          else [])\<rparr>"

definition called :: "nat \<Rightarrow> mb_act \<Rightarrow> shutdown \<Rightarrow> shutdown" where
  "called k a s = s\<lparr>sh_mbox := act k a (sh_mbox s)\<rparr>"

definition main_idle :: "shutdown \<Rightarrow> bool" where
  "main_idle s \<longleftrightarrow> mc_acts (sh_mbox s) ! NUMBER_OF_SENDERS = Outside"

inductive shutdown_step :: "shutdown \<Rightarrow> shutdown \<Rightarrow> bool" for s where
  push_refused: "k < NUMBER_OF_SENDERS \<Longrightarrow> sending k s \<Longrightarrow> mc_acts (sh_mbox s) ! k = Outside \<Longrightarrow>
    \<not> mc_active (sh_mbox s) \<Longrightarrow>
    shutdown_step s (PUSH_returned k False (s\<lparr>sh_lost := sh_lost s + {#next_message k s#}\<rparr>))"
| push_called: "k < NUMBER_OF_SENDERS \<Longrightarrow> sending k s \<Longrightarrow> mc_acts (sh_mbox s) ! k = Outside \<Longrightarrow>
    mc_active (sh_mbox s) \<Longrightarrow> shutdown_step s (called k (PushSeen (next_message k s)) s)"
| push_moves: "k < NUMBER_OF_SENDERS \<Longrightarrow> mc_acts (sh_mbox s) ! k \<noteq> Outside \<Longrightarrow> mc_step k (sh_mbox s) m' \<Longrightarrow>
    shutdown_step s ((if mc_acts m' ! k = Outside then PUSH_returned k True else id) (s\<lparr>sh_mbox := m'\<rparr>))"
| pop_called: "sh_main s = Receiving \<Longrightarrow> main_idle s \<Longrightarrow> length (sh_toBeFree s) < NUMBER_OF_SENDERS * MESSAGES_PER_SENDER \<Longrightarrow>
    length (sh_toBeFree s) \<noteq> 100 \<Longrightarrow>
    shutdown_step s (if mc_active (sh_mbox s) then called NUMBER_OF_SENDERS (PopSeen ITC_MODE_RECEIVE_NON_BLOCKING) s else s)"
| pop_moves: "sh_main s = Receiving \<Longrightarrow> \<not> main_idle s \<Longrightarrow> mc_step NUMBER_OF_SENDERS (sh_mbox s) m' \<Longrightarrow>
    shutdown_step s (main_received m' s)"
| stop_called: "sh_main s = Receiving \<Longrightarrow> main_idle s \<Longrightarrow> length (sh_toBeFree s) = 100 \<Longrightarrow>
    shutdown_step s (s\<lparr>sh_mbox :=
      (if mc_active (sh_mbox s)
       then act NUMBER_OF_SENDERS Closing ((sh_mbox s)\<lparr>mc_active := False\<rparr>)
       else sh_mbox s), sh_main := Stopping\<rparr>)"
| stop_moves: "sh_main s = Stopping \<Longrightarrow> \<not> main_idle s \<Longrightarrow> mc_step NUMBER_OF_SENDERS (sh_mbox s) m' \<Longrightarrow>
    shutdown_step s (s\<lparr>sh_mbox := m'\<rparr>)"
| stopped: "sh_main s = Stopping \<Longrightarrow> main_idle s \<Longrightarrow> shutdown_step s (s\<lparr>sh_main := Joining\<rparr>)"
| all_received: "sh_main s = Receiving \<Longrightarrow> main_idle s \<Longrightarrow>
    NUMBER_OF_SENDERS * MESSAGES_PER_SENDER \<le> length (sh_toBeFree s) \<Longrightarrow> shutdown_step s (s\<lparr>sh_main := Joining\<rparr>)"

inductive shutdown_reachable :: "ptr list list \<Rightarrow> heap \<Rightarrow> shutdown \<Rightarrow> bool" for msgs h where
  start: "shutdown_reachable msgs h (shutdown_new msgs h)"
| step: "shutdown_reachable msgs h s \<Longrightarrow> shutdown_step s s' \<Longrightarrow> shutdown_reachable msgs h s'"

text \<open>All senders have been joined; then the messages that are still in the arrays and those received
  are deallocated, and the assertion reads the size of the queue.\<close>

definition all_joined :: "shutdown \<Rightarrow> bool" where
  "all_joined s \<longleftrightarrow> sh_main s = Joining \<and> (\<forall>k < NUMBER_OF_SENDERS. \<not> sending k s)"

definition shutdown_cleanup :: "shutdown \<Rightarrow> heap res" where
  "shutdown_cleanup s = dealloc_all (filter (\<lambda>p. p \<noteq> nullptr) (concat (sh_msgs s)) @ sh_toBeFree s) (mc_heap (sh_mbox s))"

definition shutdown_assert :: "shutdown \<Rightarrow> bool" where
  "shutdown_assert s \<longleftrightarrow> lfq_size (sys_q (mc_queue (sh_mbox s))) = 0"

section \<open>Shutdown: where the messages are\<close>

definition arrays_ok :: "ptr list list \<Rightarrow> bool" where
  "arrays_ok msgs \<longleftrightarrow> length msgs = NUMBER_OF_SENDERS \<and>
     list_all (\<lambda>a. length a = MESSAGES_PER_SENDER \<and> nullptr \<notin> set a) msgs"

text \<open>The messages of sender \<open>k\<close> that it has not handed to the queue: while it is inside \<open>push\<close> the current
  one is still in the array but no longer its own.\<close>

definition unsent :: "ptr list list \<Rightarrow> mb_act list \<Rightarrow> nat list \<Rightarrow> nat \<Rightarrow> ptr list" where
  "unsent msgs acts is k = drop (if acts ! k = Pushing then is ! k + 1 else is ! k) (msgs ! k)"

definition all_unsent :: "ptr list list \<Rightarrow> mb_act list \<Rightarrow> nat list \<Rightarrow> ptr multiset" where
  "all_unsent msgs acts is = (\<Sum>k < NUMBER_OF_SENDERS. mset (unsent msgs acts is k))"

fun sender_at :: "mb_act \<Rightarrow> ptr \<Rightarrow> bool \<Rightarrow> bool" where
  "sender_at Outside p busy \<longleftrightarrow> True"
| "sender_at (PushSeen m) p busy \<longleftrightarrow> busy \<and> m = p"
| "sender_at Pushing p busy \<longleftrightarrow> busy"
| "sender_at _ p busy \<longleftrightarrow> False"

fun stopping :: "mb_act \<Rightarrow> bool" where
  "stopping (PushSeen msg) \<longleftrightarrow> False"
| "stopping Pushing \<longleftrightarrow> False"
| "stopping (PopSeen mode) \<longleftrightarrow> False"
| "stopping Popping \<longleftrightarrow> False"
| "stopping _ \<longleftrightarrow> True"

fun main_ok :: "main_at \<Rightarrow> mb_act \<Rightarrow> bool" where
  "main_ok Receiving a \<longleftrightarrow> (case a of Outside \<Rightarrow> True | PopSeen mode \<Rightarrow> True | Popping \<Rightarrow> True | _ \<Rightarrow> False)"
| "main_ok Stopping a \<longleftrightarrow> stopping a"
| "main_ok Joining a \<longleftrightarrow> a = Outside"

definition senders_inv :: "ptr list list \<Rightarrow> shutdown \<Rightarrow> bool" where
  "senders_inv msgs s \<longleftrightarrow> (\<forall>k < NUMBER_OF_SENDERS. sh_i s ! k \<le> MESSAGES_PER_SENDER \<and>
     sh_msgs s ! k = replicate (sh_i s ! k) nullptr @ drop (sh_i s ! k) (msgs ! k) \<and>
     sender_at (mc_acts (sh_mbox s) ! k) (msgs ! k ! (sh_i s ! k)) (sending k s))"

definition shutdown_inv :: "ptr list list \<Rightarrow> shutdown \<Rightarrow> bool" where
  "shutdown_inv msgs s \<longleftrightarrow> mc_inv (sh_mbox s) \<and> length (mc_acts (sh_mbox s)) = NUMBER_OF_SENDERS + 1 \<and>
     length (sh_msgs s) = NUMBER_OF_SENDERS \<and> length (sh_i s) = NUMBER_OF_SENDERS \<and>
     length (sh_stop s) = NUMBER_OF_SENDERS \<and> senders_inv msgs s \<and>
     main_ok (sh_main s) (mc_acts (sh_mbox s) ! NUMBER_OF_SENDERS) \<and>
     mset (sh_toBeFree s) = mc_got (sh_mbox s) \<and>
     mset (concat msgs) = gh_in (mc_queue (sh_mbox s)) + all_unsent msgs (mc_acts (sh_mbox s)) (sh_i s) + sh_lost s \<and>
     size (sh_lost s) = length (filter id (sh_stop s))"

lemma sum_move:
  fixes f g :: "nat \<Rightarrow> 'a multiset"
  assumes "k < n" "\<And>j. j < n \<Longrightarrow> j \<noteq> k \<Longrightarrow> g j = f j"
  shows "(\<Sum>j < n. g j) + f k = (\<Sum>j < n. f j) + g k"
proof -
  have "(\<Sum>j \<in> {..<n} - {k}. g j) = (\<Sum>j \<in> {..<n} - {k}. f j)" using assms(2) by (intro sum.cong) auto
  with assms(1) show ?thesis by (simp add: sum.remove [of "{..<n}" k] ac_simps)
qed

lemma all_unsent_move:
  assumes "k < NUMBER_OF_SENDERS" "k < length acts" "k < length is"
    and "mset (unsent msgs acts is k) = mset (unsent msgs (acts[k := a]) (is[k := i]) k) + x"
  shows "all_unsent msgs acts is = all_unsent msgs (acts[k := a]) (is[k := i]) + x"
proof -
  let ?f = "\<lambda>k. mset (unsent msgs acts is k)" and ?g = "\<lambda>j. mset (unsent msgs (acts[k := a]) (is[k := i]) j)"
  have "?g j = ?f j" if "j \<noteq> k" for j using that by (simp add: unsent_def)
  then have "sum ?g {..<NUMBER_OF_SENDERS} + ?f k = sum ?f {..<NUMBER_OF_SENDERS} + ?g k"
    by (rule sum_move [OF assms(1)])
  with assms(4) show ?thesis by (simp add: all_unsent_def)
qed

lemma all_unsent_main [simp]:
  "all_unsent msgs (acts[NUMBER_OF_SENDERS := a]) is = all_unsent msgs acts is"
  by (simp add: all_unsent_def unsent_def)

lemma popped_taken: "(case popped q p of None \<Rightarrow> {#} | Some msg \<Rightarrow> {#msg#}) = mset (taken_msgs q p)"
  by (cases p) simp_all

lemma push_claim_step:
  assumes "mc_step k m m'" "mc_acts m ! k = PushSeen p"
  shows "mc_acts m' = (mc_acts m)[k := Pushing]" "gh_in (mc_queue m') = gh_in (mc_queue m) + {#p#}"
    "mc_got m' = mc_got m"
  using assms by (auto elim!: mc_step.cases simp: claim_head_def goto_def Let_def)

lemma inside_step:
  assumes "mc_step k m m'" "mc_inv m" "k < length (mc_acts m)" "mc_acts m ! k \<in> {Pushing, Popping, DrainPopping}"
  shows "gh_in (mc_queue m') = gh_in (mc_queue m)"
    "mc_acts m' = mc_acts m \<and> mc_got m' = mc_got m \<or>
     (\<exists>a. mc_acts m' = (mc_acts m)[k := a] \<and> (if mc_acts m ! k = DrainPopping then stopping a else a = Outside)) \<and>
     mc_got m' = mc_got m + (if mc_acts m ! k = Popping
       then mset (taken_msgs (sys_q (mc_queue m)) (sys_pcs (mc_queue m) ! k)) else {#})"
proof -
  have "gh_in (mc_queue m') = gh_in (mc_queue m) \<and>
    (mc_acts m' = mc_acts m \<and> mc_got m' = mc_got m \<or>
     (\<exists>q. m' = mc_return k (popped (sys_q (mc_queue m)) (sys_pcs (mc_queue m) ! k)) (m\<lparr>mc_queue := q\<rparr>)))"
    using assms(1)
  proof (cases rule: mc_step.cases)
    case (inside q')
    have "gh_in q' = gh_in (mc_queue m)" using inside_keeps [OF assms(2) inside(2-5)] .
    then show ?thesis unfolding inside(1) by auto
  qed (use assms(4) in auto)
  then show "gh_in (mc_queue m') = gh_in (mc_queue m)"
    and "mc_acts m' = mc_acts m \<and> mc_got m' = mc_got m \<or>
     (\<exists>a. mc_acts m' = (mc_acts m)[k := a] \<and> (if mc_acts m ! k = DrainPopping then stopping a else a = Outside)) \<and>
     mc_got m' = mc_got m + (if mc_acts m ! k = Popping
       then mset (taken_msgs (sys_q (mc_queue m)) (sys_pcs (mc_queue m) ! k)) else {#})"
    using assms(4) popped_taken [of "sys_q (mc_queue m)" "sys_pcs (mc_queue m) ! k"]
    by (auto simp: mc_return_def split: option.splits)
qed

text \<open>A step of the main thread in \<open>setState\<close>.\<close>

lemma drain_step:
  assumes "mc_step k m m'" "mc_inv m" "k < length (mc_acts m)" "mc_acts m ! k \<noteq> Outside" "stopping (mc_acts m ! k)"
  shows "\<exists>a. stopping a \<and> mc_acts m' = (mc_acts m)[k := a] \<and>
    gh_in (mc_queue m') = gh_in (mc_queue m) \<and> mc_got m' = mc_got m"
proof (cases "mc_acts m ! k = DrainPopping")
  case True
  then have "mc_acts m ! k \<in> {Pushing, Popping, DrainPopping}" by simp
  note st = inside_step [OF assms(1-3) this]
  from st(2) show ?thesis
  proof (elim disjE conjE exE)
    assume "mc_acts m' = mc_acts m" "mc_got m' = mc_got m"
    with st(1) assms(5) show ?thesis by (intro exI [of _ "mc_acts m ! k"]) simp
  qed (use st(1) True in auto)
next
  case False
  have ex: "\<exists>b. stopping b \<and> (mc_acts m)[k := a] = (mc_acts m)[k := b]" if "stopping a" for a
    using that by blast
  show ?thesis using assms(1)
    by (cases rule: mc_step.cases) (use False assms(4,5) in \<open>auto simp: goto_def drain_test_def intro!: ex\<close>)
qed

lemma receive_step:
  assumes "mc_step k m m'" "mc_inv m" "k < length (mc_acts m)" "mc_acts m ! k \<noteq> Outside" "main_ok Receiving (mc_acts m ! k)"
  shows "gh_in (mc_queue m') = gh_in (mc_queue m)"
    "mc_acts m' = (mc_acts m)[k := Popping] \<and> mc_got m' = mc_got m \<or>
     mc_acts m' = (mc_acts m)[k := Outside] \<and>
     mc_got m' = mc_got m + mset (taken_msgs (sys_q (mc_queue m)) (sys_pcs (mc_queue m) ! k))"
proof -
  consider (seen) mode where "mc_acts m ! k = PopSeen mode" | (inside) "mc_acts m ! k = Popping"
    using assms(4,5) by (auto split: mb_act.splits)
  then have "gh_in (mc_queue m') = gh_in (mc_queue m) \<and> (
    mc_acts m' = (mc_acts m)[k := Popping] \<and> mc_got m' = mc_got m \<or>
     mc_acts m' = (mc_acts m)[k := Outside] \<and>
     mc_got m' = mc_got m + mset (taken_msgs (sys_q (mc_queue m)) (sys_pcs (mc_queue m) ! k)))"
  proof cases
    case seen
    then show ?thesis using assms(1) by (auto elim!: mc_step.cases simp: goto_def claim_tail_def Let_def)
  next
    case inside
    then show ?thesis using inside_step [OF assms(1-3)] list_update_id [of "mc_acts m" k] by simp
  qed
  then show "gh_in (mc_queue m') = gh_in (mc_queue m)"
    "mc_acts m' = (mc_acts m)[k := Popping] \<and> mc_got m' = mc_got m \<or>
     mc_acts m' = (mc_acts m)[k := Outside] \<and>
     mc_got m' = mc_got m + mset (taken_msgs (sys_q (mc_queue m)) (sys_pcs (mc_queue m) ! k))" by simp_all
qed

lemma shutdown_inv_new:
  assumes "arrays_ok msgs"
  shows "shutdown_inv msgs (shutdown_new msgs h)"
proof -
  have acts: "mc_acts (mc_new i f n h) = replicate n Outside" "mc_got (mc_new i f n h) = {#}"
    "gh_in (mc_queue (mc_new i f n h)) = {#}" for i f n
    by (simp_all add: mc_new_def sys_init_def)
  have len: "length msgs = NUMBER_OF_SENDERS" using assms by (simp add: arrays_ok_def)
  have "mset (concat msgs) = (\<Sum>k < length msgs. mset (msgs ! k))"
    by (simp add: mset_concat sum_list_sum_nth atLeast0LessThan)
  moreover have "filter id (replicate NUMBER_OF_SENDERS False) = []" by (simp add: filter_False)
  moreover have "0 < NUMBER_OF_SENDERS" by (simp add: NUMBER_OF_SENDERS_def)
  ultimately show ?thesis
    using len
    by (simp add: shutdown_inv_def shutdown_new_def mc_inv_new acts senders_inv_def all_unsent_def unsent_def
        del: replicate_Suc)
qed

text \<open>A step of the main thread, and a step of a sender, only change its own place.\<close>

lemma main_moves_inv:
  assumes "shutdown_inv msgs s" "mc_inv m'" "mc_acts m' = (mc_acts (sh_mbox s))[NUMBER_OF_SENDERS := a]"
    and "gh_in (mc_queue m') = gh_in (mc_queue (sh_mbox s))" "main_ok at a" "mset free = mc_got m'"
  shows "shutdown_inv msgs (s\<lparr>sh_mbox := m', sh_main := at, sh_toBeFree := free\<rparr>)"
  using assms by (simp add: shutdown_inv_def senders_inv_def sending_def)

lemma sender_moves_inv:
  assumes "shutdown_inv msgs s" "k < NUMBER_OF_SENDERS" "mc_inv m'" "mc_acts m' = (mc_acts (sh_mbox s))[k := a]"
    and "gh_in (mc_queue m') = gh_in (mc_queue (sh_mbox s)) + x" "mc_got m' = mc_got (sh_mbox s)"
    and "sender_at a (msgs ! k ! (sh_i s ! k)) (sending k s)"
    and "mset (unsent msgs (mc_acts (sh_mbox s)) (sh_i s) k) =
         mset (unsent msgs ((mc_acts (sh_mbox s))[k := a]) (sh_i s) k) + x"
  shows "shutdown_inv msgs (s\<lparr>sh_mbox := m'\<rparr>)"
proof -
  let ?acts = "mc_acts (sh_mbox s)"
  have len: "k < length ?acts" "k < length (sh_i s)" using assms(1,2) by (simp_all add: shutdown_inv_def)
  have "all_unsent msgs ?acts (sh_i s) = all_unsent msgs (?acts[k := a]) (sh_i s) + x"
    using all_unsent_move [OF assms(2) len, where i = "sh_i s ! k"] assms(8) by simp
  moreover have "senders_inv msgs (s\<lparr>sh_mbox := m'\<rparr>)"
    using assms(1,2,4,7) len by (auto simp: shutdown_inv_def senders_inv_def sending_def nth_list_update)
  ultimately show ?thesis
    using assms(1-6) by (simp add: shutdown_inv_def ac_simps)
qed

lemma filter_id_set: "k < length xs \<Longrightarrow> \<not> xs ! k \<Longrightarrow> length (filter id (xs[k := True])) = Suc (length (filter id xs))"
  by (induction xs arbitrary: k) (auto split: nat.splits simp: nth_Cons)

lemma clear_next:
  assumes "i < length row"
  shows "(replicate i z @ drop i row)[i := z] = replicate (Suc i) z @ drop (Suc i) row"
  using assms by (simp add: list_update_append replicate_append_same flip: Cons_nth_drop_Suc)

lemma push_returned_inv:
  assumes "shutdown_inv msgs s" "arrays_ok msgs" "k < NUMBER_OF_SENDERS" "sending k s" "mc_inv m'"
    and "mc_acts m' = (mc_acts (sh_mbox s))[k := Outside]"
    and "gh_in (mc_queue m') = gh_in (mc_queue (sh_mbox s))" "mc_got m' = mc_got (sh_mbox s)"
    and "mset (unsent msgs (mc_acts (sh_mbox s)) (sh_i s) k) = mset (drop (sh_i s ! k + 1) (msgs ! k)) + x"
    and "size x = (if ok then 0 else 1)"
  shows "shutdown_inv msgs (PUSH_returned k ok (s\<lparr>sh_mbox := m', sh_lost := sh_lost s + x\<rparr>))"
proof -
  let ?acts = "mc_acts (sh_mbox s)" and ?is = "(sh_i s)[k := sh_i s ! k + 1]"
  let ?s = "PUSH_returned k ok (s\<lparr>sh_mbox := m', sh_lost := sh_lost s + x\<rparr>)"
  have I: "length ?acts = NUMBER_OF_SENDERS + 1" "length (sh_msgs s) = NUMBER_OF_SENDERS"
    "length (sh_i s) = NUMBER_OF_SENDERS" "length (sh_stop s) = NUMBER_OF_SENDERS" "senders_inv msgs s"
    "size (sh_lost s) = length (filter id (sh_stop s))"
    using assms(1) by (simp_all add: shutdown_inv_def)
  have row: "length (msgs ! k) = MESSAGES_PER_SENDER"
    using assms(2,3) by (simp add: arrays_ok_def list_all_length)
  have i: "sh_i s ! k < MESSAGES_PER_SENDER" "\<not> sh_stop s ! k" using assms(4) by (simp_all add: sending_def)
  have "all_unsent msgs ?acts (sh_i s) = all_unsent msgs (?acts[k := Outside]) ?is + x"
    using assms(3,9) I by (intro all_unsent_move) (simp_all add: unsent_def)
  moreover have "senders_inv msgs ?s"
    unfolding senders_inv_def
  proof (intro allI impI)
    fix j assume j: "j < NUMBER_OF_SENDERS"
    with I(5) have old: "sh_i s ! j \<le> MESSAGES_PER_SENDER"
      "sh_msgs s ! j = replicate (sh_i s ! j) nullptr @ drop (sh_i s ! j) (msgs ! j)"
      "sender_at (?acts ! j) (msgs ! j ! (sh_i s ! j)) (sending j s)" by (simp_all add: senders_inv_def)
    show "sh_i ?s ! j \<le> MESSAGES_PER_SENDER \<and>
      sh_msgs ?s ! j = replicate (sh_i ?s ! j) nullptr @ drop (sh_i ?s ! j) (msgs ! j) \<and>
      sender_at (mc_acts (sh_mbox ?s) ! j) (msgs ! j ! (sh_i ?s ! j)) (sending j ?s)"
      using old i assms(3,6) j I(1-4) clear_next [of "sh_i s ! k" "msgs ! k" nullptr] row
      by (cases "j = k") (simp_all add: PUSH_returned_def sending_def)
  qed
  moreover have "size (sh_lost ?s) = length (filter id (sh_stop ?s))"
    using I(4,6) i(2) assms(3,10) filter_id_set [of k "sh_stop s"] by (simp add: PUSH_returned_def)
  ultimately show ?thesis
    using assms(1,3,5-8) by (simp add: shutdown_inv_def PUSH_returned_def ac_simps)
qed

lemma shutdown_step_inv:
  assumes "shutdown_step s s'" "shutdown_inv msgs s" "arrays_ok msgs"
  shows "shutdown_inv msgs s'"
  using assms(1)
proof (cases rule: shutdown_step.cases)
  case (push_refused k)
  then have "sh_i s ! k < length (msgs ! k)" "next_message k s = msgs ! k ! (sh_i s ! k)"
    using assms(2,3) by (auto simp: sending_def arrays_ok_def list_all_length next_message_def shutdown_inv_def
        senders_inv_def nth_append)
  then show ?thesis unfolding push_refused(1)
    using push_returned_inv [OF assms(2,3) push_refused(2,3), where m' = "sh_mbox s" and ok = False
        and x = "{#next_message k s#}"] assms(2) push_refused(4) list_update_id [of "mc_acts (sh_mbox s)" k]
    by (simp add: unsent_def shutdown_inv_def flip: Cons_nth_drop_Suc)
next
  case (push_called k)
  then have i: "sh_i s ! k < length (msgs ! k)" "next_message k s = msgs ! k ! (sh_i s ! k)"
    using assms(2,3) by (auto simp: sending_def arrays_ok_def list_all_length next_message_def shutdown_inv_def
        senders_inv_def nth_append)
  then have "next_message k s \<in> set (msgs ! k)" by simp
  then have "next_message k s \<noteq> nullptr"
    using assms(3) push_called(2) by (auto simp: arrays_ok_def list_all_length)
  moreover have "mc_inv (sh_mbox s)" "k < length (mc_acts (sh_mbox s))"
    using assms(2) push_called(2) by (simp_all add: shutdown_inv_def)
  ultimately have "mc_inv (act k (PushSeen (next_message k s)) (sh_mbox s))"
    using mc_idle(2) [of "sh_mbox s" k] push_called(4) by (intro mc_inv_act) simp_all
  then show ?thesis unfolding push_called(1) called_def
    using push_called(3,4) i \<open>k < length _\<close>
    by (intro sender_moves_inv [OF assms(2) push_called(2), where x = "{#}" and a = "PushSeen (next_message k s)"])
      (simp_all add: unsent_def)
next
  case (push_moves k m')
  have m: "mc_inv (sh_mbox s)" "k < length (mc_acts (sh_mbox s))"
    using assms(2) push_moves(2) by (simp_all add: shutdown_inv_def)
  have at: "sender_at (mc_acts (sh_mbox s) ! k) (msgs ! k ! (sh_i s ! k)) (sending k s)"
    using assms(2) push_moves(2) by (simp add: shutdown_inv_def senders_inv_def)
  have inv': "mc_inv m'" using push_moves(4) m(1) by (rule mc_step_inv)
  show ?thesis
  proof (cases "mc_acts (sh_mbox s) ! k")
    case (PushSeen p)
    with at have p: "sending k s" "p = msgs ! k ! (sh_i s ! k)" by simp_all
    then have "sh_i s ! k < length (msgs ! k)"
      using assms(3) push_moves(2) by (simp add: sending_def arrays_ok_def list_all_length)
    then have "shutdown_inv msgs (s\<lparr>sh_mbox := m'\<rparr>)"
      using push_claim_step [OF push_moves(4) PushSeen] PushSeen p m(2)
      by (intro sender_moves_inv [OF assms(2) push_moves(2) inv', where x = "{#p#}" and a = Pushing])
        (simp_all add: unsent_def flip: Cons_nth_drop_Suc)
    with push_claim_step(1) [OF push_moves(4) PushSeen] m(2) show ?thesis unfolding push_moves(1) by simp
  next
    case Pushing
    with at have busy: "sending k s" by simp
    note st = inside_step [OF push_moves(4) m]
    show ?thesis
    proof (cases "mc_acts m' ! k = Outside")
      case True
      then have "mc_acts m' = (mc_acts (sh_mbox s))[k := Outside]" "mc_got m' = mc_got (sh_mbox s)"
        using st(2) Pushing by auto
      then show ?thesis unfolding push_moves(1)
        using True push_returned_inv [OF assms(2,3) push_moves(2) busy inv', where x = "{#}" and ok = True] st(1) Pushing
        by (simp add: unsent_def)
    next
      case False
      then have "mc_acts m' = (mc_acts (sh_mbox s))[k := Pushing]" "mc_got m' = mc_got (sh_mbox s)"
        using st(2) Pushing m(2) list_update_id [of "mc_acts (sh_mbox s)" k] by auto
      then show ?thesis unfolding push_moves(1) using False st(1) Pushing busy m(2)
        by (auto intro!: sender_moves_inv [OF assms(2) push_moves(2) inv', where x = "{#}" and a = Pushing]
            simp: unsent_def)
    qed
  qed (use at push_moves(3) in simp_all)
next
  case pop_called
  have "mc_inv (sh_mbox s)" "NUMBER_OF_SENDERS < length (mc_acts (sh_mbox s))"
    using assms(2) by (simp_all add: shutdown_inv_def)
  then have "mc_inv (act NUMBER_OF_SENDERS (PopSeen ITC_MODE_RECEIVE_NON_BLOCKING) (sh_mbox s))"
    using mc_idle(2) [of "sh_mbox s" NUMBER_OF_SENDERS] pop_called(3) by (intro mc_inv_act) (simp_all add: main_idle_def)
  then have "shutdown_inv msgs (s\<lparr>sh_mbox := act NUMBER_OF_SENDERS (PopSeen ITC_MODE_RECEIVE_NON_BLOCKING) (sh_mbox s),
      sh_main := Receiving, sh_toBeFree := sh_toBeFree s\<rparr>)"
    using assms(2) by (intro main_moves_inv [OF assms(2), where a = "PopSeen ITC_MODE_RECEIVE_NON_BLOCKING"])
      (simp_all add: shutdown_inv_def)
  then have "shutdown_inv msgs (called NUMBER_OF_SENDERS (PopSeen ITC_MODE_RECEIVE_NON_BLOCKING) s)"
    using pop_called(2) by (cases s) (simp add: called_def)
  with assms(2) show ?thesis unfolding pop_called(1) by simp
next
  case (pop_moves m')
  have m: "mc_inv (sh_mbox s)" "NUMBER_OF_SENDERS < length (mc_acts (sh_mbox s))"
    "main_ok Receiving (mc_acts (sh_mbox s) ! NUMBER_OF_SENDERS)" "mset (sh_toBeFree s) = mc_got (sh_mbox s)"
    using assms(2) pop_moves(2) by (simp_all add: shutdown_inv_def)
  note st = receive_step [OF pop_moves(4) m(1,2) _ m(3)]
  have out: "mc_acts (sh_mbox s) ! NUMBER_OF_SENDERS \<noteq> Outside" using pop_moves(3) by (simp add: main_idle_def)
  have inv': "mc_inv m'" using pop_moves(4) m(1) by (rule mc_step_inv)
  obtain a where "mc_acts m' = (mc_acts (sh_mbox s))[NUMBER_OF_SENDERS := a]" "main_ok Receiving a"
    "mset (sh_toBeFree (main_received m' s)) = mc_got m'"
    using st(2) [OF out] m(2,4) by (auto simp: main_received_def)
  then have "shutdown_inv msgs (s\<lparr>sh_mbox := m', sh_main := Receiving, sh_toBeFree := sh_toBeFree (main_received m' s)\<rparr>)"
    using st(1) [OF out] by (intro main_moves_inv [OF assms(2) inv'])
  moreover have "main_received m' s =
      s\<lparr>sh_mbox := m', sh_main := Receiving, sh_toBeFree := sh_toBeFree (main_received m' s)\<rparr>"
    using pop_moves(2) by (cases s) (simp add: main_received_def)
  ultimately show ?thesis unfolding pop_moves(1) by metis
next
  case stop_called
  let ?off = "(sh_mbox s)\<lparr>mc_active := False\<rparr>"
  have m: "mc_inv ?off" "NUMBER_OF_SENDERS < length (mc_acts ?off)" "mset (sh_toBeFree s) = mc_got (sh_mbox s)"
    using assms(2) by (simp_all add: shutdown_inv_def mc_inv_def)
  then have "mc_inv (act NUMBER_OF_SENDERS Closing ?off)"
    using mc_idle(2) [OF m(1,2)] stop_called(3) by (intro mc_inv_act) (simp_all add: main_idle_def)
  then have a: "shutdown_inv msgs (s\<lparr>sh_mbox := act NUMBER_OF_SENDERS Closing ?off, sh_main := Stopping,
      sh_toBeFree := sh_toBeFree s\<rparr>)"
    using m(3) by (intro main_moves_inv [OF assms(2), where a = Closing]) simp_all
  have b: "shutdown_inv msgs (s\<lparr>sh_mbox := sh_mbox s, sh_main := Stopping, sh_toBeFree := sh_toBeFree s\<rparr>)"
    using m(3) assms(2) stop_called(3) list_update_id [of "mc_acts (sh_mbox s)" NUMBER_OF_SENDERS]
    by (intro main_moves_inv [OF assms(2), where a = Outside]) (simp_all add: shutdown_inv_def main_idle_def)
  show ?thesis unfolding stop_called(1) using a b by simp
next
  case (stop_moves m')
  have m: "mc_inv (sh_mbox s)" "NUMBER_OF_SENDERS < length (mc_acts (sh_mbox s))"
    "main_ok Stopping (mc_acts (sh_mbox s) ! NUMBER_OF_SENDERS)" "mset (sh_toBeFree s) = mc_got (sh_mbox s)"
    using assms(2) stop_moves(2) by (simp_all add: shutdown_inv_def)
  have "mc_acts (sh_mbox s) ! NUMBER_OF_SENDERS \<noteq> Outside" "stopping (mc_acts (sh_mbox s) ! NUMBER_OF_SENDERS)"
    using m(3) stop_moves(3) by (auto simp: main_idle_def)
  from drain_step [OF stop_moves(4) m(1,2) this] obtain a where a: "main_ok Stopping a"
    "mc_acts m' = (mc_acts (sh_mbox s))[NUMBER_OF_SENDERS := a]"
    "gh_in (mc_queue m') = gh_in (mc_queue (sh_mbox s))" "mc_got m' = mc_got (sh_mbox s)" by auto
  have "mc_inv m'" using stop_moves(4) m(1) by (rule mc_step_inv)
  with a m(4) have "shutdown_inv msgs (s\<lparr>sh_mbox := m', sh_main := Stopping, sh_toBeFree := sh_toBeFree s\<rparr>)"
    by (intro main_moves_inv [OF assms(2)]) simp_all
  then show ?thesis unfolding stop_moves(1) using stop_moves(2) by (cases s) simp
qed (use assms(2) in \<open>simp_all add: shutdown_inv_def senders_inv_def sending_def main_idle_def\<close>)

lemma shutdown_reachable_inv:
  assumes "shutdown_reachable msgs h s" "arrays_ok msgs"
  shows "shutdown_inv msgs s"
  using assms(1) by induction (simp_all add: shutdown_inv_new assms(2) shutdown_step_inv)

section \<open>Shutdown: what the test frees\<close>

lemma all_joined_idle:
  assumes "shutdown_inv msgs s" "all_joined s"
  shows "quiescent (mc_queue (sh_mbox s))" "k < NUMBER_OF_SENDERS \<Longrightarrow> mc_acts (sh_mbox s) ! k = Outside"
proof -
  have *: "mc_acts (sh_mbox s) ! k = Outside" if "k < NUMBER_OF_SENDERS" for k
  proof -
    have "sender_at (mc_acts (sh_mbox s) ! k) (msgs ! k ! (sh_i s ! k)) (sending k s)" "\<not> sending k s"
      using assms that by (simp_all add: shutdown_inv_def senders_inv_def all_joined_def)
    then show ?thesis by (cases "mc_acts (sh_mbox s) ! k") simp_all
  qed
  then show "k < NUMBER_OF_SENDERS \<Longrightarrow> mc_acts (sh_mbox s) ! k = Outside" .
  have inv: "mc_inv (sh_mbox s)" "length (mc_acts (sh_mbox s)) = NUMBER_OF_SENDERS + 1"
    "mc_acts (sh_mbox s) ! NUMBER_OF_SENDERS = Outside"
    using assms by (simp_all add: shutdown_inv_def all_joined_def)
  then have acts: "mc_acts (sh_mbox s) ! k = Outside" if "k < length (mc_acts (sh_mbox s))" for k
    using * that by (metis add.commute less_Suc_eq plus_1_eq_Suc)
  have "length (sys_pcs (mc_queue (sh_mbox s))) = length (mc_acts (sh_mbox s))"
    using inv(1) by (auto simp: mc_inv_def dest: list_all2_lengthD)
  moreover have "sys_pcs (mc_queue (sh_mbox s)) ! k = Idle" if "k < length (mc_acts (sh_mbox s))" for k
    using mc_idle(2) [OF inv(1) that] acts [OF that] by simp
  ultimately show "quiescent (mc_queue (sh_mbox s))"
    by (simp add: quiescent_def list_all_length)
qed

lemma rest_of_arrays:
  assumes "shutdown_inv msgs s" "arrays_ok msgs" "all_joined s"
  shows "mset (filter (\<lambda>p. p \<noteq> nullptr) (concat (sh_msgs s))) = all_unsent msgs (mc_acts (sh_mbox s)) (sh_i s)"
proof -
  have "mset (filter (\<lambda>p. p \<noteq> nullptr) (sh_msgs s ! k)) = mset (unsent msgs (mc_acts (sh_mbox s)) (sh_i s) k)"
    if k: "k < NUMBER_OF_SENDERS" for k
  proof -
    have "nullptr \<notin> set (msgs ! k)" using assms(2) k by (simp add: arrays_ok_def list_all_length)
    then have "filter (\<lambda>p. p \<noteq> nullptr) (drop i (msgs ! k)) = drop i (msgs ! k)" for i
      by (metis (mono_tags, lifting) filter_True in_set_dropD)
    moreover have "sh_msgs s ! k = replicate (sh_i s ! k) nullptr @ drop (sh_i s ! k) (msgs ! k)"
      using assms(1) k by (simp add: shutdown_inv_def senders_inv_def)
    ultimately show ?thesis using all_joined_idle(2) [OF assms(1,3) k] by (simp add: unsent_def)
  qed
  moreover have "length (sh_msgs s) = NUMBER_OF_SENDERS" using assms(1) by (simp add: shutdown_inv_def)
  ultimately show ?thesis
    by (simp add: filter_concat mset_concat sum_list_sum_nth atLeast0LessThan all_unsent_def)
qed


section \<open>Shutdown: the heap\<close>

lemma shutdown_step_mbox:
  assumes "shutdown_step s s'"
  shows "(\<exists>k. mc_step k (sh_mbox s) (sh_mbox s')) \<or>
    mc_heap (sh_mbox s') = mc_heap (sh_mbox s) \<and> mc_freed (sh_mbox s') = mc_freed (sh_mbox s) \<and>
    mc_leaked (sh_mbox s') = mc_leaked (sh_mbox s)"
  using assms by (cases rule: shutdown_step.cases) (auto simp: PUSH_returned_def called_def main_received_def)

lemma shutdown_gh_in:
  assumes "shutdown_inv msgs s"
  shows "mset (concat msgs) = mc_got (sh_mbox s) + mc_freed (sh_mbox s) + mc_leaked (sh_mbox s) +
    gather freeing (mc_acts (sh_mbox s)) + stored rx_cfg (sys_q (mc_queue (sh_mbox s))) +
    gather pending (sys_pcs (mc_queue (sh_mbox s))) + all_unsent msgs (mc_acts (sh_mbox s)) (sh_i s) + sh_lost s"
  using assms by (simp add: shutdown_inv_def mc_inv_def lfq_sys_inv_def ac_simps)

text \<open>Only \<open>setState\<close> has freed anything, and it has leaked nothing.\<close>

lemma shutdown_heap:
  assumes "shutdown_reachable msgs h s" "arrays_ok msgs" "distinct (concat msgs)"
    and "\<forall>p \<in> set (concat msgs). msg_ok h p"
  shows "mc_leaked (sh_mbox s) = {#} \<and>
    (\<forall>p. block (mc_heap (sh_mbox s)) p = (if p \<in># mc_freed (sh_mbox s) then None else block h p))"
  using assms(1)
proof induction
  case start
  show ?case by (simp add: shutdown_new_def mc_new_def)
next
  case (step s s')
  note inv = shutdown_reachable_inv [OF step.hyps(1) assms(2)]
  have same: ?case if "mc_heap (sh_mbox s') = mc_heap (sh_mbox s)" "mc_freed (sh_mbox s') = mc_freed (sh_mbox s)"
    "mc_leaked (sh_mbox s') = mc_leaked (sh_mbox s)"
    using step.IH that by simp
  from shutdown_step_mbox [OF step.hyps(2)] show ?case
  proof (elim disjE exE conjE)
    fix k assume m: "mc_step k (sh_mbox s) (sh_mbox s')"
    from mc_step_heap [OF m] show ?thesis
    proof (elim disjE exE conjE)
      fix msg ok
      assume free: "mc_acts (sh_mbox s) ! k = DrainFree msg"
        "deallocate msg (mc_heap (sh_mbox s)) = Inr (ok, mc_heap (sh_mbox s'))"
        "mc_freed (sh_mbox s') = mc_freed (sh_mbox s) + (if ok then {#msg#} else {#})"
        "mc_leaked (sh_mbox s') = mc_leaked (sh_mbox s) + (if ok then {#} else {#msg#})"
      have "msg \<in># gather freeing (mc_acts (sh_mbox s))"
        using mc_step_in_range [OF m] free(1) by (force simp: gather_nth)
      then obtain X where "gather freeing (mc_acts (sh_mbox s)) = add_mset msg X" by (metis mset_add)
      then have all: "mset (concat msgs) = add_mset msg (mc_freed (sh_mbox s) + (mc_got (sh_mbox s) +
          mc_leaked (sh_mbox s) + X + stored rx_cfg (sys_q (mc_queue (sh_mbox s))) +
          gather pending (sys_pcs (mc_queue (sh_mbox s))) + all_unsent msgs (mc_acts (sh_mbox s)) (sh_i s) + sh_lost s))"
        unfolding shutdown_gh_in [OF inv] by (simp add: ac_simps)
      have "count (mset (concat msgs)) msg \<le> 1" using assms(3) distinct_count_atmost_1 by (metis le_refl zero_le_one)
      then have fresh: "msg \<notin># mc_freed (sh_mbox s)" unfolding all by (simp add: not_in_iff)
      have "msg \<in> set (concat msgs)" unfolding set_mset_mset [symmetric] all by simp
      then have "msg_ok h msg" using assms(4) by blast
      moreover have "block (mc_heap (sh_mbox s)) msg = block h msg" using step.IH fresh by simp
      ultimately have "msg_ok (mc_heap (sh_mbox s)) msg" by (simp add: msg_ok_def)
      then have "ok \<and> mc_heap (sh_mbox s') = freed msg (mc_heap (sh_mbox s))"
        using deallocate_msg_ok free(2) by auto
      with free(3,4) step.IH show ?thesis by (simp add: freed_def)
    qed (rule same)
  qed (rule same)
qed

text \<open>When all threads have been joined every one of the 1000 messages is in exactly one place: among those
  the test deallocates next, freed by \<open>setState(false)\<close>, left in the queue by a late push, or lost. One
  message is lost for every sender that was refused.\<close>

theorem shutdown_test_messages:
  assumes "shutdown_reachable msgs h s" "arrays_ok msgs" "all_joined s"
  shows "mset (concat msgs) = mset (filter (\<lambda>p. p \<noteq> nullptr) (concat (sh_msgs s)) @ sh_toBeFree s) +
      mc_freed (sh_mbox s) + mc_leaked (sh_mbox s) + stored rx_cfg (sys_q (mc_queue (sh_mbox s))) + sh_lost s \<and>
    size (sh_lost s) = length (filter id (sh_stop s))"
proof -
  note inv = shutdown_reachable_inv [OF assms(1,2)]
  note idle = all_joined_idle [OF inv assms(3)]
  have "gather pending (sys_pcs (mc_queue (sh_mbox s))) = {#}"
    by (rule quiescent_gather [OF idle(1)]) simp
  moreover have "mc_acts (sh_mbox s) ! NUMBER_OF_SENDERS = Outside"
    "length (mc_acts (sh_mbox s)) = NUMBER_OF_SENDERS + 1"
    using inv assms(3) by (simp_all add: shutdown_inv_def all_joined_def)
  then have "mc_acts (sh_mbox s) ! k = Outside" if "k < length (mc_acts (sh_mbox s))" for k
    using idle(2) [of k] that by (cases "k = NUMBER_OF_SENDERS") simp_all
  then have "gather freeing (mc_acts (sh_mbox s)) = {#}" by (intro nothing_freeing) simp
  ultimately show ?thesis
    using inv rest_of_arrays [OF inv assms(2,3)] shutdown_gh_in [OF inv]
    by (simp add: shutdown_inv_def ac_simps)
qed

lemma distinct_parts:
  assumes "distinct xs" "mset xs = mset ps + B"
  shows "distinct ps" "\<forall>p \<in># B. p \<notin> set ps"
proof -
  obtain bs where bs: "mset bs = B" using ex_mset by blast
  then have "mset xs = mset (ps @ bs)" using assms(2) by simp
  then have "distinct (ps @ bs)" using assms(1) mset_eq_imp_distinct_iff by blast
  with bs show "distinct ps" "\<forall>p \<in># B. p \<notin> set ps" by auto
qed

text \<open>If the messages are distinct and allocated, then when all threads have been joined the deallocations
  of the test all succeed, setState has leaked nothing, and what stays allocated is exactly what a late
  push or a refusal left behind. The final assertion says that no push was late.\<close>

theorem shutdown_test_cleans_up:
  assumes "shutdown_reachable msgs h s" "arrays_ok msgs" "all_joined s" "distinct (concat msgs)"
    and "\<forall>p \<in> set (concat msgs). msg_ok h p"
  shows "\<exists>h'. shutdown_cleanup s = Inr h' \<and> mc_leaked (sh_mbox s) = {#} \<and>
    (\<forall>p. block h' p = (if p \<in> set (concat msgs) \<and> p \<notin># stored rx_cfg (sys_q (mc_queue (sh_mbox s))) + sh_lost s
       then None else block h p)) \<and>
    (shutdown_assert s \<longleftrightarrow> stored rx_cfg (sys_q (mc_queue (sh_mbox s))) = {#})"
proof -
  let ?ps = "filter (\<lambda>p. p \<noteq> nullptr) (concat (sh_msgs s)) @ sh_toBeFree s"
  let ?left = "stored rx_cfg (sys_q (mc_queue (sh_mbox s))) + sh_lost s" and ?freed = "mc_freed (sh_mbox s)"
  note inv = shutdown_reachable_inv [OF assms(1,2)]
  note hp = shutdown_heap [OF assms(1,2,4,5)]
  have all: "mset (concat msgs) = mset ?ps + (?left + ?freed)"
    using shutdown_test_messages [OF assms(1-3)] hp by (simp add: ac_simps)
  then have parts: "distinct ?ps" "\<forall>p \<in># ?left + ?freed. p \<notin> set ?ps"
    using distinct_parts [OF assms(4)] by blast+
  have apart: "p \<notin># ?left" if "p \<in># ?freed" for p
  proof -
    have "count (mset (concat msgs)) p \<le> 1" using assms(4) distinct_count_atmost_1 by (metis le_refl zero_le_one)
    with that show ?thesis unfolding all by (simp add: not_in_iff flip: count_greater_zero_iff)
  qed
  have members: "p \<in> set (concat msgs) \<longleftrightarrow> p \<in> set ?ps \<or> p \<in># ?left \<or> p \<in># ?freed" for p
    unfolding set_mset_mset [symmetric] all by auto
  have "\<forall>p \<in> set ?ps. msg_ok (mc_heap (sh_mbox s)) p"
  proof
    fix p assume p: "p \<in> set ?ps"
    have "p \<notin># ?freed" using parts(2) p by auto
    moreover have "msg_ok h p" using assms(5) members p by blast
    ultimately show "msg_ok (mc_heap (sh_mbox s)) p" using hp by (simp add: msg_ok_def)
  qed
  from dealloc_all_ok [OF parts(1) this] obtain h' where h': "dealloc_all ?ps (mc_heap (sh_mbox s)) = Inr h'"
    "blocks h' = (\<lambda>a. if a \<in> set ?ps then None else block (mc_heap (sh_mbox s)) a)"
    by blast
  have "block h' p = (if p \<in> set (concat msgs) \<and> p \<notin># ?left then None else block h p)" for p
    unfolding h'(2) members using hp parts(2) apart [of p] by auto
  moreover have "shutdown_assert s \<longleftrightarrow> stored rx_cfg (sys_q (mc_queue (sh_mbox s))) = {#}"
    using quiescent_lfq_ok [of rx_cfg "mc_queue (sh_mbox s)"] all_joined_idle(1) [OF inv assms(3)] inv
      lfq.size_of_zero_iff [of rx_cfg "sys_q (mc_queue (sh_mbox s))"]
    by (auto simp: shutdown_assert_def shutdown_inv_def mc_inv_def)
  ultimately show ?thesis using h'(1) hp by (simp add: shutdown_cleanup_def)
qed

end
