(* ===== verification/Transport_Local.thy ===== *)
theory Transport_Local
  imports Container Mailbox
begin

text \<open>
  \<open>itcTransportLocal.cc\<close>: delivery between the mailboxes of one process. The mailboxes are
  the entries of a container of 1024; the transport holds a weak pointer to it, \<open>None\<close> before
  \<open>initialise\<close>. The heap is only read. The lemmas lift the contract of one mailbox to the
  container.
\<close>

type_synonym mbox_list = "mailbox container"

definition initialise_local :: "mbox_list \<Rightarrow> mbox_list option \<Rightarrow> bool \<times> mbox_list option" where
  "initialise_local mboxList _ = (True, Some mboxList)"

definition local_send :: "heap \<Rightarrow> ptr \<Rightarrow> mbox_list option \<Rightarrow> (itc_code \<times> mbox_list option) res" where
  "local_send h adminMsg st =
     and_then (read_field F_receiver adminMsg h) (\<lambda>rcv.
       case st of
         None \<Rightarrow> Inl WildAccess
       | Some ct \<Rightarrow>
           (let receiver = ct_at (rcv AND ITC_MASK_UNIT_ID) ct
            in if receiver \<noteq> nullptr
               then and_then (read_entry receiver ct) (\<lambda>m.
                    and_then (mbox_push adminMsg m) (\<lambda>(_, m').
                    and_then (write_entry receiver m' ct) (\<lambda>ct'. Inr (ITC_OK, Some ct'))))
               else Inr (ITC_FAILED, st)))"

definition local_receive :: "ptr \<Rightarrow> u32 \<Rightarrow> mbox_list \<Rightarrow> (ptr \<times> mbox_list) res" where
  "local_receive myMbox mode ct =
     and_then (read_entry myMbox ct) (\<lambda>m.
     and_then (mbox_pop mode m) (\<lambda>(msg, m').
     and_then (write_entry myMbox m' ct) (\<lambda>ct'. Inr (msg, ct'))))"

section \<open>Lifting the mailbox contract\<close>

definition mbox_at :: "nat \<Rightarrow> mbox_list \<Rightarrow> mailbox" where
  "mbox_at i ct = ct_entries ct ! i"

definition set_mbox :: "nat \<Rightarrow> mailbox \<Rightarrow> mbox_list \<Rightarrow> mbox_list" where
  "set_mbox i m ct = ct\<lparr>ct_entries := (ct_entries ct)[i := m]\<rparr>"

definition list_ok :: "mbox_list \<Rightarrow> bool" where
  "list_ok ct \<longleftrightarrow> ct_size ct = ITC_MAX_SUPPORTED_MAILBOXES \<and> place_ok (ct_size ct) (ct_base ct) \<and>
     length (ct_entries ct) = unat (ct_size ct)"

lemma set_mbox_simps [simp]:
  "set_mbox i m (set_mbox i m' ct) = set_mbox i m ct"
  "list_ok ct \<Longrightarrow> i < 1024 \<Longrightarrow> mbox_at i (set_mbox i m ct) = m"
  "j \<noteq> i \<Longrightarrow> mbox_at j (set_mbox i m ct) = mbox_at j ct"
  "ct_at k (set_mbox i m ct) = ct_at k ct"
  "list_ok ct \<Longrightarrow> list_ok (set_mbox i m ct)"
  by (auto simp: set_mbox_def mbox_at_def list_ok_def itc_const ct_at_def)

lemma set_mbox_id [simp]: "set_mbox i (mbox_at i ct) ct = ct"
  by (simp add: set_mbox_def mbox_at_def)

lemma list_entry:
  assumes "list_ok ct" "i < 1024"
  shows "entry_index ct (ct_at (of_nat i) ct) = Some i" "ct_at (of_nat i) ct \<noteq> nullptr"
proof -
  show "entry_index ct (ct_at (of_nat i) ct) = Some i"
    using assms entry_index_at [of i ct] by (simp add: list_ok_def itc_const)
  have "ct_at (of_nat i) ct \<in> set (map (\<lambda>i. GET_ALIGNED_ENTRY (ct_base ct) (of_nat i)) [0..<unat (ct_size ct)])"
    using assms by (auto simp: ct_at_def list_ok_def itc_const)
  with entries_distinct(2) [of "ct_size ct" "ct_base ct"] assms(1)
  show "ct_at (of_nat i) ct \<noteq> nullptr" unfolding list_ok_def by metis
qed

definition addressed_to :: "heap \<Rightarrow> nat \<Rightarrow> ptr \<Rightarrow> bool" where
  "addressed_to h i p \<longleftrightarrow>
     (case read_field F_receiver p h of Inl _ \<Rightarrow> False | Inr rcv \<Rightarrow> unat (unit_of rcv) = i)"

lemma addressed_toE:
  assumes "addressed_to h i p"
  obtains rcv where "read_field F_receiver p h = Inr rcv" "unit_of rcv = of_nat i"
proof (cases "read_field F_receiver p h")
  case (Inr rcv)
  with assms have "unat (unit_of rcv) = i" by (simp add: addressed_to_def)
  then have "unit_of rcv = of_nat i" by (metis of_nat_unat ucast_id)
  with Inr that show thesis by blast
qed (use assms in \<open>simp add: addressed_to_def\<close>)

lemma local_send_push:
  assumes "list_ok ct" "i < 1024" "addressed_to h i p"
  shows "local_send h p (Some ct) =
    and_then (mbox_push p (mbox_at i ct)) (\<lambda>(_, m). Inr (ITC_OK, Some (set_mbox i m ct)))"
proof -
  from assms(3) obtain rcv where "read_field F_receiver p h = Inr rcv" "unit_of rcv = of_nat i"
    by (rule addressed_toE)
  with list_entry [OF assms(1,2)] show ?thesis
    by (simp add: local_send_def Let_def read_entry_def write_entry_def mbox_at_def set_mbox_def
        split: prod.splits)
qed

lemma local_receive_pop:
  assumes "list_ok ct" "i < 1024"
  shows "local_receive (ct_at (of_nat i) ct) mode ct =
    and_then (mbox_pop mode (mbox_at i ct)) (\<lambda>(p, m). Inr (p, set_mbox i m ct))"
  using list_entry [OF assms]
  by (simp add: local_receive_def read_entry_def write_entry_def mbox_at_def set_mbox_def)

fun send_all :: "heap \<Rightarrow> ptr list \<Rightarrow> mbox_list option \<Rightarrow> (itc_code list \<times> mbox_list option) res" where
  "send_all h [] st = Inr ([], st)"
| "send_all h (p # ps) st =
     and_then (local_send h p st) (\<lambda>(r, st'). and_then (send_all h ps st') (\<lambda>(rs, st''). Inr (r # rs, st'')))"

lemma send_all_put_seq:
  assumes "list_ok ct" "i < 1024" "list_all (addressed_to h i) ps"
    and "put_seq mbox_push ps (mbox_at i ct) = Inr (bs, m)"
  shows "send_all h ps (Some ct) = Inr (replicate (length ps) ITC_OK, Some (set_mbox i m ct))"
  using assms
proof (induction ps arbitrary: ct bs)
  case (Cons p ps)
  from Cons.prems(4) obtain b m' bs' where
    "mbox_push p (mbox_at i ct) = Inr (b, m')" "put_seq mbox_push ps m' = Inr (bs', m)"
    by (auto simp: and_then_Inr_iff)
  with Cons.prems(1-3) Cons.IH [of "set_mbox i m' ct" bs'] show ?case
    by (simp add: local_send_push)
qed auto

lemma receive_all_get_seq:
  assumes "list_ok ct" "i < 1024" "get_seq (mbox_pop mode) n (mbox_at i ct) = Inr (ps, m)"
  shows "get_seq (local_receive (ct_at (of_nat i) ct) mode) n ct = Inr (ps, set_mbox i m ct)"
  using assms
proof (induction n arbitrary: ct ps)
  case (Suc n)
  from Suc.prems(3) obtain p m' ps' where
    "mbox_pop mode (mbox_at i ct) = Inr (p, m')" "get_seq (mbox_pop mode) n m' = Inr (ps', m)"
    "ps = p # ps'"
    by (auto simp: and_then_Inr_iff)
  with Suc.prems(1,2) Suc.IH [of "set_mbox i m' ct" ps'] show ?case
    by (simp add: local_receive_pop)
qed auto

text \<open>A process whose mailbox 1 is active, and a message for mailbox \<open>i\<close>.\<close>

definition demo_msg :: "u32 \<Rightarrow> u8 list" where
  "demo_msg i = put32 4 i (fresh_bytes 7 16 (\<lambda>_. 0))"

lemma demo_msg_ok: "msg_bytes_ok (demo_msg i)" "length (demo_msg i) = 33" "get32 4 (demo_msg i) = i"
    "get32 8 (demo_msg i) = 0" "get32 12 (demo_msg i) = 16"
  by (simp_all add: demo_msg_def msg_bytes_ok_put_header msg_bytes_ok_fresh itc_const)

definition demo_msg_heap :: "u32 \<Rightarrow> heap" where
  "demo_msg_heap i = demo_heap\<lparr>blocks := [0x1000 \<mapsto> demo_msg i], allocs := 1\<rparr>"

lemma demo_addressed: "unat (unit_of k) = i \<Longrightarrow> addressed_to (demo_msg_heap k) i 0x1000"
  by (simp add: addressed_to_def demo_msg_heap_def read_field_def heap_simps demo_msg_ok)

lemma demo_process:
  "\<exists>ct. list_ok ct \<and> mbox_ok (mbox_at 1 ct) \<and> mb_active (mbox_at 1 ct) \<and> mbox_list (mbox_at 1 ct) = [] \<and>
     \<not> mb_active (mbox_at 2 ct) \<and> mb_id (mbox_at 2 ct) = ITC_MAILBOX_ID_DEFAULT \<and> ct_base ct = 0x100000"
proof -
  have "place_ok 1024 0x100000" by (simp add: place_ok_def)
  from container_new_inv [OF this, of mbox_new] obtain ct0 where
    ct0: "container_new 1024 0x100000 mbox_new = Inr ct0" "ct_inv ct0 {#}" "ct_size ct0 = 1024"
      "ct_base ct0 = 0x100000" "ct_entries ct0 = map (\<lambda>i. mbox_new (of_nat i)) [0..<1024]"
    by auto
  then have ok: "list_ok ct0" by (simp add: list_ok_def itc_const ct_inv_def)
  have "mbox_ok ((mbox_new 1)\<lparr>mb_active := True\<rparr>)" "mbox_list ((mbox_new 1)\<lparr>mb_active := True\<rparr>) = []"
    using mbox_new_ok [of 1] by (simp_all add: mbox_ok_def mbox_list_def)
  moreover have "\<not> mb_active (mbox_at 2 ct0)" "mb_id (mbox_at 2 ct0) = ITC_MAILBOX_ID_DEFAULT"
    using ct0(5) by (simp_all add: mbox_at_def mbox_new_def)
  moreover have "ct_base (set_mbox 1 m ct0) = 0x100000" for m using ct0 by (simp add: set_mbox_def)
  ultimately show ?thesis using ok
    by (intro exI [of _ "set_mbox 1 ((mbox_new 1)\<lparr>mb_active := True\<rparr>) ct0"]) simp
qed

text \<open>C10: Messages sent to an active mailbox of the process reach it: after sending any sequence of
  messages addressed to one active mailbox that has room for them, receiving from that mailbox
  (in either mode) returns first what it held and then the messages sent, all of them, each
  once and in order, and no other mailbox has changed.\<close>

theorem local_delivery_in_order:
  assumes "list_ok ct" "i < 1024" "mbox_ok (mbox_at i ct)" "mb_active (mbox_at i ct)"
    and "list_all (addressed_to h i) ps" "nullptr \<notin> set ps"
    and "length (mbox_list (mbox_at i ct)) + length ps \<le> 1024"
  shows "\<exists>ct' ct''. send_all h ps (Some ct) = Inr (replicate (length ps) ITC_OK, Some ct') \<and>
    get_seq (local_receive (ct_at (of_nat i) ct') mode) (length (mbox_list (mbox_at i ct)) + length ps) ct' =
      Inr (mbox_list (mbox_at i ct) @ ps, ct'') \<and>
    mbox_list (mbox_at i ct'') = [] \<and> (\<forall>j. j \<noteq> i \<longrightarrow> mbox_at j ct'' = mbox_at j ct)"
proof -
  from mbox.delivered_in_order [OF assms(3,4,6,7), of mode] obtain m' m'' where
    m: "put_seq mbox_push ps (mbox_at i ct) = Inr (replicate (length ps) True, m')"
      "get_seq (mbox_pop mode) (length (mbox_list (mbox_at i ct)) + length ps) m' =
        Inr (mbox_list (mbox_at i ct) @ ps, m'')" "mbox_list m'' = []" by blast
  let ?ct' = "set_mbox i m' ct"
  have ok: "list_ok ?ct'" "mbox_at i ?ct' = m'" using assms(1,2) by simp_all
  have "send_all h ps (Some ct) = Inr (replicate (length ps) ITC_OK, Some ?ct')"
    using send_all_put_seq [OF assms(1,2,5) m(1)] .
  moreover have "get_seq (local_receive (ct_at (of_nat i) ?ct') mode)
      (length (mbox_list (mbox_at i ct)) + length ps) ?ct' =
    Inr (mbox_list (mbox_at i ct) @ ps, set_mbox i m'' ?ct')"
    using m(2) by (intro receive_all_get_seq [OF ok(1) assms(2)]) (simp only: ok(2))
  ultimately show ?thesis using m(3) ok assms(1,2) by (intro exI conjI) auto
qed

theorem local_delivery_in_order_witness:
  "\<exists>ct ct' ct''. send_all (demo_msg_heap 1) [0x1000] (Some ct) = Inr ([ITC_OK], Some ct') \<and>
     get_seq (local_receive (ct_at 1 ct') 0) 1 ct' = Inr ([0x1000], ct'')"
proof -
  from demo_process obtain ct where ct: "list_ok ct" "mbox_ok (mbox_at 1 ct)"
    "mb_active (mbox_at 1 ct)" "mbox_list (mbox_at 1 ct) = []" by blast
  have "addressed_to (demo_msg_heap 1) 1 0x1000" by (rule demo_addressed) code_simp
  with local_delivery_in_order [OF ct(1) _ ct(2,3), of "demo_msg_heap 1" "[0x1000]" 0] ct(4)
  show ?thesis by auto
qed

text \<open>Sending never reports a failure of the mailbox: to an inactive mailbox it returns OK, and
  the message is neither queued nor freed; to a unit id from 1024 up, which the index is not
  checked against, it reaches outside the container.\<close>

theorem local_send_unchecked:
  assumes "list_ok ct" "unat (ct_base ct) + 64 * 65536 < 2 ^ 64" "addressed_to h i p"
  shows "if i < 1024 then \<not> mb_active (mbox_at i ct) \<longrightarrow> local_send h p (Some ct) = Inr (ITC_OK, Some ct)
         else local_send h p (Some ct) = Inl WildAccess"
proof (cases "i < 1024")
  case True
  with assms show ?thesis by (simp add: local_send_push mailbox_inactive)
next
  case False
  from assms(3) obtain rcv where rcv: "read_field F_receiver p h = Inr rcv" "unit_of rcv = of_nat i"
    by (rule addressed_toE)
  have i: "i < 65536" using assms(3) unit_of_less by (auto simp: addressed_to_def split: sum.splits)
  then have "unat (ct_at (of_nat i) ct) = unat (ct_base ct) + 64 * i"
    unfolding ct_at_def using assms(2) by (intro unat_entry) auto
  then have "ct_at (of_nat i) ct \<noteq> nullptr"
    using assms(1) by (auto simp: list_ok_def place_ok_def simp flip: unat_gt_0)
  moreover have "entry_index ct (ct_at (of_nat i) ct) = None"
    using False i entry_index_at [of i ct] assms(1) by (simp add: list_ok_def itc_const)
  ultimately show ?thesis using False rcv by (simp add: local_send_def Let_def read_entry_def)
qed

theorem local_send_unchecked_witness:
  "\<exists>ct. local_send (demo_msg_heap 2) 0x1000 (Some ct) = Inr (ITC_OK, Some ct) \<and>
     local_send (demo_msg_heap 1024) 0x1000 (Some ct) = Inl WildAccess"
proof -
  from demo_process obtain ct where ct: "list_ok ct" "\<not> mb_active (mbox_at 2 ct)"
    "ct_base ct = 0x100000" by blast
  have "addressed_to (demo_msg_heap 2) 2 0x1000" "addressed_to (demo_msg_heap 1024) 1024 0x1000"
    by (rule demo_addressed; code_simp)+
  with local_send_unchecked [OF ct(1), of "demo_msg_heap 2" 2 "0x1000"]
    local_send_unchecked [OF ct(1), of "demo_msg_heap 1024" 1024 "0x1000"] ct(2,3)
  show ?thesis by (intro exI [of _ ct]) simp
qed

end
