(* ===== verification/Transport_Local_Tests.thy ===== *)
theory Transport_Local_Tests
  imports Transport_Local
begin

text \<open>
  \<open>itcTransportLocalTest.cc\<close>: the fixture makes a container of mailboxes, registers a sender and a
  receiver and activates them; \<open>test1\<close> sends one message and receives it, \<open>test2\<close> sends 1000. The
  two threads of \<open>test2\<close> are modelled in the order sender, receiver; the receiver's loop is a
  partial function, since it does not end when the messages run out.
\<close>

section \<open>The fixture\<close>

text \<open>The region id is shifted although it is one already; what is left of it is 0.\<close>

definition test_mailbox :: "u32 \<Rightarrow> u32 \<Rightarrow> mailbox" where
  "test_mailbox m_regionId index = (mbox_new ITC_FLAG_DEFAULT)\<lparr>mb_id :=
     push_bit ITC_REGION_ID_SHIFT m_regionId OR (index AND ITC_MASK_UNIT_ID)\<rparr>"

record local_fixture =
  lf_sender :: ptr
  lf_receiver :: ptr
  lf_transport :: "mbox_list option"   \<comment> \<open>\<open>m_transportLocal\<close>, which reaches \<open>m_mboxList\<close>\<close>

definition take_mailbox :: "string \<Rightarrow> mbox_list \<Rightarrow> heap \<Rightarrow> (ptr \<times> mbox_list \<times> heap) res" where
  "take_mailbox name ct h =
     and_then (tryPopFromQueue ct) (\<lambda>(p, ct).
     let (_, ct) = addEntryToHashMap name p ct
     in and_then (read_entry p ct) (\<lambda>m.
        and_then (setState True (m, h)) (\<lambda>(m, h).
        and_then (write_entry p m ct) (\<lambda>ct. Inr (p, ct, h)))))"

definition local_SetUp :: "ptr \<Rightarrow> heap \<Rightarrow> (local_fixture \<times> heap) res" where
  "local_SetUp base h =
     and_then (container_new ITC_MAX_SUPPORTED_MAILBOXES base (test_mailbox 0x00200000)) (\<lambda>ct.
     and_then (take_mailbox ''sender'' ct h) (\<lambda>(snd, ct, h).
     and_then (take_mailbox ''receiver'' ct h) (\<lambda>(rcv, ct, h).
       Inr (\<lparr>lf_sender = snd, lf_receiver = rcv, lf_transport = prod.snd (initialise_local ct None)\<rparr>, h))))"

text \<open>Allocating a message and writing the ids of the two mailboxes into it.\<close>

definition addressed_message :: "u32 \<Rightarrow> local_fixture \<Rightarrow> heap \<Rightarrow> (ptr \<times> heap) res" where
  "addressed_message msgno f h =
     (case lf_transport f of
        None \<Rightarrow> Inl WildAccess
      | Some ct \<Rightarrow>
          and_then (allocate msgno (ucast ITC_MESSAGE_MSGNO_SIZE) h) (\<lambda>(msg, h).
          and_then (read_entry (lf_receiver f) ct) (\<lambda>rm.
          and_then (write_field F_receiver msg (mb_id rm) h) (\<lambda>h.
          and_then (read_entry (lf_sender f) ct) (\<lambda>sm.
          and_then (write_field F_sender msg (mb_id sm) h) (\<lambda>h. Inr (msg, h)))))))"

definition local_receive_in :: "u32 \<Rightarrow> local_fixture \<Rightarrow> (ptr \<times> local_fixture) res" where
  "local_receive_in mode f =
     (case lf_transport f of
        None \<Rightarrow> Inl WildAccess
      | Some ct \<Rightarrow> and_then (local_receive (lf_receiver f) mode ct) (\<lambda>(msg, ct).
          Inr (msg, f\<lparr>lf_transport := Some ct\<rparr>)))"

definition local_send_in :: "heap \<Rightarrow> ptr \<Rightarrow> local_fixture \<Rightarrow> local_fixture res" where
  "local_send_in h msg f =
     and_then (local_send h msg (lf_transport f)) (\<lambda>(_, st). Inr (f\<lparr>lf_transport := st\<rparr>))"

section \<open>The tests\<close>

text \<open>\<open>test1\<close>: the value is the assertion.\<close>

definition local_test1 :: "local_fixture \<Rightarrow> heap \<Rightarrow> (bool \<times> local_fixture \<times> heap) res" where
  "local_test1 f h =
     and_then (addressed_message 0xAAAABBBB f h) (\<lambda>(sentMessage, h).
     and_then (local_send_in h sentMessage f) (\<lambda>f.
     and_then (local_receive_in ITC_MODE_RECEIVE_NON_BLOCKING f) (\<lambda>(receivedMessage, f).
       Inr (receivedMessage = sentMessage, f, h))))"

text \<open>\<open>test2\<close>: the sender allocates all messages and then sends them, the receiver collects as many.\<close>

fun prepare_messages :: "nat list \<Rightarrow> local_fixture \<Rightarrow> heap \<Rightarrow> (ptr list \<times> heap) res" where
  "prepare_messages [] f h = Inr ([], h)"
| "prepare_messages (i # is) f h =
     and_then (addressed_message (0xFFFF + of_nat i) f h) (\<lambda>(p, h).
     and_then (prepare_messages is f h) (\<lambda>(ps, h). Inr (p # ps, h)))"

fun send_messages :: "heap \<Rightarrow> ptr list \<Rightarrow> local_fixture \<Rightarrow> local_fixture res" where
  "send_messages h [] f = Inr f"
| "send_messages h (p # ps) f = and_then (local_send_in h p f) (\<lambda>f. send_messages h ps f)"

partial_function (option) receive_messages ::
    "nat \<Rightarrow> ptr list \<Rightarrow> local_fixture \<Rightarrow> (ptr list \<times> local_fixture) res option" where
  "receive_messages n got f =
     (if length got < n
      then case local_receive_in ITC_MODE_DEFAULT f of
             Inl e \<Rightarrow> Some (Inl e)
           | Inr (msg, f) \<Rightarrow> if msg \<noteq> nullptr then receive_messages n (got @ [msg]) f else receive_messages n got f
      else Some (Inr (got, f)))"

definition NUMBER_OF_MESSAGES_2 :: nat where
  "NUMBER_OF_MESSAGES_2 = 1000"

definition local_test2 :: "local_fixture \<Rightarrow> heap \<Rightarrow> (ptr list \<times> local_fixture \<times> heap) res option" where
  "local_test2 f h =
     (case prepare_messages [0..<NUMBER_OF_MESSAGES_2] f h of
        Inl e \<Rightarrow> Some (Inl e)
      | Inr (sentMessages, h) \<Rightarrow>
          (case send_messages h sentMessages f of
             Inl e \<Rightarrow> Some (Inl e)
           | Inr f \<Rightarrow>
               map_option (\<lambda>r. and_then r (\<lambda>(receivedMessages, f).
                   and_then (dealloc_all receivedMessages h) (\<lambda>h. Inr (receivedMessages, f, h))))
                 (receive_messages NUMBER_OF_MESSAGES_2 [] f)))"

section \<open>The fixture is usable\<close>

definition mailbox_ready :: "nat \<Rightarrow> mbox_list \<Rightarrow> bool" where
  "mailbox_ready i ct \<longleftrightarrow> i < 1024 \<and> mbox_ok (mbox_at i ct) \<and> mb_active (mbox_at i ct) \<and>
     mbox_list (mbox_at i ct) = [] \<and> unat (unit_of (mb_id (mbox_at i ct))) = i"

definition fixture_ok :: "local_fixture \<Rightarrow> bool" where
  "fixture_ok f \<longleftrightarrow> (\<exists>ct i j. lf_transport f = Some ct \<and> list_ok ct \<and> mailbox_ready i ct \<and> mailbox_ready j ct \<and>
     lf_receiver f = ct_at (of_nat i) ct \<and> lf_sender f = ct_at (of_nat j) ct \<and> i \<noteq> j)"

lemma test_mailbox_id:
  assumes "i < 1024"
  shows "mb_id (test_mailbox 0x00200000 (of_nat i)) = of_nat i"
proof -
  have region: "push_bit 20 (0x00200000 :: u32) = 0" by code_simp
  have "(of_nat i :: u32) AND ITC_MASK_UNIT_ID = of_nat i"
    using assms by (rule unit_of_index)
  then show ?thesis unfolding test_mailbox_def ITC_REGION_ID_SHIFT_def region by simp
qed

lemma take_mailbox_ok:
  assumes "ct_inv ct held" "list_ok ct" "size held < 1024"
    and fresh: "\<And>i. i < 1024 \<Longrightarrow> ct_at (of_nat i) ct \<notin># held \<Longrightarrow> mbox_at i ct = test_mailbox 0x00200000 (of_nat i)"
  shows "\<exists>i ct'. take_mailbox name ct h = Inr (ct_at (of_nat i) ct, ct', h) \<and> i < 1024 \<and>
    ct_at (of_nat i) ct \<notin># held \<and> list_ok ct' \<and> ct_inv ct' (held + {#ct_at (of_nat i) ct#}) \<and>
    ct_base ct' = ct_base ct \<and> mailbox_ready i ct' \<and> (\<forall>j. j \<noteq> i \<longrightarrow> mbox_at j ct' = mbox_at j ct)"
proof -
  have size: "unat (ct_size ct) = 1024" using assms(2) by (simp add: list_ok_def itc_const)
  from acquire_cases [OF assms(1)] assms(3) obtain p ct1 where p: "tryPopFromQueue ct = Inr (p, ct1)"
    "ct_inv ct1 (held + {#p#})" "p \<in> set (all_entries ct)" "p \<notin># held"
    using size by (metis less_irrefl)
  from p(3) obtain i where i: "i < 1024" "p = ct_at (of_nat i) ct"
    by (auto simp: all_entries_def ct_at_def size)
  have ct1: "ct_entries ct1 = ct_entries ct" "ct_base ct1 = ct_base ct" "ct_size ct1 = ct_size ct"
    using p(1) by (auto simp: tryPopFromQueue_def and_then_Inr_iff)
  define ct2 where "ct2 = prod.snd (addEntryToHashMap name p ct1)"
  have ct2: "ct_entries ct2 = ct_entries ct" "ct_base ct2 = ct_base ct" "ct_size ct2 = ct_size ct"
    "ct_inv ct2 (held + {#p#})" "list_ok ct2"
    using ct1 p(2) assms(2) by (auto simp: ct2_def addEntryToHashMap_def ct_inv_def list_ok_def)
  let ?m = "(test_mailbox 0x00200000 (of_nat i))\<lparr>mb_active := True\<rparr>"
  have at: "ct_at (of_nat i) ct2 = p" using ct2(2) i(2) by (simp add: ct_at_def)
  note entry = list_entry(1) [OF ct2(5) i(1), unfolded at]
  have m: "mbox_at i ct2 = test_mailbox 0x00200000 (of_nat i)"
    using fresh [OF i(1)] p(4) i(2) ct2(1) by (simp add: mbox_at_def)
  then have on: "setState True (mbox_at i ct2, h) = Inr (?m, h)"
    by (simp add: setState_def test_mailbox_def mbox_new_def)
  have ready: "mailbox_ready i (set_mbox i ?m ct2)"
    using ct2(5) i(1) test_mailbox_id [OF i(1)] unit_of_index [OF i(1)] unat_of_nat_less [of i, where 'a = 32]
    by (simp add: mailbox_ready_def) (simp add: test_mailbox_def mbox_new_def mbox_ok_def mbox_list_def lfq_new_ok lfq_new_list)
  have "take_mailbox name ct h = Inr (p, set_mbox i ?m ct2, h)"
    using p(1) entry on
    by (simp add: take_mailbox_def case_prod_unfold ct2_def [symmetric] read_entry_def write_entry_def set_mbox_def mbox_at_def)
  moreover have "list_ok (set_mbox i ?m ct2)" using ct2(5) by simp
  moreover have "ct_inv (set_mbox i ?m ct2) (held + {#p#})" "ct_base (set_mbox i ?m ct2) = ct_base ct"
    using ct2 by (simp_all add: set_mbox_def ct_inv_def)
  moreover have "\<forall>j. j \<noteq> i \<longrightarrow> mbox_at j (set_mbox i ?m ct2) = mbox_at j ct"
    using ct2(1) by (simp add: set_mbox_def mbox_at_def)
  ultimately show ?thesis using i p(4) ready by blast
qed

lemma ready_frame: "mailbox_ready i ct \<Longrightarrow> mbox_at i ct' = mbox_at i ct \<Longrightarrow> mailbox_ready i ct'"
  by (simp add: mailbox_ready_def)

lemma local_SetUp_ok:
  assumes "place_ok ITC_MAX_SUPPORTED_MAILBOXES base"
  shows "\<exists>f. local_SetUp base h = Inr (f, h) \<and> fixture_ok f"
proof -
  obtain ct where ct: "container_new ITC_MAX_SUPPORTED_MAILBOXES base (test_mailbox 0x00200000) = Inr ct"
    "ct_inv ct {#}" "list_ok ct" "\<And>i. i < 1024 \<Longrightarrow> mbox_at i ct = test_mailbox 0x00200000 (of_nat i)"
    using container_new_inv [OF assms, of "test_mailbox 0x00200000"] assms
    by (auto simp: list_ok_def mbox_at_def itc_const)
  obtain j ct1 where s: "take_mailbox ''sender'' ct h = Inr (ct_at (of_nat j) ct, ct1, h)" "j < 1024"
    "list_ok ct1" "ct_inv ct1 {#ct_at (of_nat j) ct#}" "ct_base ct1 = ct_base ct" "mailbox_ready j ct1"
    "\<And>i. i \<noteq> j \<Longrightarrow> mbox_at i ct1 = mbox_at i ct"
    using take_mailbox_ok [OF ct(2,3), of "''sender''" h] ct(4) by auto
  have at: "ct_at k ct1 = ct_at k ct" for k using s(5) by (simp add: ct_at_def)
  obtain i ct2 where r: "take_mailbox ''receiver'' ct1 h = Inr (ct_at (of_nat i) ct1, ct2, h)" "i < 1024"
    "ct_at (of_nat i) ct1 \<noteq> ct_at (of_nat j) ct" "list_ok ct2" "ct_base ct2 = ct_base ct1" "mailbox_ready i ct2"
    "\<And>k. k \<noteq> i \<Longrightarrow> mbox_at k ct2 = mbox_at k ct1"
  proof -
    have "mbox_at k ct1 = test_mailbox 0x00200000 (of_nat k)"
      if "k < 1024" "ct_at (of_nat k) ct1 \<notin># {#ct_at (of_nat j) ct#}" for k
    proof -
      from that(2) at have "k \<noteq> j" by auto
      with s(7) ct(4) [OF that(1)] show ?thesis by simp
    qed
    from take_mailbox_ok [OF s(4,3) _ this, of "''receiver''" h] that show thesis by auto
  qed
  then have ne: "i \<noteq> j" using at by auto
  then have "mailbox_ready j ct2" using s(6) r(7) by (auto intro: ready_frame)
  moreover have "ct_at k ct2 = ct_at k ct" for k using s(5) r(5) by (simp add: ct_at_def)
  ultimately have "fixture_ok \<lparr>lf_sender = ct_at (of_nat j) ct, lf_receiver = ct_at (of_nat i) ct1, lf_transport = Some ct2\<rparr>"
    using r(4,6) ne at unfolding fixture_ok_def by (intro exI [of _ ct2] exI [of _ i] exI [of _ j]) simp
  then show ?thesis
    using ct(1) s(1) r(1) by (simp add: local_SetUp_def initialise_local_def)
qed

section \<open>The tests pass\<close>

text \<open>A fixture between the mailboxes at two indices.\<close>

definition fixture_at :: "nat \<Rightarrow> nat \<Rightarrow> mbox_list \<Rightarrow> local_fixture \<Rightarrow> bool" where
  "fixture_at i j ct f \<longleftrightarrow> lf_transport f = Some ct \<and> list_ok ct \<and> i < 1024 \<and> j < 1024 \<and>
     lf_receiver f = ct_at (of_nat i) ct \<and> lf_sender f = ct_at (of_nat j) ct \<and>
     unat (unit_of (mb_id (mbox_at i ct))) = i"

definition test_message :: "u32 \<Rightarrow> nat \<Rightarrow> nat \<Rightarrow> mbox_list \<Rightarrow> heap \<Rightarrow> u8 list" where
  "test_message no i j ct h =
     put32 0 (mb_id (mbox_at j ct)) (put32 4 (mb_id (mbox_at i ct)) (fresh_bytes no 4 (junk h)))"

lemma addressed_message_ok:
  assumes "fixture_at i j ct f" "can_alloc h 21"
  shows "addressed_message no f h = Inr (addr_at h (allocs h),
    h\<lparr>blocks := (blocks h)(addr_at h (allocs h) := Some (test_message no i j ct h)), allocs := allocs h + 1\<rparr>)"
proof -
  have entries: "read_entry (lf_receiver f) ct = Inr (mbox_at i ct)" "read_entry (lf_sender f) ct = Inr (mbox_at j ct)"
    using assms(1) list_entry(1) [of ct i] list_entry(1) [of ct j] by (simp_all add: fixture_at_def read_entry_def mbox_at_def)
  have "allocate no (ucast ITC_MESSAGE_MSGNO_SIZE) h = Inr (addr_at h (allocs h),
      h\<lparr>blocks := (blocks h)(addr_at h (allocs h) := Some (fresh_bytes no 4 (junk h))), allocs := allocs h + 1\<rparr>)"
    using allocate_bytes [of 4 h no] assms(2) by (simp add: itc_const)
  then show ?thesis
    using entries assms(1)
    by (simp add: addressed_message_def fixture_at_def write_field_def heap_simps test_message_def set_block_def)
qed

lemma test_message_ok:
  assumes "fixture_at i j ct f" "a \<noteq> nullptr" "block h' a = Some (test_message no i j ct h)"
  shows "msg_ok h' a" "addressed_to h' i a"
  using assms
  by (simp_all add: msg_ok_def test_message_def msg_bytes_ok_put_header msg_bytes_ok_fresh addressed_to_def
      read_field_def heap_simps fixture_at_def itc_const)

definition has_room :: "heap \<Rightarrow> nat \<Rightarrow> bool" where
  "has_room h n \<longleftrightarrow> distinct (map (\<lambda>k. addr_at h (allocs h + k)) [0..<n]) \<and>
     (\<forall>k < n. can_alloc (h\<lparr>allocs := allocs h + k\<rparr>) 21)"

lemma has_room_Suc:
  assumes "has_room h (Suc n)"
  shows "can_alloc h 21"
    "has_room (h\<lparr>blocks := (blocks h)(addr_at h (allocs h) := x), allocs := Suc (allocs h)\<rparr>) n"
    "addr_at h (allocs h) \<notin> set (map (\<lambda>k. addr_at h (Suc (allocs h) + k)) [0..<n])"
proof -
  have d: "distinct (addr_at h (allocs h) # map (\<lambda>k. addr_at h (Suc (allocs h) + k)) [0..<n])"
    and c: "\<forall>k < Suc n. can_alloc (h\<lparr>allocs := allocs h + k\<rparr>) 21"
    using assms by (simp_all add: has_room_def map_upt_Suc del: upt_Suc)
  show "can_alloc h 21" using c by auto
  show new: "addr_at h (allocs h) \<notin> set (map (\<lambda>k. addr_at h (Suc (allocs h) + k)) [0..<n])" using d by simp
  have "can_alloc (h\<lparr>blocks := (blocks h)(addr_at h (allocs h) := x), allocs := Suc (allocs h) + k\<rparr>) 21" if "k < n" for k
  proof -
    have "addr_at h (Suc (allocs h) + k) \<in> set (map (\<lambda>k. addr_at h (Suc (allocs h) + k)) [0..<n])"
      using that by simp
    with new have "addr_at h (Suc (allocs h) + k) \<noteq> addr_at h (allocs h)" by metis
    with c [rule_format, of "Suc k"] that show ?thesis by (simp add: can_alloc_def)
  qed
  with d show "has_room (h\<lparr>blocks := (blocks h)(addr_at h (allocs h) := x), allocs := Suc (allocs h)\<rparr>) n"
    by (simp add: has_room_def)
qed

lemma prepare_messages_ok:
  assumes "fixture_at i j ct f" "has_room h (length is)"
  defines "ps \<equiv> map (\<lambda>k. addr_at h (allocs h + k)) [0..<length is]"
  shows "\<exists>h'. prepare_messages is f h = Inr (ps, h') \<and> (\<forall>p \<in> set ps. msg_ok h' p \<and> addressed_to h' i p) \<and>
    (\<forall>a. a \<notin> set ps \<longrightarrow> block h' a = block h a) \<and> (\<forall>p \<in> set ps. block h p = None)"
  using assms(2) unfolding ps_def
proof (induction "is" arbitrary: h)
  case (Cons x "is")
  let ?a = "addr_at h (allocs h)"
  let ?bs = "test_message (0xFFFF + of_nat x) i j ct h"
  let ?h1 = "h\<lparr>blocks := (blocks h)(?a := Some ?bs), allocs := Suc (allocs h)\<rparr>"
  let ?ps = "map (\<lambda>k. addr_at h (Suc (allocs h) + k)) [0..<length is]"
  note room = has_room_Suc [OF Cons.prems [simplified]]
  have "\<exists>h'. prepare_messages is f ?h1 = Inr (?ps, h') \<and> (\<forall>p \<in> set ?ps. msg_ok h' p \<and> addressed_to h' i p) \<and>
      (\<forall>a. a \<notin> set ?ps \<longrightarrow> block h' a = block ?h1 a) \<and> (\<forall>p \<in> set ?ps. block ?h1 p = None)"
    using Cons.IH [OF room(2) [where x = "Some ?bs"]] by simp
  then obtain h' where h': "prepare_messages is f ?h1 = Inr (?ps, h')"
    "\<forall>p \<in> set ?ps. msg_ok h' p \<and> addressed_to h' i p" "\<forall>a. a \<notin> set ?ps \<longrightarrow> block h' a = block ?h1 a"
    "\<forall>p \<in> set ?ps. block ?h1 p = None" by blast
  have "block h' ?a = Some ?bs" using h'(3) room(3) by simp
  moreover have a: "?a \<noteq> nullptr" "block h ?a = None" using room(1) by (simp_all add: can_alloc_def)
  ultimately have ok: "msg_ok h' ?a" "addressed_to h' i ?a" using test_message_ok [OF assms(1)] by auto
  have "prepare_messages (x # is) f h = Inr (?a # ?ps, h')"
    using h'(1) addressed_message_ok [OF assms(1) room(1)] by simp
  moreover have "map (\<lambda>k. addr_at h (allocs h + k)) [0..<length (x # is)] = ?a # ?ps"
    by (simp add: map_upt_Suc del: upt_Suc)
  moreover have "\<forall>p \<in> set ?ps. block h p = None"
  proof
    fix p assume p: "p \<in> set ?ps"
    with room(3) have "p \<noteq> ?a" by metis
    with bspec [OF h'(4) p] show "block h p = None" by simp
  qed
  ultimately show ?case using ok h'(2,3) a(2) by auto
qed simp

lemma send_messages_ok:
  assumes "fixture_at i j ct f" "mbox_ok (mbox_at i ct)" "mb_active (mbox_at i ct)"
    and "length (mbox_list (mbox_at i ct)) + length ps \<le> 1024" "\<forall>p \<in> set ps. p \<noteq> nullptr \<and> addressed_to h i p"
  shows "\<exists>m. send_messages h ps f = Inr (f\<lparr>lf_transport := Some (set_mbox i m ct)\<rparr>) \<and> mbox_ok m \<and> mb_active m \<and>
    mbox_list m = mbox_list (mbox_at i ct) @ ps \<and> mb_id m = mb_id (mbox_at i ct)"
  using assms
proof (induction ps arbitrary: f ct)
  case Nil
  have "f\<lparr>lf_transport := Some ct\<rparr> = f" using Nil.prems(1) by (cases f) (simp add: fixture_at_def)
  with Nil show ?case by (intro exI [of _ "mbox_at i ct"]) simp
next
  case (Cons p ps)
  from Cons.prems mailbox_put_room [of "mbox_at i ct" p] obtain m where
    m: "mbox_push p (mbox_at i ct) = Inr (True, m)" "mbox_ok m" "mb_active m" "mbox_list m = mbox_list (mbox_at i ct) @ [p]"
    by auto
  have id: "mb_id m = mb_id (mbox_at i ct)" using m(1) by (auto simp: mbox_simps and_then_Inr_iff split: if_splits option.splits)
  have ct: "list_ok ct" "i < 1024" "lf_transport f = Some ct" using Cons.prems(1) by (simp_all add: fixture_at_def)
  let ?f = "f\<lparr>lf_transport := Some (set_mbox i m ct)\<rparr>"
  have sent: "local_send_in h p f = Inr ?f"
    using local_send_push [OF ct(1,2), of h p] Cons.prems(5) m(1) ct(3) by (simp add: local_send_in_def)
  have "fixture_at i j (set_mbox i m ct) ?f" using Cons.prems(1) id by (simp add: fixture_at_def)
  from Cons.IH [OF this] Cons.prems(4,5) m ct id obtain m' where
    "send_messages h ps ?f = Inr (?f\<lparr>lf_transport := Some (set_mbox i m' (set_mbox i m ct))\<rparr>)" "mbox_ok m'" "mb_active m'"
    "mbox_list m' = mbox_list (mbox_at i ct) @ p # ps" "mb_id m' = mb_id (mbox_at i ct)" by auto
  with sent show ?case by (intro exI [of _ m']) simp
qed

lemma receive_messages_ok:
  assumes "fixture_at i j ct f" "mbox_ok (mbox_at i ct)" "mb_active (mbox_at i ct)" "nullptr \<notin> set (mbox_list (mbox_at i ct))"
    and "length got + length (mbox_list (mbox_at i ct)) = n"
  shows "\<exists>f'. receive_messages n got f = Some (Inr (got @ mbox_list (mbox_at i ct), f'))"
  using assms
proof (induction "mbox_list (mbox_at i ct)" arbitrary: f ct got)
  case Nil
  then show ?case by (subst receive_messages.simps) simp
next
  case (Cons p ps)
  note held = Cons.hyps(2) [symmetric]
  obtain m where m: "mbox_pop ITC_MODE_DEFAULT (mbox_at i ct) = Inr (p, m)" "mbox_ok m" "mb_active m" "mbox_list m = ps"
    using mailbox_get_some [OF Cons.prems(2,3) held] by blast
  have id: "mb_id m = mb_id (mbox_at i ct)"
    using m(1) by (auto simp: mbox_simps and_then_Inr_iff itc_const split: if_splits option.splits)
  have ct: "list_ok ct" "i < 1024" "lf_transport f = Some ct" "lf_receiver f = ct_at (of_nat i) ct"
    using Cons.prems(1) by (simp_all add: fixture_at_def)
  let ?f = "f\<lparr>lf_transport := Some (set_mbox i m ct)\<rparr>"
  have got: "local_receive_in ITC_MODE_DEFAULT f = Inr (p, ?f)"
    using local_receive_pop [OF ct(1,2)] m(1) ct(3,4) by (simp add: local_receive_in_def)
  have "fixture_at i j (set_mbox i m ct) ?f" using Cons.prems(1) id by (simp add: fixture_at_def)
  moreover have "p \<noteq> nullptr" "length got < n" using Cons.prems(4,5) by (auto simp: held)
  ultimately show ?case
    using got Cons.hyps(1) [of "set_mbox i m ct" ?f "got @ [p]"] m ct(1,2) Cons.prems(4,5)
    by (subst receive_messages.simps) (simp add: held)
qed

lemma fixture_ok_at:
  assumes "fixture_ok f"
  obtains i j ct where "fixture_at i j ct f" "mailbox_ready i ct"
  using assms by (auto simp: fixture_ok_def fixture_at_def mailbox_ready_def)

lemma local_test1_passes:
  assumes "fixture_ok f" "can_alloc h 21"
  shows "\<exists>f' h'. local_test1 f h = Inr (True, f', h')"
proof -
  obtain i j ct where f: "fixture_at i j ct f" "mailbox_ready i ct" using assms(1) by (rule fixture_ok_at)
  let ?a = "addr_at h (allocs h)"
  let ?h1 = "h\<lparr>blocks := (blocks h)(?a := Some (test_message 0xAAAABBBB i j ct h)), allocs := allocs h + 1\<rparr>"
  have a: "?a \<noteq> nullptr" using assms(2) by (simp add: can_alloc_def)
  then have addr: "addressed_to ?h1 i ?a" using test_message_ok(2) [OF f(1)] by simp
  obtain m where m: "send_messages ?h1 [?a] f = Inr (f\<lparr>lf_transport := Some (set_mbox i m ct)\<rparr>)"
    "mbox_ok m" "mb_active m" "mbox_list m = [?a]"
    using send_messages_ok [OF f(1), of "[?a]" ?h1] f(2) a addr by (auto simp: mailbox_ready_def)
  have ct: "list_ok ct" "i < 1024" "lf_receiver f = ct_at (of_nat i) ct" using f(1) by (simp_all add: fixture_at_def)
  obtain m' where "mbox_pop ITC_MODE_RECEIVE_NON_BLOCKING m = Inr (?a, m')"
    using mailbox_get_some [OF m(2,3,4)] by blast
  then have "local_receive_in ITC_MODE_RECEIVE_NON_BLOCKING (f\<lparr>lf_transport := Some (set_mbox i m ct)\<rparr>) =
      Inr (?a, f\<lparr>lf_transport := Some (set_mbox i m' ct)\<rparr>)"
    using local_receive_pop [of "set_mbox i m ct" i] ct by (simp add: local_receive_in_def)
  moreover have "local_send_in ?h1 ?a f = Inr (f\<lparr>lf_transport := Some (set_mbox i m ct)\<rparr>)"
    using m(1) by (cases "local_send_in ?h1 ?a f") simp_all
  ultimately show ?thesis
    using addressed_message_ok [OF f(1) assms(2)] by (simp add: local_test1_def)
qed

text \<open>The whole way of a message: on a fixture as \<open>SetUp\<close> makes it and a heap that can hold 1000 more
  messages, the test ends, the receiver has got exactly the blocks the sender allocated, in the order
  they were sent, and deallocating them gives back the blocks there were.\<close>

theorem local_test2_passes:
  assumes "fixture_ok f" "has_room h NUMBER_OF_MESSAGES_2"
  shows "\<exists>f' h'. local_test2 f h =
      Some (Inr (map (\<lambda>k. addr_at h (allocs h + k)) [0..<NUMBER_OF_MESSAGES_2], f', h')) \<and> blocks h' = blocks h"
proof -
  obtain i j ct where f: "fixture_at i j ct f" "mailbox_ready i ct" using assms(1) by (rule fixture_ok_at)
  let ?ps = "map (\<lambda>k. addr_at h (allocs h + k)) [0..<NUMBER_OF_MESSAGES_2]"
  obtain h1 where h1: "prepare_messages [0..<NUMBER_OF_MESSAGES_2] f h = Inr (?ps, h1)"
    "\<forall>p \<in> set ?ps. msg_ok h1 p \<and> addressed_to h1 i p" "\<forall>a. a \<notin> set ?ps \<longrightarrow> block h1 a = block h a"
    "\<forall>p \<in> set ?ps. block h p = None"
    using prepare_messages_ok [OF f(1), of h "[0..<NUMBER_OF_MESSAGES_2]"] assms(2) by auto
  have nn: "\<forall>p \<in> set ?ps. p \<noteq> nullptr \<and> addressed_to h1 i p" using h1(2) by (simp add: msg_ok_def)
  have len: "length ?ps \<le> 1024" "length ?ps = NUMBER_OF_MESSAGES_2" by (simp_all add: NUMBER_OF_MESSAGES_2_def)
  obtain m where m: "send_messages h1 ?ps f = Inr (f\<lparr>lf_transport := Some (set_mbox i m ct)\<rparr>)"
    "mbox_ok m" "mb_active m" "mbox_list m = ?ps" "mb_id m = mb_id (mbox_at i ct)"
    using send_messages_ok [OF f(1), of ?ps h1] f(2) nn len(1) by (auto simp: mailbox_ready_def simp del: length_map)
  let ?f = "f\<lparr>lf_transport := Some (set_mbox i m ct)\<rparr>"
  have ct: "list_ok ct" "i < 1024" using f(1) by (simp_all add: fixture_at_def)
  have "fixture_at i j (set_mbox i m ct) ?f" using f(1) m(5) by (simp add: fixture_at_def)
  moreover have "nullptr \<notin> set ?ps" using nn by metis
  ultimately have "\<exists>f'. receive_messages NUMBER_OF_MESSAGES_2 [] ?f = Some (Inr ([] @ ?ps, f'))"
    using receive_messages_ok [of i j "set_mbox i m ct" ?f "[]" NUMBER_OF_MESSAGES_2] m(2-4) ct len(2)
    by (simp only: set_mbox_simps list.size add_0 simp_thms)
  then obtain f' where r: "receive_messages NUMBER_OF_MESSAGES_2 [] ?f = Some (Inr (?ps, f'))" by auto
  have "distinct ?ps" using assms(2) by (simp only: has_room_def)
  from dealloc_all_ok [OF this, of h1] h1(2) obtain h2 where h2: "dealloc_all ?ps h1 = Inr h2"
    "blocks h2 = (\<lambda>a. if a \<in> set ?ps then None else block h1 a)" by blast
  have "blocks h2 = blocks h"
  proof
    fix a show "blocks h2 a = blocks h a" using h2(2) h1(3,4) by (cases "a \<in> set ?ps") metis+
  qed
  moreover have "local_test2 f h = Some (Inr (?ps, f', h2))"
    using h1(1) m(1) r h2(1) by (simp only: local_test2_def sum.case prod.case option.map and_then.simps)
  ultimately show ?thesis by blast
qed

lemma demo_has_room: "has_room demo_heap 1000"
proof -
  have a: "unat (addr_at demo_heap k) = 4096 * (k + 1)" if "k < 1000" for k
  proof -
    have "addr_at demo_heap k = of_nat (4096 * (k + 1))" by (simp add: demo_heap_def)
    moreover have "4096 * (k + 1) < 2 ^ 64" using that by simp
    ultimately show ?thesis using unat_of_nat_less [of "4096 * (k + 1)", where 'a = 64]
      by (simp only: len_of_numeral_defs) simp
  qed
  have "inj_on (addr_at demo_heap) {0..<1000}"
  proof (rule inj_onI)
    fix k k' assume k: "k \<in> {0..<1000}" "k' \<in> {0..<1000}" "addr_at demo_heap k = addr_at demo_heap k'"
    then have "4096 * (k + 1) = 4096 * (k' + 1)" using a [of k] a [of k'] by (metis atLeastLessThan_iff)
    then show "k = k'" by simp
  qed
  moreover have "can_alloc (demo_heap\<lparr>allocs := k\<rparr>) 21" if "k < 1000" for k
  proof -
    have "addr_at demo_heap k \<noteq> nullptr" using a [OF that] by auto
    moreover have "unat (addr_at demo_heap k) + 21 < 2 ^ 64" unfolding a [OF that] using that by simp
    ultimately show ?thesis by (simp add: can_alloc_def) (simp add: demo_heap_def)
  qed
  moreover have "allocs demo_heap = 0" by (simp add: demo_heap_def)
  ultimately show ?thesis by (simp add: has_room_def distinct_map)
qed

theorem local_test2_passes_witness:
  "\<exists>f f' h'. local_SetUp 0x100000 demo_heap = Inr (f, demo_heap) \<and>
     local_test2 f demo_heap = Some (Inr (map (addr_at demo_heap) [0..<1000], f', h')) \<and>
     blocks h' = blocks demo_heap"
proof -
  have "place_ok ITC_MAX_SUPPORTED_MAILBOXES 0x100000" by (simp add: place_ok_def itc_const)
  from local_SetUp_ok [OF this] obtain f where f: "local_SetUp 0x100000 demo_heap = Inr (f, demo_heap)" "fixture_ok f"
    by blast
  moreover have "allocs demo_heap = 0" by (simp add: demo_heap_def)
  ultimately show ?thesis
    using local_test2_passes [OF f(2), of demo_heap] demo_has_room by (simp add: NUMBER_OF_MESSAGES_2_def)
qed

end
