(* ===== verification/File_System.thy ===== *)
theory File_System
  imports Itc_Prelude
begin

text \<open>
  \<open>itcFileSystem.cc\<close> over an abstract file tree: a map from paths (lists of components, the
  root first) to nodes. What \<open>std::filesystem\<close> does to the tree is written out; the
  environment says on which paths the operating system refuses a change and on which a status
  query throws.
\<close>

section \<open>File tree\<close>

type_synonym path = "string list"

datatype fkind = FDir | FReg

record fnode =
  fn_kind :: fkind
  fn_mode :: nat

type_synonym fsys = "path \<Rightarrow> fnode option"

record fs_env =
  fe_denied :: "path \<Rightarrow> bool"
  fe_throws :: "path \<Rightarrow> bool"
  fe_access :: "path \<Rightarrow> bool"    \<comment> \<open>\<open>access(F_OK | R_OK | W_OK)\<close> succeeds\<close>

datatype path_type = PT_UNDEFINED | REGULAR_FILE | DIRECTORY

datatype fs_code = FS_UNDEFINED | FS_OK | FS_SYSCALL_ERROR | FS_INVALID_ARGUMENTS | FS_EXCEPTION_THROWN

definition is_kind :: "fkind \<Rightarrow> path \<Rightarrow> fsys \<Rightarrow> bool" where
  "is_kind k p fs \<longleftrightarrow> (case fs p of None \<Rightarrow> False | Some n \<Rightarrow> fn_kind n = k)"

definition prefixes :: "path \<Rightarrow> path list" where
  "prefixes p = map (\<lambda>i. take (i + 1) p) [0..<length p]"

text \<open>\<open>create_directories\<close>: missing directories are made from the root down; a component that is a
  file, or a refusal, is an error that ends the call.\<close>

fun create_directories :: "fs_env \<Rightarrow> path list \<Rightarrow> fsys \<Rightarrow> bool \<times> fsys" where
  "create_directories E [] fs = (True, fs)"
| "create_directories E (p # ps) fs =
     (case fs p of
        Some n \<Rightarrow> if fn_kind n = FDir then create_directories E ps fs else (False, fs)
      | None \<Rightarrow> if fe_denied E p then (False, fs)
                else create_directories E ps (fs(p \<mapsto> \<lparr>fn_kind = FDir, fn_mode = 493\<rparr>)))"

section \<open>Operations\<close>

definition fs_exists :: "fs_env \<Rightarrow> path \<Rightarrow> fsys \<Rightarrow> bool" where
  "fs_exists E p fs \<longleftrightarrow> \<not> fe_throws E p \<and> fs p \<noteq> None"

definition isAccessible :: "fs_env \<Rightarrow> path \<Rightarrow> bool" where
  "isAccessible E p \<longleftrightarrow> fe_access E p"

text \<open>The loop over the components: the prefixes from position \<open>pos\<close> on get the permissions.\<close>

fun grant :: "fs_env \<Rightarrow> nat \<Rightarrow> path list \<Rightarrow> fsys \<Rightarrow> bool \<times> fsys" where
  "grant E mode [] fs = (True, fs)"
| "grant E mode (p # ps) fs =
     (case fs p of
        None \<Rightarrow> (False, fs)
      | Some n \<Rightarrow> if fe_denied E p then (False, fs)
                  else grant E mode ps (fs(p \<mapsto> n\<lparr>fn_mode := mode\<rparr>)))"

text \<open>The error code of \<open>create_directories\<close> is also set for the empty path.\<close>

definition create_and_grant :: "fs_env \<Rightarrow> path \<Rightarrow> path \<Rightarrow> nat \<Rightarrow> nat \<Rightarrow> fsys \<Rightarrow> fs_code \<times> fsys" where
  "create_and_grant E path dirPath pos mode fs =
     (let (ok, fs) = (if dirPath = [] then (False, fs) else create_directories E (prefixes dirPath) fs)
      in if \<not> ok then (FS_SYSCALL_ERROR, fs)
         else if fe_throws E path then (FS_EXCEPTION_THROWN, fs)
         else if is_kind FReg path fs \<and> fe_denied E path then (FS_SYSCALL_ERROR, fs)
         else let (ok, fs) = grant E mode (drop pos (prefixes path)) fs
              in if ok then (FS_OK, fs) else (FS_SYSCALL_ERROR, fs))"

text \<open>\<open>path.parent_path()\<close>: the root is its own parent; a single other component has the empty parent.\<close>

definition parent_path :: "path \<Rightarrow> path" where
  "parent_path p = (if p = [''/''] then p else butlast p)"

definition createPath :: "fs_env \<Rightarrow> path \<Rightarrow> path_type \<Rightarrow> nat \<Rightarrow> nat \<Rightarrow> fsys \<Rightarrow> fs_code \<times> fsys" where
  "createPath E path type pos mode fs =
     (if fs_exists E path fs then (FS_OK, fs)
      else case type of
             DIRECTORY \<Rightarrow> create_and_grant E path path pos mode fs
           | REGULAR_FILE \<Rightarrow> create_and_grant E path (parent_path path) pos mode fs
           | PT_UNDEFINED \<Rightarrow> (FS_INVALID_ARGUMENTS, fs))"

definition removePath :: "fs_env \<Rightarrow> path \<Rightarrow> fsys \<Rightarrow> fs_code \<times> fsys" where
  "removePath E path fs =
     (if fe_throws E path then (FS_EXCEPTION_THROWN, fs)
      else if fs path = None then (FS_OK, fs)
      else if fe_denied E path then (FS_EXCEPTION_THROWN, fs)
      else if is_kind FDir path fs
           then (FS_OK, \<lambda>q. if take (length path) q = path then None else fs q)
      else (FS_OK, fs(path := None)))"

section \<open>Prefixes\<close>

lemma prefixes_set: "q \<in> set (prefixes p) \<longleftrightarrow> q \<noteq> [] \<and> take (length q) p = q"
proof
  assume "q \<in> set (prefixes p)"
  then obtain i where i: "i < length p" "q = take (Suc i) p" by (auto simp: prefixes_def)
  then have "length q = Suc i" by simp
  with i show "q \<noteq> [] \<and> take (length q) p = q" by auto
next
  assume q: "q \<noteq> [] \<and> take (length q) p = q"
  have "length q \<le> length p" using arg_cong [OF conjunct2 [OF q], of length] by simp
  moreover obtain i where i: "length q = Suc i" using q by (cases q) auto
  ultimately have "i < length p" "q = take (Suc i) p" using q by auto
  then show "q \<in> set (prefixes p)" by (auto simp: prefixes_def)
qed

lemma prefixes_distinct: "distinct (prefixes p)"
proof -
  have "inj_on (\<lambda>i. take (i + 1) p) {0..<length p}"
  proof (rule inj_onI)
    fix i j assume ij: "i \<in> {0..<length p}" "j \<in> {0..<length p}" and e: "take (i + 1) p = take (j + 1) p"
    show "i = j" using arg_cong [OF e, of length] ij by simp
  qed
  then show ?thesis by (simp add: prefixes_def distinct_map)
qed

lemma prefixes_butlast:
  assumes "q \<in> set (prefixes (butlast p))"
  shows "q \<in> set (prefixes p)" "q \<noteq> p"
proof -
  from assms have q: "q \<noteq> []" "take (length q) (butlast p) = q" by (simp_all add: prefixes_set)
  have l: "length q \<le> length p - 1" using arg_cong [OF q(2), of length] by simp
  with q have "take (length q) p = q" by (simp add: butlast_conv_take min_absorb1)
  then show "q \<in> set (prefixes p)" using q(1) by (simp add: prefixes_set)
  show "q \<noteq> p" using l q(1) by (cases q) auto
qed

lemma path_in_granted: "pos < length p \<Longrightarrow> p \<in> set (drop pos (prefixes p))"
  by (auto simp: prefixes_def drop_map image_iff intro!: bexI [of _ "length p - 1"])

section \<open>Creating and granting\<close>

lemma create_directories_ok:
  assumes "distinct ps" "\<forall>q \<in> set ps. \<not> fe_denied E q" "\<forall>q \<in> set ps. \<not> is_kind FReg q fs"
  shows "create_directories E ps fs =
    (True, \<lambda>q. if q \<in> set ps \<and> fs q = None then Some \<lparr>fn_kind = FDir, fn_mode = 493\<rparr> else fs q)"
  using assms
proof (induction ps arbitrary: fs)
  case (Cons p ps)
  show ?case
  proof (cases "fs p")
    case None
    let ?fs = "fs(p \<mapsto> \<lparr>fn_kind = FDir, fn_mode = 493\<rparr>)"
    have "\<forall>q \<in> set ps. \<not> is_kind FReg q ?fs" using Cons.prems by (auto simp: is_kind_def)
    with Cons None show ?thesis by (auto simp: fun_eq_iff)
  next
    case (Some n)
    with Cons.prems(3) have "fn_kind n = FDir" by (cases "fn_kind n") (auto simp: is_kind_def)
    with Cons Some show ?thesis by (auto simp: fun_eq_iff)
  qed
qed (simp add: fun_eq_iff)

lemma grant_ok:
  assumes "distinct ps" "\<forall>q \<in> set ps. \<not> fe_denied E q" "\<forall>q \<in> set ps. fs q \<noteq> None"
  shows "grant E mode ps fs =
    (True, \<lambda>q. if q \<in> set ps then map_option (\<lambda>n. n\<lparr>fn_mode := mode\<rparr>) (fs q) else fs q)"
  using assms
proof (induction ps arbitrary: fs)
  case (Cons p ps)
  then obtain n where n: "fs p = Some n" by auto
  let ?fs = "fs(p \<mapsto> n\<lparr>fn_mode := mode\<rparr>)"
  have "\<forall>q \<in> set ps. ?fs q \<noteq> None" using Cons.prems by auto
  with Cons n show ?case by (auto simp: fun_eq_iff)
qed (simp add: fun_eq_iff)

lemma grant_missing:
  assumes "q \<in> set ps" "fs q = None"
  shows "\<exists>fs'. grant E mode ps fs = (False, fs') \<and> fs' q = None"
  using assms
proof (induction ps arbitrary: fs)
  case (Cons p ps)
  show ?case
  proof (cases "q = p")
    case False
    with Cons show ?thesis by (auto split: option.split)
  qed (use Cons in simp)
qed simp

text \<open>C29: Creating a directory path works: if the path is not empty and does not exist, no component is a
  file and no change is refused, the call returns OK and every component is then a directory; those from
  the given position on have the given permissions, those before it that existed keep theirs,
  and nothing else in the tree has changed.\<close>

theorem createPath_directory:
  assumes "path \<noteq> []" "fs path = None" "\<forall>q \<in> set (prefixes path). \<not> fe_denied E q \<and> \<not> is_kind FReg q fs"
    and "\<not> fe_throws E path"
  shows "\<exists>fs'. createPath E path DIRECTORY pos mode fs = (FS_OK, fs') \<and>
    (\<forall>q \<in> set (prefixes path). is_kind FDir q fs') \<and>
    (\<forall>q \<in> set (drop pos (prefixes path)). map_option fn_mode (fs' q) = Some mode) \<and>
    (\<forall>q \<in> set (take pos (prefixes path)). fs q \<noteq> None \<longrightarrow> fs' q = fs q) \<and>
    (\<forall>q. q \<notin> set (prefixes path) \<longrightarrow> fs' q = fs q)"
proof -
  let ?ps = "prefixes path"
  let ?f1 = "\<lambda>q. if q \<in> set ?ps \<and> fs q = None then Some \<lparr>fn_kind = FDir, fn_mode = 493\<rparr> else fs q"
  let ?f2 = "\<lambda>q. if q \<in> set (drop pos ?ps) then map_option (\<lambda>n. n\<lparr>fn_mode := mode\<rparr>) (?f1 q) else ?f1 q"
  have dir: "\<exists>n. ?f1 q = Some n \<and> fn_kind n = FDir" if "q \<in> set ?ps" for q
    using that assms(3) by (cases "fs q"; cases "fn_kind (the (fs q))") (auto simp: is_kind_def)
  have sub: "set (drop pos ?ps) \<subseteq> set ?ps" by (rule set_drop_subset)
  have disj: "set (take pos ?ps) \<inter> set (drop pos ?ps) = {}"
    using prefixes_distinct [of path] by (metis append_take_drop_id distinct_append)
  have "create_directories E ?ps fs = (True, ?f1)"
    using assms(3) by (intro create_directories_ok prefixes_distinct) auto
  moreover have "\<not> is_kind FReg path ?f1"
    using dir [of path] assms(2) by (auto simp: is_kind_def)
  moreover have "grant E mode (drop pos ?ps) ?f1 = (True, ?f2)"
    using dir sub assms(3) prefixes_distinct [of path]
    by (intro grant_ok distinct_drop) blast+
  ultimately have "createPath E path DIRECTORY pos mode fs = (FS_OK, ?f2)"
    using assms(1,2,4) by (simp add: createPath_def fs_exists_def create_and_grant_def Let_def)
  moreover have "\<forall>q \<in> set ?ps. is_kind FDir q ?f2"
  proof
    fix q assume "q \<in> set ?ps"
    then obtain n where "?f1 q = Some n" "fn_kind n = FDir" using dir by blast
    then show "is_kind FDir q ?f2" by (simp add: is_kind_def)
  qed
  moreover have "\<forall>q \<in> set (drop pos ?ps). map_option fn_mode (?f2 q) = Some mode"
    using dir sub by auto
  moreover have "\<forall>q \<in> set (take pos ?ps). fs q \<noteq> None \<longrightarrow> ?f2 q = fs q" using disj by auto
  moreover have "\<forall>q. q \<notin> set ?ps \<longrightarrow> ?f2 q = fs q" using sub by auto
  ultimately show ?thesis by blast
qed

definition demo_fs :: fsys where
  "demo_fs = [[''/''] \<mapsto> \<lparr>fn_kind = FDir, fn_mode = 493\<rparr>]"

definition demo_fs_env :: fs_env where
  "demo_fs_env = \<lparr>fe_denied = (\<lambda>_. False), fe_throws = (\<lambda>_. False), fe_access = (\<lambda>_. True)\<rparr>"

lemma demo_prefixes:
  "prefixes [''/'', ''tmp'', ''itc''] = [[''/''], [''/'', ''tmp''], [''/'', ''tmp'', ''itc'']]"
  by (simp add: prefixes_def upt_rec numeral_3_eq_3)

lemma demo_fs_clear:
  "demo_fs [''/'', ''tmp'', ''itc''] = None"
  "\<forall>q \<in> set (prefixes [''/'', ''tmp'', ''itc'']). \<not> fe_denied demo_fs_env q \<and> \<not> is_kind FReg q demo_fs"
  "\<not> fe_throws demo_fs_env [''/'', ''tmp'', ''itc'']"
  by (simp_all add: demo_prefixes demo_fs_def demo_fs_env_def is_kind_def)

theorem createPath_directory_witness:
  "\<exists>fs'. createPath demo_fs_env [''/'', ''tmp'', ''itc''] DIRECTORY 1 511 demo_fs = (FS_OK, fs') \<and>
    is_kind FDir [''/'', ''tmp''] fs' \<and> map_option fn_mode (fs' [''/'', ''tmp'', ''itc'']) = Some 511"
proof -
  from createPath_directory [OF _ demo_fs_clear, of 1 511] obtain fs' where
    r: "createPath demo_fs_env [''/'', ''tmp'', ''itc''] DIRECTORY 1 511 demo_fs = (FS_OK, fs')"
    "\<forall>q \<in> set (prefixes [''/'', ''tmp'', ''itc'']). is_kind FDir q fs'"
    "\<forall>q \<in> set (drop 1 (prefixes [''/'', ''tmp'', ''itc''])). map_option fn_mode (fs' q) = Some 511"
    by blast
  then show ?thesis unfolding demo_prefixes by simp
qed

text \<open>A regular file is never created: its directories are, but the file is opened for creation only if
  it is there already, and granting permissions on it then fails.\<close>

lemma createPath_regular_missing:
  assumes "fs path = None" "\<forall>q \<in> set (prefixes path). \<not> fe_denied E q \<and> \<not> is_kind FReg q fs"
    and "\<not> fe_throws E path" "pos < length path" "2 \<le> length path"
  shows "\<exists>fs'. createPath E path REGULAR_FILE pos mode fs = (FS_SYSCALL_ERROR, fs') \<and> fs' path = None"
proof -
  let ?ds = "prefixes (butlast path)"
  let ?f1 = "\<lambda>q. if q \<in> set ?ds \<and> fs q = None then Some \<lparr>fn_kind = FDir, fn_mode = 493\<rparr> else fs q"
  have parent: "parent_path path = butlast path" "butlast path \<noteq> []"
    using assms(5) by (cases path rule: rev_cases; auto simp: parent_path_def)+
  have "create_directories E ?ds fs = (True, ?f1)"
    using assms(2) prefixes_butlast(1) by (intro create_directories_ok prefixes_distinct) blast+
  moreover have none: "?f1 path = None" using assms(1) prefixes_butlast(2) by auto
  then have "\<not> is_kind FReg path ?f1" by (simp add: is_kind_def)
  moreover have "path \<in> set (drop pos (prefixes path))" using assms(4) by (rule path_in_granted)
  then obtain fs' where "grant E mode (drop pos (prefixes path)) ?f1 = (False, fs')" "fs' path = None"
    using grant_missing [of path _ ?f1] none by blast
  ultimately show ?thesis
    using assms(1,3) parent by (simp add: createPath_def fs_exists_def create_and_grant_def Let_def)
qed

text \<open>The empty path is refused.\<close>

lemma createPath_empty:
  "fs [] = None \<Longrightarrow> createPath E [] DIRECTORY pos mode fs = (FS_SYSCALL_ERROR, fs)"
  by (simp add: createPath_def fs_exists_def create_and_grant_def)

end
