(* ===== verification/Transport_LSocket.thy ===== *)
theory Transport_LSocket
  imports File_System Memory Itc_Constants
begin

text \<open>
  \<open>itcTransportLSocket.cc\<close>: the local socket through which a process finds the itc-server.
  The socket calls are the environment \<open>ls_env\<close>, functions of the number of the call
  (\<open>ls_now\<close>); the descriptors the process has open are part of the state, so that what a call
  leaves open can be stated. A \<open>recv\<close> result is an error or the bytes read. The retry loop on
  \<open>EINTR\<close> is a partial function whose value is \<open>None\<close> when it does not end.
\<close>

section \<open>State and environment\<close>

record ls_env =
  le_socket :: "nat \<Rightarrow> i32"
  le_connect :: "nat \<Rightarrow> string \<Rightarrow> i32"
  le_send :: "nat \<Rightarrow> u8 list \<Rightarrow> i32"
  le_recv :: "nat \<Rightarrow> bool + u8 list"     \<comment> \<open>\<open>Inl b\<close>: -1, and \<open>errno = EINTR\<close> iff \<open>b\<close>\<close>
  le_close :: "nat \<Rightarrow> i32"
  le_getpid :: i32
  le_fs :: fs_env

record lsock =
  ls_sock :: i32               \<comment> \<open>\<open>m_sockFd\<close>\<close>
  ls_running :: bool           \<comment> \<open>\<open>m_isItcServerRunning\<close>\<close>
  ls_path_created :: bool      \<comment> \<open>\<open>m_isLSockPathCreated\<close>\<close>
  ls_open :: "i32 list"        \<comment> \<open>open descriptors\<close>
  ls_now :: nat
  ls_files :: fsys

definition lsock_new :: "fsys \<Rightarrow> lsock" where
  "lsock_new fs = \<lparr>ls_sock = - 1, ls_running = False, ls_path_created = False, ls_open = [],
     ls_now = 0, ls_files = fs\<rparr>"

record located_results =
  lr_region :: u32             \<comment> \<open>\<open>assignedRegionId\<close>\<close>
  lr_mbox :: u32               \<comment> \<open>\<open>itcServerMboxId\<close>\<close>

definition located_none :: located_results where
  "located_none = \<lparr>lr_region = ITC_MAILBOX_ID_DEFAULT, lr_mbox = ITC_MAILBOX_ID_DEFAULT\<rparr>"

definition ITC_ETHERNET_MESSAGE_LOCATE_ITC_SERVER_REQUEST :: u32 where
  [itc_const]: "ITC_ETHERNET_MESSAGE_LOCATE_ITC_SERVER_REQUEST = 0x101"

definition ITC_ETHERNET_MESSAGE_LOCATE_ITC_SERVER_REPLY :: u32 where
  [itc_const]: "ITC_ETHERNET_MESSAGE_LOCATE_ITC_SERVER_REPLY = 0x102"

definition ITC_PATH_SOCK_FOLDER_NAME :: path where
  "ITC_PATH_SOCK_FOLDER_NAME = [''/'', ''tmp'', ''itc'', ''socket'']"

definition ITC_PATH_LSOCK_BASE_FILE_NAME :: string where
  "ITC_PATH_LSOCK_BASE_FILE_NAME = ''/tmp/itc/socket/lsocket''"

definition ITC_PATH_ITC_SERVER_SOCKET :: string where
  "ITC_PATH_ITC_SERVER_SOCKET = ''/tmp/itc/itc-server/itc-server''"

definition ls_tick :: "lsock \<Rightarrow> lsock" where
  "ls_tick s = s\<lparr>ls_now := ls_now s + 1\<rparr>"

section \<open>Names and messages\<close>

text \<open>\<open>%08x\<close>.\<close>

definition hex_digit :: "u32 \<Rightarrow> char" where
  "hex_digit d = ''0123456789abcdef'' ! unat (d AND 15)"

definition hex8 :: "u32 \<Rightarrow> string" where
  "hex8 w = map (\<lambda>i. hex_digit (drop_bit (28 - 4 * i) w)) [0..<8]"

definition lsock_path :: "u32 \<Rightarrow> string" where
  "lsock_path regionId = ITC_PATH_LSOCK_BASE_FILE_NAME @ ''_0x'' @ hex8 regionId"

definition locate_request :: "i32 \<Rightarrow> u8 list" where
  "locate_request pid = u32_bytes ITC_ETHERNET_MESSAGE_LOCATE_ITC_SERVER_REQUEST @ u32_bytes pid"

definition locate_reply_size :: nat where
  "locate_reply_size = 12"

section \<open>Operations\<close>

partial_function (option) recv_ack :: "ls_env \<Rightarrow> lsock \<Rightarrow> ((bool + u8 list) \<times> lsock) option" where
  "recv_ack E s =
     (case le_recv E (ls_now s) of
        Inl b \<Rightarrow> if b then recv_ack E (ls_tick s) else Some (Inl b, ls_tick s)
      | Inr bs \<Rightarrow> Some (Inr bs, ls_tick s))"

definition ack :: "u8 list" where
  "ack = [97, 99, 107, 0]"

definition connect_and_ack :: "ls_env \<Rightarrow> u32 \<Rightarrow> lsock \<Rightarrow> (bool \<times> lsock) res" where
  "connect_and_ack E regionId s =
     (let sockFd = le_socket E (ls_now s); s = ls_tick s
      in if sint sockFd < 0 then Inr (False, s)
         else let s = s\<lparr>ls_open := ls_open s @ [sockFd]\<rparr>;
                  res = le_connect E (ls_now s) (lsock_path regionId); s = ls_tick s
              in if sint res < 0 then Inr (False, s)
                 else case recv_ack E s of
                        None \<Rightarrow> Inl Blocked
                      | Some (Inl _, s) \<Rightarrow> Inr (False, s)
                      | Some (Inr bs, s) \<Rightarrow>
                          if bs \<noteq> ack then Inr (False, s) else Inr (True, s\<lparr>ls_sock := sockFd\<rparr>))"

definition initialise_lsock :: "ls_env \<Rightarrow> u32 \<Rightarrow> lsock \<Rightarrow> (bool \<times> lsock) res" where
  "initialise_lsock E regionId s =
     (if ls_running s
      then if \<not> ls_path_created s
           then let (rc, fs) = createPath (le_fs E) ITC_PATH_SOCK_FOLDER_NAME DIRECTORY
                                 ITC_PATH_ITC_DIRECTORY_POSITION 511 (ls_files s);
                    s = s\<lparr>ls_files := fs\<rparr>
                in if rc \<noteq> FS_OK then Inr (False, s)
                   else connect_and_ack E regionId (s\<lparr>ls_path_created := True\<rparr>)
           else connect_and_ack E regionId s
      else Inr (False, s))"

definition release_lsock :: "ls_env \<Rightarrow> lsock \<Rightarrow> lsock" where
  "release_lsock E s =
     (if ls_running s
      then let ret = le_close E (ls_now s); fd = ls_sock s; s = ls_tick s
           in if sint ret < 0 then s
              else let s = s\<lparr>ls_open := remove1 fd (ls_open s), ls_sock := - 1\<rparr>;
                       (rc, fs) = removePath (le_fs E) ITC_PATH_SOCK_FOLDER_NAME (ls_files s);
                       s = s\<lparr>ls_files := fs\<rparr>
                   in if rc \<noteq> FS_OK then s
                      else s\<lparr>ls_path_created := False, ls_running := False\<rparr>
      else s)"

definition locateItcServer :: "ls_env \<Rightarrow> lsock \<Rightarrow> located_results \<times> lsock" where
  "locateItcServer E s =
     (let sockFd = le_socket E (ls_now s); s = ls_tick s
      in if sint sockFd < 0 then (located_none, s)
         else let s = s\<lparr>ls_open := ls_open s @ [sockFd]\<rparr>;
                  ret = le_connect E (ls_now s) ITC_PATH_ITC_SERVER_SOCKET; s = ls_tick s
              in if sint ret < 0 then (located_none, s)
                 else let ret = le_send E (ls_now s) (locate_request (le_getpid E)); s = ls_tick s
                      in if sint ret < 0 then (located_none, s)
                         else case le_recv E (ls_now s) of
                                Inl _ \<Rightarrow> (located_none, ls_tick s)
                              | Inr bs \<Rightarrow>
                                  let s = ls_tick s
                                  in if length bs < locate_reply_size then (located_none, s)
                                     else let closed = le_close E (ls_now s);
                                              s = (ls_tick s)\<lparr>ls_open := if sint closed < 0 then ls_open s
                                                     else remove1 sockFd (ls_open s)\<rparr>
                                          in if get32 0 bs = ITC_ETHERNET_MESSAGE_LOCATE_ITC_SERVER_REPLY \<and>
                                                get32 4 bs \<noteq> ITC_MAILBOX_ID_DEFAULT
                                             then (\<lparr>lr_region = get32 4 bs, lr_mbox = get32 8 bs\<rparr>,
                                                   s\<lparr>ls_running := True\<rparr>)
                                             else (located_none, s))"

lemmas ls_ops = locateItcServer_def initialise_lsock_def connect_and_ack_def release_lsock_def ls_tick_def

section \<open>Names of the sockets\<close>

lemma hex_digit_inj: "hex_digit a = hex_digit b \<longleftrightarrow> a AND 15 = b AND 15"
proof -
  have u: "unat (w AND 15) < 16" for w :: u32
  proof -
    have "w AND 15 \<le> 15" by (rule word_and_le1)
    then show ?thesis by (simp add: word_le_nat_alt)
  qed
  have "distinct ''0123456789abcdef''" "length ''0123456789abcdef'' = 16" by simp_all
  then have "hex_digit a = hex_digit b \<longleftrightarrow> unat (a AND 15) = unat (b AND 15)"
    unfolding hex_digit_def using u [of a] u [of b] by (metis nth_eq_iff_index_eq)
  then show ?thesis by (simp only: word_unat_eq_iff)
qed

lemma nibbles_eq:
  fixes a b :: u32
  assumes "\<forall>i < 8. drop_bit (4 * i) a AND 15 = drop_bit (4 * i) b AND 15"
  shows "a = b"
proof (rule bit_word_eqI)
  fix n assume "n < LENGTH(32)"
  then have n: "n div 4 < 8" "n = 4 * (n div 4) + n mod 4" "n mod 4 < 4" by auto
  from assms n(1) have "bit (drop_bit (4 * (n div 4)) a AND mask 4) (n mod 4) =
      bit (drop_bit (4 * (n div 4)) b AND mask 4) (n mod 4)"
    by (simp add: mask_eq_exp_minus_1)
  moreover have "n mod 4 < 32" using n(3) by linarith
  ultimately show "bit a n = bit b n" using n(2,3) by (simp add: bit_simps)
qed

lemma hex8_inj: "hex8 a = hex8 b \<longleftrightarrow> a = b"
proof
  assume eq: "hex8 a = hex8 b"
  have "drop_bit (4 * i) a AND 15 = drop_bit (4 * i) b AND 15" if i: "i < 8" for i
  proof -
    from eq have "hex8 a ! (7 - i) = hex8 b ! (7 - i)" by simp
    moreover have "28 - 4 * (7 - i) = 4 * i" using i by auto
    moreover have "hex8 w ! (7 - i) = hex_digit (drop_bit (28 - 4 * (7 - i)) w)" for w
      unfolding hex8_def by (subst nth_map) (simp_all add: nth_upt del: upt_Suc)
    ultimately show ?thesis by (simp add: hex_digit_inj)
  qed
  then show "a = b" by (intro nibbles_eq) blast
qed simp

lemma lsock_path_inj: "lsock_path a = lsock_path b \<longleftrightarrow> a = b"
  by (simp add: lsock_path_def hex8_inj)

lemma lsock_path_fits: "length (lsock_path regionId) < 108"
  by (simp add: lsock_path_def hex8_def ITC_PATH_LSOCK_BASE_FILE_NAME_def)

section \<open>Finding the server\<close>

definition locate_reply :: "u32 \<Rightarrow> u32 \<Rightarrow> u8 list" where
  "locate_reply regionId mbox =
     u32_bytes ITC_ETHERNET_MESSAGE_LOCATE_ITC_SERVER_REPLY @ u32_bytes regionId @ u32_bytes mbox"

lemma get32_locate_reply:
  "get32 0 (locate_reply r m @ rest) = ITC_ETHERNET_MESSAGE_LOCATE_ITC_SERVER_REPLY"
  "get32 4 (locate_reply r m @ rest) = r" "get32 8 (locate_reply r m @ rest) = m"
  "length (locate_reply r m) = 12"
  by (simp_all add: locate_reply_def u32_bytes_def get32_def bytes_u32_u32_bytes)

text \<open>C25: Locating the server returns what the server's reply says: if the four calls before it succeed
  and the reply is a locate reply with a region that is not the default, the region and the
  mailbox of the reply are the result, the server counts as running, and the socket opened for
  the question is closed again.\<close>

theorem locate_roundtrip:
  assumes "0 \<le> sint (le_socket E (ls_now s))" "le_socket E (ls_now s) \<notin> set (ls_open s)"
    and "0 \<le> sint (le_connect E (ls_now s + 1) ITC_PATH_ITC_SERVER_SOCKET)"
    and "0 \<le> sint (le_send E (ls_now s + 2) (locate_request (le_getpid E)))"
    and "le_recv E (ls_now s + 3) = Inr (locate_reply regionId mbox @ rest)"
    and "0 \<le> sint (le_close E (ls_now s + 4))" "regionId \<noteq> ITC_MAILBOX_ID_DEFAULT"
  shows "locateItcServer E s =
    (\<lparr>lr_region = regionId, lr_mbox = mbox\<rparr>, s\<lparr>ls_running := True, ls_now := ls_now s + 5\<rparr>)"
proof -
  have "ls_now s + 3 = Suc (Suc (Suc (ls_now s)))" "ls_now s + 4 = Suc (Suc (Suc (Suc (ls_now s))))" 
    "ls_now s + 5 = Suc (Suc (Suc (Suc (Suc (ls_now s)))))" by simp_all
  with assms show ?thesis
    by (simp add: ls_ops Let_def get32_locate_reply locate_reply_size_def remove1_append)
qed

text \<open>Every attempt to find a server that is not there costs a descriptor: when connecting is
  refused, n attempts return no region and leave n more sockets open (the error returns do not
  close the socket).\<close>

lemma locate_retries_leak:
  assumes "\<forall>t. 0 \<le> sint (le_socket E t)" "\<forall>t p. sint (le_connect E t p) < 0"
  shows "fst (locateItcServer E s) = located_none \<and>
    ls_open (((\<lambda>s. snd (locateItcServer E s)) ^^ n) s) =
      ls_open s @ map (\<lambda>i. le_socket E (ls_now s + 2 * i)) [0..<n]"
proof
  have step: "locateItcServer E s =
      (located_none, s\<lparr>ls_open := ls_open s @ [le_socket E (ls_now s)], ls_now := ls_now s + 2\<rparr>)" for s
    using assms by (simp add: ls_ops Let_def not_less [symmetric])
  show "fst (locateItcServer E s) = located_none" by (simp add: step)
  have "ls_open (((\<lambda>s. snd (locateItcServer E s)) ^^ n) s) =
      ls_open s @ map (\<lambda>i. le_socket E (ls_now s + 2 * i)) [0..<n] \<and>
    ls_now (((\<lambda>s. snd (locateItcServer E s)) ^^ n) s) = ls_now s + 2 * n"
    by (induction n) (simp_all add: step)
  then show "ls_open (((\<lambda>s. snd (locateItcServer E s)) ^^ n) s) =
      ls_open s @ map (\<lambda>i. le_socket E (ls_now s + 2 * i)) [0..<n]" by simp
qed

section \<open>A session\<close>

lemma recv_ack_interrupted:
  assumes "\<forall>i < k. le_recv E (ls_now s + i) = Inl True" "le_recv E (ls_now s + k) = Inr bs"
  shows "recv_ack E s = Some (Inr bs, s\<lparr>ls_now := ls_now s + k + 1\<rparr>)"
  using assms
proof (induction k arbitrary: s)
  case 0
  then show ?case by (subst recv_ack.simps) (simp add: ls_tick_def)
next
  case (Suc k)
  have "recv_ack E (ls_tick s) = Some (Inr bs, (ls_tick s)\<lparr>ls_now := ls_now (ls_tick s) + k + 1\<rparr>)"
    using Suc.prems by (intro Suc.IH) (auto simp: ls_tick_def)
  moreover have "le_recv E (ls_now s) = Inl True" using Suc.prems(1) by auto
  ultimately show ?case by (subst recv_ack.simps) (simp add: ls_tick_def)
qed

text \<open>C24: Connecting to the server ends however often it is interrupted, and a session leaves nothing
  behind: with the server running and the socket directory there, if the server's
  acknowledgement comes after any number of interrupted reads, initialise returns true with
  the connected socket kept open and no file changed; and a release, when the system refuses
  neither the close nor the removal, closes it, removes the directory with everything in it and
  nothing else, and forgets the server.\<close>

theorem lsock_session:
  assumes "ls_running s" "ls_path_created s" "is_kind FDir ITC_PATH_SOCK_FOLDER_NAME (ls_files s)"
    and "\<not> fe_throws (le_fs E) ITC_PATH_SOCK_FOLDER_NAME" "\<not> fe_denied (le_fs E) ITC_PATH_SOCK_FOLDER_NAME"
    and "0 \<le> sint (le_socket E (ls_now s))" "le_socket E (ls_now s) \<notin> set (ls_open s)"
    and "0 \<le> sint (le_connect E (ls_now s + 1) (lsock_path regionId))"
    and "\<forall>i < k. le_recv E (ls_now s + 2 + i) = Inl True" "le_recv E (ls_now s + 2 + k) = Inr ack"
  shows "\<exists>s'. initialise_lsock E regionId s = Inr (True, s') \<and> ls_sock s' = le_socket E (ls_now s) \<and>
    ls_open s' = ls_open s @ [ls_sock s'] \<and> ls_files s' = ls_files s \<and>
    (0 \<le> sint (le_close E (ls_now s')) \<longrightarrow>
     ls_open (release_lsock E s') = ls_open s \<and> ls_sock (release_lsock E s') = - 1 \<and>
     \<not> ls_running (release_lsock E s') \<and> \<not> ls_path_created (release_lsock E s') \<and>
     ls_files (release_lsock E s') = (\<lambda>q.
       if take (length ITC_PATH_SOCK_FOLDER_NAME) q = ITC_PATH_SOCK_FOLDER_NAME then None else ls_files s q))"
proof -
  let ?fd = "le_socket E (ls_now s)"
  let ?s1 = "s\<lparr>ls_open := ls_open s @ [?fd], ls_now := ls_now s + 2\<rparr>"
  let ?s' = "s\<lparr>ls_sock := ?fd, ls_open := ls_open s @ [?fd], ls_now := ls_now s + 2 + k + 1\<rparr>"
  have "recv_ack E ?s1 = Some (Inr ack, ?s1\<lparr>ls_now := ls_now ?s1 + k + 1\<rparr>)"
    using assms(9,10) by (intro recv_ack_interrupted) simp_all
  then have "initialise_lsock E regionId s = Inr (True, ?s')"
    using assms(1,2,6,8) by (simp add: ls_ops Let_def)
  moreover have "removePath (le_fs E) ITC_PATH_SOCK_FOLDER_NAME (ls_files s) = (FS_OK, \<lambda>q.
      if take (length ITC_PATH_SOCK_FOLDER_NAME) q = ITC_PATH_SOCK_FOLDER_NAME then None else ls_files s q)"
    using assms(3-5) by (auto simp: removePath_def is_kind_def split: option.splits)
  ultimately show ?thesis
    using assms(1,7) by (auto simp: ls_ops Let_def remove1_append split: prod.splits)
qed

text \<open>A server that is there: the first read of the acknowledgement is interrupted.\<close>

definition demo_server :: "nat \<Rightarrow> ls_env" where
  "demo_server n = \<lparr>le_socket = (\<lambda>_. 5), le_connect = (\<lambda>_ _. 0), le_send = (\<lambda>_ _. 8),
     le_recv = (\<lambda>t. if t < n then Inl True else if n = 0 then Inr (locate_reply 0x200000 0x100001)
                    else Inr ack),
     le_close = (\<lambda>_. 0), le_getpid = 77, le_fs = demo_fs_env\<rparr>"

theorem locate_roundtrip_witness:
  "locateItcServer (demo_server 0) (lsock_new demo_fs) =
    (\<lparr>lr_region = 0x200000, lr_mbox = 0x100001\<rparr>, (lsock_new demo_fs)\<lparr>ls_running := True, ls_now := 5\<rparr>)"
  using locate_roundtrip [of "demo_server 0" "lsock_new demo_fs" "0x200000" "0x100001" "[]"]
  by (simp add: demo_server_def lsock_new_def itc_const)

lemma locate_retries_leak_witness:
  "ls_open (((\<lambda>s. snd (locateItcServer ((demo_server 0)\<lparr>le_connect := (\<lambda>_ _. - 1)\<rparr>) s)) ^^ 3) (lsock_new demo_fs)) =
    [5, 5, 5]"
  using locate_retries_leak [of "(demo_server 0)\<lparr>le_connect := (\<lambda>_ _. - 1)\<rparr>" "lsock_new demo_fs" 3]
  by (simp add: demo_server_def lsock_new_def upt_rec)

lemma demo_server_calls:
  "le_socket (demo_server n) t = 5" "le_connect (demo_server n) t p = 0" "le_close (demo_server n) t = 0"
  "le_recv (demo_server n) t = (if t < n then Inl True
     else if n = 0 then Inr (locate_reply 0x200000 0x100001) else Inr ack)"
  "\<not> fe_throws (le_fs (demo_server n)) d" "\<not> fe_denied (le_fs (demo_server n)) d"
  by (simp_all add: demo_server_def demo_fs_env_def)

theorem lsock_session_witness:
  "\<exists>s'. initialise_lsock (demo_server 3) 0x200000
      ((lsock_new (demo_fs(ITC_PATH_SOCK_FOLDER_NAME \<mapsto> \<lparr>fn_kind = FDir, fn_mode = 511\<rparr>)))
         \<lparr>ls_running := True, ls_path_created := True\<rparr>) = Inr (True, s') \<and>
    ls_open s' = [5] \<and> ls_open (release_lsock (demo_server 3) s') = [] \<and>
    ls_files s' ITC_PATH_SOCK_FOLDER_NAME \<noteq> None \<and>
    ls_files (release_lsock (demo_server 3) s') ITC_PATH_SOCK_FOLDER_NAME = None"
proof -
  let ?fs = "demo_fs(ITC_PATH_SOCK_FOLDER_NAME \<mapsto> \<lparr>fn_kind = FDir, fn_mode = 511\<rparr>)"
  let ?s = "(lsock_new ?fs)\<lparr>ls_running := True, ls_path_created := True\<rparr>"
  have s: "ls_running ?s" "ls_path_created ?s" "ls_now ?s = 0" "ls_open ?s = []" "ls_files ?s = ?fs"
    by (simp_all add: lsock_new_def)
  have "is_kind FDir ITC_PATH_SOCK_FOLDER_NAME (ls_files ?s)" by (simp add: s(5) is_kind_def)
  from lsock_session [OF s(1,2) this demo_server_calls(5,6), of 3 "0x200000" 1] s(3-5)
  show ?thesis by (fastforce simp: demo_server_calls)
qed

end
