(* ===== verification/LSocket_Tests.thy ===== *)
theory LSocket_Tests
  imports Transport_LSocket
begin

text \<open>
  The tests of \<open>itcTransportLSocketTest.cc\<close> as scenarios of \<open>Transport_LSocket\<close>: the answers of the
  mocked calls, the state before, and the assertions on the state after. The tests were written for
  an earlier interface that returned a code; \<open>initialise\<close> now returns whether it succeeded,
  \<open>locateItcServer\<close> returns what it found and \<open>release\<close> returns nothing. The expected code is kept
  and compared with success; a code expected of \<open>release\<close> has nothing to be compared with. Every mocked C
  function is expected a number of times; the model counts all of them together.
\<close>

section \<open>Mocks\<close>

datatype transport_code = ITC_TRANSPORT_OK | ITC_TRANSPORT_SYSCALL_ERROR | ITC_TRANSPORT_ITC_SERVER_NOT_RUNNING
  | ITC_TRANSPORT_UNEXPECTED_RESPONSE | ITC_TRANSPORT_INVALID_RESPONSE

definition meets :: "transport_code \<Rightarrow> bool \<Rightarrow> bool" where
  "meets rc success \<longleftrightarrow> (rc = ITC_TRANSPORT_OK) = success"

record lsock_mock =
  mk_socket :: i32
  mk_addr :: string
  mk_connect :: i32
  mk_send :: i32
  mk_recv :: "bool + u8 list"
  mk_close :: i32

text \<open>An address that is not the expected one gets the other answer, so that the test notices.\<close>

definition mocked :: "lsock_mock \<Rightarrow> fs_env \<Rightarrow> ls_env" where
  "mocked m F = \<lparr>le_socket = (\<lambda>_. mk_socket m),
     le_connect = (\<lambda>_ addr. if addr = mk_addr m then mk_connect m else - 1 - mk_connect m),
     le_send = (\<lambda>_ _. mk_send m), le_recv = (\<lambda>_. mk_recv m), le_close = (\<lambda>_. mk_close m),
     le_getpid = 1, le_fs = F\<rparr>"

definition mockedSockFd :: i32 where
  "mockedSockFd = 4"

text \<open>A mock whose calls all succeed, for the server's socket or for that of a region.\<close>

definition mock_at :: "string \<Rightarrow> (bool + u8 list) \<Rightarrow> lsock_mock" where
  "mock_at addr answer = \<lparr>mk_socket = mockedSockFd, mk_addr = addr, mk_connect = 0, mk_send = 0,
     mk_recv = answer, mk_close = 0\<rparr>"

definition running :: "fsys \<Rightarrow> lsock" where
  "running fs = (lsock_new fs)\<lparr>ls_running := True, ls_path_created := False\<rparr>"

text \<open>\<open>initialise\<close> with the default region; \<open>n\<close> calls are expected.\<close>

definition initialise_test :: "lsock_mock \<Rightarrow> fs_env \<Rightarrow> lsock \<Rightarrow> transport_code \<Rightarrow> nat \<Rightarrow> (lsock \<Rightarrow> bool) \<Rightarrow> bool" where
  "initialise_test m F s rc n asserts =
     (case initialise_lsock (mocked m F) ITC_MAILBOX_ID_DEFAULT s of
        Inl e \<Rightarrow> False
      | Inr (success, s') \<Rightarrow> meets rc success \<and> ls_now s' = ls_now s + n \<and> asserts s')"

definition itcServerAddr :: string where
  "itcServerAddr = ITC_PATH_LSOCK_BASE_FILE_NAME @ ''_0x'' @ hex8 ITC_MAILBOX_ID_DEFAULT"

section \<open>initialise\<close>

definition ls_initialiseTest1 :: "fs_env \<Rightarrow> fsys \<Rightarrow> bool" where
  "ls_initialiseTest1 F fs = initialise_test (mock_at itcServerAddr (Inr ack)) F ((lsock_new fs)\<lparr>ls_running := False\<rparr>)
     ITC_TRANSPORT_ITC_SERVER_NOT_RUNNING 0 (\<lambda>s. True)"

text \<open>The path cannot be created; otherwise \<open>F\<close> and \<open>fs\<close> are such that it can.\<close>

definition ls_initialiseTest2 :: "fs_env \<Rightarrow> fsys \<Rightarrow> bool" where
  "ls_initialiseTest2 F fs = initialise_test (mock_at itcServerAddr (Inr ack)) F (running fs)
     ITC_TRANSPORT_SYSCALL_ERROR 0 (\<lambda>s. \<not> ls_path_created s)"

definition ls_initialiseTest3 :: "fs_env \<Rightarrow> fsys \<Rightarrow> bool" where
  "ls_initialiseTest3 F fs = initialise_test ((mock_at itcServerAddr (Inr ack))\<lparr>mk_socket := - 1\<rparr>) F (running fs)
     ITC_TRANSPORT_SYSCALL_ERROR 1 ls_path_created"

definition ls_initialiseTest4 :: "fs_env \<Rightarrow> fsys \<Rightarrow> bool" where
  "ls_initialiseTest4 F fs = initialise_test ((mock_at itcServerAddr (Inr ack))\<lparr>mk_connect := - 1\<rparr>) F (running fs)
     ITC_TRANSPORT_SYSCALL_ERROR 2 ls_path_created"

text \<open>\<open>recv\<close> fails; \<open>errno\<close> is taken not to be \<open>EINTR\<close>, with which it would be called again.\<close>

definition ls_initialiseTest5 :: "fs_env \<Rightarrow> fsys \<Rightarrow> bool" where
  "ls_initialiseTest5 F fs = initialise_test (mock_at itcServerAddr (Inl False)) F (running fs)
     ITC_TRANSPORT_SYSCALL_ERROR 3 ls_path_created"

text \<open>Three bytes, which the mock leaves as they are.\<close>

definition ls_initialiseTest6 :: "u8 \<Rightarrow> u8 \<Rightarrow> u8 \<Rightarrow> fs_env \<Rightarrow> fsys \<Rightarrow> bool" where
  "ls_initialiseTest6 b0 b1 b2 F fs = initialise_test (mock_at itcServerAddr (Inr [b0, b1, b2])) F (running fs)
     ITC_TRANSPORT_UNEXPECTED_RESPONSE 3 ls_path_created"

definition ls_initialiseTest7 :: "fs_env \<Rightarrow> fsys \<Rightarrow> bool" where
  "ls_initialiseTest7 F fs = initialise_test (mock_at itcServerAddr (Inr [107, 99, 97, 0])) F (running fs)
     ITC_TRANSPORT_UNEXPECTED_RESPONSE 3 ls_path_created"

definition ls_initialiseTest8 :: "fs_env \<Rightarrow> fsys \<Rightarrow> bool" where
  "ls_initialiseTest8 F fs = initialise_test (mock_at itcServerAddr (Inr [97, 99, 107, 0])) F (running fs)
     ITC_TRANSPORT_OK 3 (\<lambda>s. ls_path_created s \<and> ls_sock s = mockedSockFd)"

section \<open>release\<close>

definition release_test :: "i32 \<Rightarrow> fs_env \<Rightarrow> lsock \<Rightarrow> nat \<Rightarrow> (lsock \<Rightarrow> bool) \<Rightarrow> bool" where
  "release_test closed F s n asserts =
     (let s' = release_lsock (mocked ((mock_at itcServerAddr (Inr ack))\<lparr>mk_close := closed\<rparr>) F) s
      in ls_now s' = ls_now s + n \<and> asserts s')"

definition ls_releaseTest1 :: "fs_env \<Rightarrow> fsys \<Rightarrow> bool" where
  "ls_releaseTest1 F fs = release_test 0 F ((lsock_new fs)\<lparr>ls_running := False\<rparr>) 0 (\<lambda>s. True)"

definition ls_releaseTest2 :: "fs_env \<Rightarrow> fsys \<Rightarrow> bool" where
  "ls_releaseTest2 F fs = release_test (- 1) F ((running fs)\<lparr>ls_sock := - 1\<rparr>) 1 (\<lambda>s. True)"

text \<open>The folder cannot be removed; in the fourth test it can.\<close>

definition ls_releaseTest3 :: "fs_env \<Rightarrow> fsys \<Rightarrow> bool" where
  "ls_releaseTest3 F fs = release_test 0 F ((running fs)\<lparr>ls_sock := mockedSockFd\<rparr>) 1 (\<lambda>s. True)"

definition ls_releaseTest4 :: "fs_env \<Rightarrow> fsys \<Rightarrow> bool" where
  "ls_releaseTest4 F fs = release_test 0 F ((running fs)\<lparr>ls_sock := mockedSockFd\<rparr>) 1
     (\<lambda>s. ls_sock s = - 1 \<and> \<not> ls_running s \<and> \<not> ls_path_created s)"

section \<open>locateItcServer\<close>

text \<open>\<open>ITC_TRANSPORT_OK\<close> means that something was found; the two results are members of it now.\<close>

definition locate_test :: "lsock_mock \<Rightarrow> fs_env \<Rightarrow> fsys \<Rightarrow> transport_code \<Rightarrow> nat \<Rightarrow> (located_results \<Rightarrow> lsock \<Rightarrow> bool) \<Rightarrow> bool" where
  "locate_test m F fs rc n asserts =
     (let (r, s) = locateItcServer (mocked m F) (lsock_new fs)
      in meets rc (r \<noteq> located_none) \<and> ls_now s = n \<and> asserts r s)"

definition reply_bytes :: "u32 \<Rightarrow> u32 \<Rightarrow> u32 \<Rightarrow> u8 list" where
  "reply_bytes msgno region mbox = u32_bytes msgno @ u32_bytes region @ u32_bytes mbox"

abbreviation server_mock :: "(bool + u8 list) \<Rightarrow> lsock_mock" where
  "server_mock \<equiv> mock_at ITC_PATH_ITC_SERVER_SOCKET"

definition locateItcServerTest1 :: "fs_env \<Rightarrow> fsys \<Rightarrow> bool" where
  "locateItcServerTest1 F fs = locate_test ((server_mock (Inr []))\<lparr>mk_socket := - 1\<rparr>) F fs
     ITC_TRANSPORT_SYSCALL_ERROR 1 (\<lambda>r s. True)"

definition locateItcServerTest2 :: "fs_env \<Rightarrow> fsys \<Rightarrow> bool" where
  "locateItcServerTest2 F fs = locate_test ((server_mock (Inr []))\<lparr>mk_connect := - 1\<rparr>) F fs
     ITC_TRANSPORT_SYSCALL_ERROR 2 (\<lambda>r s. True)"

definition locateItcServerTest3 :: "fs_env \<Rightarrow> fsys \<Rightarrow> bool" where
  "locateItcServerTest3 F fs = locate_test ((server_mock (Inr []))\<lparr>mk_send := - 1\<rparr>) F fs
     ITC_TRANSPORT_SYSCALL_ERROR 3 (\<lambda>r s. True)"

definition locateItcServerTest4 :: "fs_env \<Rightarrow> fsys \<Rightarrow> bool" where
  "locateItcServerTest4 F fs = locate_test (server_mock (Inl False)) F fs
     ITC_TRANSPORT_INVALID_RESPONSE 4 (\<lambda>r s. True)"

definition locateItcServerTest5 :: "fs_env \<Rightarrow> fsys \<Rightarrow> bool" where
  "locateItcServerTest5 F fs = locate_test
     (server_mock (Inr (reply_bytes ITC_ETHERNET_MESSAGE_LOCATE_ITC_SERVER_REPLY 0x00300000 0x00100001))) F fs
     ITC_TRANSPORT_OK 5 (\<lambda>r s. ls_running s \<and> lr_region r = 0x00300000 \<and> lr_mbox r = 0x00100001)"

text \<open>The mock does not write the third field: any bytes.\<close>

definition locateItcServerTest6 :: "u32 \<Rightarrow> fs_env \<Rightarrow> fsys \<Rightarrow> bool" where
  "locateItcServerTest6 rest F fs = locate_test
     (server_mock (Inr (reply_bytes ITC_MESSAGE_MSGNO_DEFAULT ITC_MAILBOX_ID_DEFAULT rest))) F fs
     ITC_TRANSPORT_INVALID_RESPONSE 5 (\<lambda>r s. True)"

section \<open>The tests hold\<close>

lemma createPath_mocked [simp]: "le_fs (mocked m F) = F"
  by (simp add: mocked_def)

lemmas initialise_tests = initialise_test_def mocked_def mock_at_def mockedSockFd_def running_def lsock_new_def
  initialise_lsock_def connect_and_ack_def ls_tick_def Let_def meets_def recv_ack.simps

theorem ls_initialise_tests_pass:
  assumes "createPath F ITC_PATH_SOCK_FOLDER_NAME DIRECTORY ITC_PATH_ITC_DIRECTORY_POSITION 511 fs = (FS_OK, fs')"
    and "fst (createPath F' ITC_PATH_SOCK_FOLDER_NAME DIRECTORY ITC_PATH_ITC_DIRECTORY_POSITION 511 fs) = FS_SYSCALL_ERROR"
  shows "ls_initialiseTest1 F fs \<and> ls_initialiseTest2 F' fs \<and> ls_initialiseTest3 F fs \<and> ls_initialiseTest4 F fs \<and>
    ls_initialiseTest5 F fs \<and> ls_initialiseTest6 b0 b1 b2 F fs \<and> ls_initialiseTest7 F fs \<and> ls_initialiseTest8 F fs"
proof (intro conjI)
  show "ls_initialiseTest1 F fs" by (simp add: ls_initialiseTest1_def initialise_tests)
  show "ls_initialiseTest2 F' fs" using assms(2)
    by (auto simp: ls_initialiseTest2_def initialise_tests split: prod.splits)
  show "ls_initialiseTest3 F fs" using assms(1) by (simp add: ls_initialiseTest3_def initialise_tests)
  show "ls_initialiseTest4 F fs" using assms(1)
    by (simp add: ls_initialiseTest4_def initialise_tests itcServerAddr_def lsock_path_def)
  show "ls_initialiseTest5 F fs" using assms(1)
    by (simp add: ls_initialiseTest5_def initialise_tests itcServerAddr_def lsock_path_def)
  show "ls_initialiseTest6 b0 b1 b2 F fs" using assms(1)
    by (simp add: ls_initialiseTest6_def initialise_tests itcServerAddr_def lsock_path_def ack_def)
  show "ls_initialiseTest7 F fs" using assms(1)
    by (simp add: ls_initialiseTest7_def initialise_tests itcServerAddr_def lsock_path_def ack_def)
  show "ls_initialiseTest8 F fs" using assms(1)
    by (simp add: ls_initialiseTest8_def initialise_tests itcServerAddr_def lsock_path_def ack_def)
qed

lemmas release_tests = release_test_def mocked_def mock_at_def mockedSockFd_def running_def lsock_new_def
  release_lsock_def ls_tick_def Let_def

theorem ls_release_tests_pass:
  assumes "fst (removePath F ITC_PATH_SOCK_FOLDER_NAME fs) = FS_OK"
    and "fst (removePath F' ITC_PATH_SOCK_FOLDER_NAME fs) = FS_EXCEPTION_THROWN"
  shows "ls_releaseTest1 F fs \<and> ls_releaseTest2 F fs \<and> ls_releaseTest3 F' fs \<and> ls_releaseTest4 F fs"
  using assms
  by (auto simp: ls_releaseTest1_def ls_releaseTest2_def ls_releaseTest3_def ls_releaseTest4_def release_tests
      split: prod.splits)

lemma get32_reply_bytes:
  "get32 0 (reply_bytes a b c) = a" "get32 4 (reply_bytes a b c) = b" "get32 8 (reply_bytes a b c) = c"
  "length (reply_bytes a b c) = 12"
  by (simp_all add: reply_bytes_def u32_bytes_def get32_def bytes_u32_u32_bytes)

theorem locate_tests_pass:
  "locateItcServerTest1 F fs \<and> locateItcServerTest2 F fs \<and> locateItcServerTest3 F fs \<and> locateItcServerTest4 F fs \<and>
   locateItcServerTest5 F fs \<and> locateItcServerTest6 rest F fs"
  by (simp add: locateItcServerTest1_def locateItcServerTest2_def locateItcServerTest3_def locateItcServerTest4_def
      locateItcServerTest5_def locateItcServerTest6_def locate_test_def mocked_def mock_at_def mockedSockFd_def
      lsock_new_def ls_ops Let_def meets_def located_none_def locate_reply_size_def get32_reply_bytes itc_const)

end
