(* ===== verification/Transport_Sysv.thy ===== *)
theory Transport_Sysv
  imports Transport_Local File_System
begin

text \<open>
  \<open>itcTransportSysvMsgQueue.cc\<close>: messages between processes over System V message queues.
  The kernel is the environment \<open>sys_env\<close>: a function of the number of the call (\<open>sv_now\<close>) and
  of its arguments, arbitrary unless a theorem says otherwise. What \<open>msgsnd\<close> accepted is kept in
  \<open>sv_sent\<close>. The resend loop is a partial function whose value is \<open>None\<close> when it does not end.
\<close>

section \<open>State and environment\<close>

datatype errno = EINTR | EINVAL | EIDRM | ENOENT | EOTHER

record sys_env =
  env_ftok :: "nat \<Rightarrow> u32 \<Rightarrow> i32"
  env_msgget :: "nat \<Rightarrow> i32 \<Rightarrow> bool \<Rightarrow> i32"         \<comment> \<open>key, \<open>IPC_CREAT\<close>\<close>
  env_msgsnd :: "nat \<Rightarrow> i32 \<Rightarrow> errno option"       \<comment> \<open>\<open>None\<close>: accepted\<close>
  env_qnum :: "nat \<Rightarrow> i32 \<Rightarrow> nat option"           \<comment> \<open>\<open>msgctl(IPC_STAT)\<close>, \<open>None\<close>: -1\<close>
  env_rmid :: "nat \<Rightarrow> i32 \<Rightarrow> bool"                 \<comment> \<open>\<open>msgctl(IPC_RMID)\<close> succeeds\<close>
  env_ipc_info :: "nat \<Rightarrow> (i32 \<times> i32) option"     \<comment> \<open>\<open>msgmax\<close>, \<open>msgmnb\<close>\<close>
  env_pthread :: "nat \<Rightarrow> i32"                     \<comment> \<open>key create, delete, setspecific\<close>
  env_prctl :: "nat \<Rightarrow> bool"
  env_getpid :: i32
  env_create_mailbox :: u32                      \<comment> \<open>\<open>ItcPlatform::createMailbox\<close>\<close>

record contact =
  ci_region :: u32
  ci_queue :: i32

record sysv =
  sv_region :: u32
  sv_mbox :: u32
  sv_queue :: i32
  sv_pid :: i32
  sv_initialised :: bool
  sv_terminated :: bool
  sv_max :: u64                    \<comment> \<open>\<open>m_maxMsgSize\<close>\<close>
  sv_rx :: ptr                     \<comment> \<open>\<open>m_rxBuffer\<close>\<close>
  sv_contacts :: "contact list"
  sv_threads :: nat                \<comment> \<open>rx threads handed to the thread manager\<close>
  sv_now :: nat                    \<comment> \<open>system calls made\<close>
  sv_sent :: "(i32 \<times> u8 list) list"

definition sysv_new :: sysv where
  "sysv_new = \<lparr>sv_region = ITC_MAILBOX_ID_DEFAULT, sv_mbox = ITC_MAILBOX_ID_DEFAULT,
     sv_queue = - 1, sv_pid = - 1, sv_initialised = False, sv_terminated = False, sv_max = - 1,
     sv_rx = nullptr,
     sv_contacts = replicate (unat ITC_MAX_SUPPORTED_REGIONS)
       \<lparr>ci_region = ITC_MAILBOX_ID_DEFAULT, ci_queue = - 1\<rparr>,
     sv_threads = 0, sv_now = 0, sv_sent = []\<rparr>"

definition tick :: "sysv \<Rightarrow> sysv" where
  "tick s = s\<lparr>sv_now := sv_now s + 1\<rparr>"

definition ITC_SYSV_MESSAGE_QUEUE_TX_MSGNO :: u64 where
  [itc_const]: "ITC_SYSV_MESSAGE_QUEUE_TX_MSGNO = 1"

definition SIZEOF_LONG :: u64 where
  [itc_const]: "SIZEOF_LONG = 8"

section \<open>Start and stop\<close>

definition ITC_PATH_SYSVMQ_FILE_NAME :: path where
  "ITC_PATH_SYSVMQ_FILE_NAME = [''/'', ''tmp'', ''itc'', ''sysvmsq'', ''sysvmq-file'']"

definition initialise_sysv ::
    "sys_env \<Rightarrow> fs_env \<Rightarrow> u32 \<Rightarrow> sysv \<times> fsys \<Rightarrow> bool \<times> sysv \<times> fsys" where
  "initialise_sysv E F regionId = (\<lambda>(s, fs).
     if sv_initialised s then (False, s, fs)
     else let (rc, fs) = createPath F ITC_PATH_SYSVMQ_FILE_NAME REGULAR_FILE
                           ITC_PATH_ITC_DIRECTORY_POSITION 511 fs
          in if rc \<noteq> FS_OK then (False, s, fs)
             else let s = s\<lparr>sv_pid := env_getpid E, sv_region := regionId\<rparr>;
                      ret = env_pthread E (sv_now s); s = tick s
                  in if ret \<noteq> 0 then (False, s, fs)
                     else (True, s\<lparr>sv_threads := sv_threads s + 1, sv_initialised := True\<rparr>, fs))"

definition release_sysv :: "sys_env \<Rightarrow> sysv \<Rightarrow> sysv" where
  "release_sysv E s =
     (if sv_initialised s
      then let ret = env_pthread E (sv_now s); s = tick s
           in if ret \<noteq> 0 then s else s\<lparr>sv_terminated := True, sv_initialised := False\<rparr>
      else s)"

definition destructRxThread :: "sys_env \<Rightarrow> sysv \<Rightarrow> sysv" where
  "destructRxThread E s =
     (if sv_queue s \<noteq> - 1
      then (tick s)\<lparr>sv_terminated := True, sv_initialised := False, sv_queue := - 1\<rparr>
      else s)"

section \<open>Contact list\<close>

definition getMsgQueueId :: "sys_env \<Rightarrow> u32 \<Rightarrow> sysv \<Rightarrow> i32 \<times> sysv" where
  "getMsgQueueId E mboxId s =
     (let newMboxId = mboxId AND ITC_MASK_REGION_ID;
          projectId = drop_bit ITC_REGION_ID_SHIFT newMboxId;
          key = env_ftok E (sv_now s) projectId; s = tick s
      in if key = - 1 then (- 1, s)
         else let msgQueueId = env_msgget E (sv_now s) key False in (msgQueueId, tick s))"

definition removeContactInfoAtIndex :: "nat \<Rightarrow> sysv \<Rightarrow> sysv" where
  "removeContactInfoAtIndex atIndex s =
     s\<lparr>sv_contacts := (sv_contacts s)[atIndex := \<lparr>ci_region = ITC_MAILBOX_ID_DEFAULT, ci_queue = - 1\<rparr>]\<rparr>"

definition addContactInfoAtIndex :: "sys_env \<Rightarrow> nat \<Rightarrow> u32 \<Rightarrow> sysv \<Rightarrow> sysv" where
  "addContactInfoAtIndex E atIndex mboxId s =
     (let (msgQueueId, s) = getMsgQueueId E mboxId s
      in if msgQueueId \<noteq> - 1
         then s\<lparr>sv_contacts := (sv_contacts s)[atIndex :=
                  \<lparr>ci_region = mboxId AND ITC_MASK_REGION_ID, ci_queue = msgQueueId\<rparr>]\<rparr>
         else s)"

section \<open>Sending\<close>

partial_function (option) msgsnd_loop :: "sys_env \<Rightarrow> nat \<Rightarrow> u32 \<Rightarrow> u8 list \<Rightarrow> sysv \<Rightarrow> sysv option" where
  "msgsnd_loop E projectId rcv msg s =
     (let msgQueueId = ci_queue (sv_contacts s ! projectId)
      in case env_msgsnd E (sv_now s) msgQueueId of
           None \<Rightarrow> Some ((tick s)\<lparr>sv_sent := sv_sent s @ [(msgQueueId, msg)]\<rparr>)
         | Some err \<Rightarrow>
             if err = EINTR then msgsnd_loop E projectId rcv msg (tick s)
             else if err = EINVAL \<or> err = EIDRM
             then let s = addContactInfoAtIndex E projectId rcv
                            (removeContactInfoAtIndex projectId (tick s))
                  in if ci_region (sv_contacts s ! projectId) = 0 then Some s
                     else msgsnd_loop E projectId rcv msg s
             else msgsnd_loop E projectId rcv msg (tick s))"

text \<open>\<open>memcpy\<close> from the start of a block.\<close>

definition copy_out :: "ptr \<Rightarrow> nat \<Rightarrow> heap \<Rightarrow> u8 list res" where
  "copy_out a n h = with_block a h n (take n)"

definition tx_size :: "u32 \<Rightarrow> i32" where
  "tx_size sz = ITC_ADMIN_MESSAGE_PREAMBLE_SIZE + sz + ucast ITC_ADMIN_MESSAGE_ENDPOINT_SIZE"

definition sysv_send :: "sys_env \<Rightarrow> ptr \<Rightarrow> sysv \<times> heap \<Rightarrow> (itc_code \<times> sysv \<times> heap) res" where
  "sysv_send E adminMsg = (\<lambda>(s, h).
     if \<not> sv_initialised s then Inr (ITC_FAILED, s, h)
     else and_then (read_field F_receiver adminMsg h) (\<lambda>rcv.
       let projectId = drop_bit ITC_REGION_ID_SHIFT (rcv AND ITC_MASK_REGION_ID)
       in if projectId = 0 \<or> projectId \<ge> ITC_MAX_SUPPORTED_REGIONS then Inr (ITC_FAILED, s, h)
          else and_then (read_field F_size adminMsg h) (\<lambda>sz.
               and_then (heap_new (unat (SIZEOF_LONG + scast (tx_size sz))) h) (\<lambda>(txBuffer, h).
               and_then (copy_out adminMsg (unat (scast (tx_size sz) :: u64)) h) (\<lambda>msg.
               case msgsnd_loop E (unat projectId) rcv msg s of
                 None \<Rightarrow> Inl Blocked
               | Some s \<Rightarrow>
                   and_then (heap_delete txBuffer h) (\<lambda>h.
                   and_then (deallocate adminMsg h) (\<lambda>(ok, h).
                     Inr (if ok then ITC_OK else ITC_FAILED, s, h))))))))"

section \<open>Initialisation needs the queue file\<close>

text \<open>The queue transport cannot be initialised in a file system that does not have the queue file
  yet: although nothing is refused, initialise makes the directories, does not make the file,
  returns false and leaves the transport unchanged, and the file is still missing for the next
  attempt.\<close>

lemma initialise_sysv_without_file:
  assumes "fs ITC_PATH_SYSVMQ_FILE_NAME = None"
    and "\<forall>q \<in> set (prefixes ITC_PATH_SYSVMQ_FILE_NAME). \<not> fe_denied F q \<and> \<not> is_kind FReg q fs"
    and "\<not> fe_throws F ITC_PATH_SYSVMQ_FILE_NAME"
  shows "\<exists>fs'. initialise_sysv E F regionId (s, fs) = (False, s, fs') \<and>
    fs' ITC_PATH_SYSVMQ_FILE_NAME = None"
proof (cases "sv_initialised s")
  case False
  obtain fs' where "createPath F ITC_PATH_SYSVMQ_FILE_NAME REGULAR_FILE ITC_PATH_ITC_DIRECTORY_POSITION 511 fs
      = (FS_SYSCALL_ERROR, fs')" "fs' ITC_PATH_SYSVMQ_FILE_NAME = None"
    using createPath_regular_missing [OF assms, of ITC_PATH_ITC_DIRECTORY_POSITION 511]
    by (auto simp: ITC_PATH_SYSVMQ_FILE_NAME_def ITC_PATH_ITC_DIRECTORY_POSITION_def)
  with False show ?thesis by (simp add: initialise_sysv_def)
qed (use assms(1) in \<open>simp add: initialise_sysv_def\<close>)

section \<open>When the resend loop ends\<close>

lemma tick_sels [simp]:
  "sv_now (tick s) = Suc (sv_now s)" "sv_contacts (tick s) = sv_contacts s"
  "sv_sent (tick s) = sv_sent s" "sv_initialised (tick s) = sv_initialised s"
  by (simp_all add: tick_def)

lemma getMsgQueueId_frame:
  assumes "getMsgQueueId E mboxId s = (q, s')"
  shows "sv_now s < sv_now s'" "sv_contacts s' = sv_contacts s" "sv_sent s' = sv_sent s"
    "sv_initialised s' = sv_initialised s"
  using assms by (auto simp: getMsgQueueId_def Let_def split: if_splits)

text \<open>What renewing a contact leaves: the loop's test for region 0 never holds.\<close>

definition renew :: "sys_env \<Rightarrow> nat \<Rightarrow> u32 \<Rightarrow> sysv \<Rightarrow> sysv" where
  "renew E i rcv s = addContactInfoAtIndex E i rcv (removeContactInfoAtIndex i (tick s))"

lemma renew_frame:
  "sv_now s < sv_now (renew E i rcv s)" "sv_sent (renew E i rcv s) = sv_sent s"
  "length (sv_contacts (renew E i rcv s)) = length (sv_contacts s)"
  "sv_initialised (renew E i rcv s) = sv_initialised s"
  by (auto simp: renew_def addContactInfoAtIndex_def removeContactInfoAtIndex_def
      split: prod.splits dest: getMsgQueueId_frame)

lemma renew_region:
  assumes "i < length (sv_contacts s)" "region_of rcv \<noteq> 0"
  shows "ci_region (sv_contacts (renew E i rcv s) ! i) \<noteq> 0"
  using assms
  by (auto simp: renew_def addContactInfoAtIndex_def removeContactInfoAtIndex_def
      ITC_MAILBOX_ID_DEFAULT_def split: prod.splits dest: getMsgQueueId_frame(2))

lemma msgsnd_loop_step:
  assumes "i < length (sv_contacts s)" "region_of rcv \<noteq> 0"
  shows "msgsnd_loop E i rcv msg s =
    (case env_msgsnd E (sv_now s) (ci_queue (sv_contacts s ! i)) of
       None \<Rightarrow> Some ((tick s)\<lparr>sv_sent := sv_sent s @ [(ci_queue (sv_contacts s ! i), msg)]\<rparr>)
     | Some err \<Rightarrow>
         msgsnd_loop E i rcv msg (if err = EINVAL \<or> err = EIDRM then renew E i rcv s else tick s))"
  using renew_region [OF assms, of E]
  by (subst msgsnd_loop.simps) (simp add: Let_def renew_def [symmetric] split: option.split)

definition peer_region :: "u32 \<Rightarrow> nat" where
  "peer_region rcv = unat (drop_bit ITC_REGION_ID_SHIFT (region_of rcv))"

text \<open>The peer's queue \<open>Q\<close>, as \<open>msgop(2)\<close>, \<open>msgget(2)\<close> and \<open>ftok(3)\<close> document the calls: from the \<open>T\<close>-th
  call on the peer's key leads to \<open>Q\<close>, and \<open>Q\<close> accepts. Any other id the sender can come across (-1,
  the one it remembers, one the key led to earlier) never accepts, and is in the end refused as
  invalid or removed. Up to the \<open>T\<close>-th call the kernel may refuse with any error.\<close>

definition peer_ids :: "sys_env \<Rightarrow> u32 \<Rightarrow> sysv \<Rightarrow> i32 set" where
  "peer_ids E rcv s = insert (- 1) (insert (ci_queue (sv_contacts s ! peer_region rcv))
     {env_msgget E (Suc t) (env_ftok E t (drop_bit ITC_REGION_ID_SHIFT (region_of rcv))) False | t. True})"

definition peer_queue :: "sys_env \<Rightarrow> nat \<Rightarrow> u32 \<Rightarrow> i32 \<Rightarrow> sysv \<Rightarrow> bool" where
  "peer_queue E T rcv Q s \<longleftrightarrow> Q \<noteq> - 1 \<and>
     (\<forall>t \<ge> T. env_msgsnd E t Q = None \<and>
        env_ftok E t (drop_bit ITC_REGION_ID_SHIFT (region_of rcv)) \<noteq> - 1 \<and>
        env_msgget E (Suc t) (env_ftok E t (drop_bit ITC_REGION_ID_SHIFT (region_of rcv))) False = Q) \<and>
     (\<forall>q \<in> peer_ids E rcv s. q \<noteq> Q \<longrightarrow>
        (\<forall>t. env_msgsnd E t q \<noteq> None) \<and> (\<forall>t \<ge> T. env_msgsnd E t q \<in> {Some EINVAL, Some EIDRM}))"

lemma peer_queueD:
  assumes "peer_queue E T rcv Q s"
  shows "q \<in> peer_ids E rcv s \<Longrightarrow> q \<noteq> Q \<Longrightarrow> env_msgsnd E t q \<noteq> None"
    "q \<in> peer_ids E rcv s \<Longrightarrow> q \<noteq> Q \<Longrightarrow> T \<le> t \<Longrightarrow> env_msgsnd E t q \<in> {Some EINVAL, Some EIDRM}"
    "T \<le> t \<Longrightarrow> env_msgsnd E t Q = None"
    "T \<le> t \<Longrightarrow> env_ftok E t (drop_bit ITC_REGION_ID_SHIFT (region_of rcv)) \<noteq> - 1"
    "T \<le> t \<Longrightarrow> env_msgget E (Suc t) (env_ftok E t (drop_bit ITC_REGION_ID_SHIFT (region_of rcv))) False = Q"
  using assms unfolding peer_queue_def by blast+

lemma renew_contact:
  assumes "i < length (sv_contacts s)"
  obtains c where "sv_contacts (renew E i rcv s) = (sv_contacts s)[i := c]"
    "ci_queue c = (let k = env_ftok E (Suc (sv_now s)) (drop_bit ITC_REGION_ID_SHIFT (region_of rcv))
                   in if k = - 1 then - 1 else env_msgget E (Suc (Suc (sv_now s))) k False)"
  using assms that
  by (fastforce simp: renew_def addContactInfoAtIndex_def removeContactInfoAtIndex_def getMsgQueueId_def
      Let_def split: if_splits)

lemma renew_lookup:
  assumes "peer_queue E T rcv Q s" "T \<le> sv_now s" "peer_region rcv < length (sv_contacts s)"
  shows "ci_queue (sv_contacts (renew E (peer_region rcv) rcv s) ! peer_region rcv) = Q"
proof -
  obtain c where "sv_contacts (renew E (peer_region rcv) rcv s) = (sv_contacts s)[peer_region rcv := c]"
    "ci_queue c = (let k = env_ftok E (Suc (sv_now s)) (drop_bit ITC_REGION_ID_SHIFT (region_of rcv))
                   in if k = - 1 then - 1 else env_msgget E (Suc (Suc (sv_now s))) k False)"
    using renew_contact [OF assms(3)] by blast
  with peer_queueD(4,5) [OF assms(1), of "Suc (sv_now s)"] assms(2,3) show ?thesis by (simp add: Let_def)
qed

lemma peer_queue_renew:
  assumes "peer_queue E T rcv Q s" "peer_region rcv < length (sv_contacts s)"
  shows "peer_queue E T rcv Q (renew E (peer_region rcv) rcv s)"
proof -
  let ?s = "renew E (peer_region rcv) rcv s"
  obtain c where "sv_contacts ?s = (sv_contacts s)[peer_region rcv := c]"
    "ci_queue c = (let k = env_ftok E (Suc (sv_now s)) (drop_bit ITC_REGION_ID_SHIFT (region_of rcv))
                   in if k = - 1 then - 1 else env_msgget E (Suc (Suc (sv_now s))) k False)"
    using renew_contact [OF assms(2)] by blast
  then have "peer_ids E rcv ?s \<subseteq> peer_ids E rcv s"
    using assms(2) by (auto simp: peer_ids_def peer_region_def Let_def)
  with assms(1) show ?thesis by (simp only: peer_queue_def) (simp add: subset_iff)
qed

lemma peer_queue_tick: "peer_queue E T rcv Q (tick s) \<longleftrightarrow> peer_queue E T rcv Q s"
  by (simp add: peer_queue_def peer_ids_def)

lemma msgsnd_loop_accepted:
  assumes "peer_region rcv < length (sv_contacts s)" "region_of rcv \<noteq> 0"
    and "env_msgsnd E (sv_now s) (ci_queue (sv_contacts s ! peer_region rcv)) = None" "peer_queue E T rcv Q s"
  shows "\<exists>s' c. msgsnd_loop E (peer_region rcv) rcv msg s = Some s' \<and> sv_sent s' = sv_sent s @ [(Q, msg)] \<and>
     sv_contacts s' = (sv_contacts s)[peer_region rcv := c] \<and> ci_queue c = Q \<and>
     sv_initialised s' = sv_initialised s"
proof -
  have "ci_queue (sv_contacts s ! peer_region rcv) \<in> peer_ids E rcv s"
    by (simp add: peer_ids_def peer_region_def)
  with assms(3) peer_queueD(1) [OF assms(4)] have "ci_queue (sv_contacts s ! peer_region rcv) = Q" by blast
  then show ?thesis using msgsnd_loop_step [OF assms(1,2)] assms(3)
    by (intro exI [of _ "(tick s)\<lparr>sv_sent := sv_sent s @ [(Q, msg)]\<rparr>"]
        exI [of _ "sv_contacts s ! peer_region rcv"]) simp
qed

text \<open>Ends after the call at \<open>T\<close>, with at most one further renewal.\<close>

lemma msgsnd_loop_delivers:
  assumes "peer_region rcv < length (sv_contacts s)" "region_of rcv \<noteq> 0" "peer_queue E T rcv Q s"
  shows "\<exists>s' c. msgsnd_loop E (peer_region rcv) rcv msg s = Some s' \<and> sv_sent s' = sv_sent s @ [(Q, msg)] \<and>
     sv_contacts s' = (sv_contacts s)[peer_region rcv := c] \<and> ci_queue c = Q \<and>
     sv_initialised s' = sv_initialised s"
  using assms(1,3)
proof (induction "2 * (T - sv_now s) + (if ci_queue (sv_contacts s ! peer_region rcv) = Q then 0 else 1)"
    arbitrary: s rule: less_induct)
  case less
  let ?i = "peer_region rcv" and ?q = "\<lambda>s. ci_queue (sv_contacts s ! peer_region rcv)"
  show ?case
  proof (cases "env_msgsnd E (sv_now s) (?q s)")
    case None
    from msgsnd_loop_accepted [OF less.prems(1) assms(2) None less.prems(2)] show ?thesis .
  next
    case (Some err)
    define s1 where "s1 = (if err = EINVAL \<or> err = EIDRM then renew E ?i rcv s else tick s)"
    have frame: "sv_now s < sv_now s1" "sv_sent s1 = sv_sent s" "sv_initialised s1 = sv_initialised s"
      "length (sv_contacts s1) = length (sv_contacts s)"
      using renew_frame [where s = s and E = E and i = ?i and rcv = rcv] by (auto simp: s1_def)
    have pq: "peer_queue E T rcv Q s1"
      using less.prems peer_queue_renew by (simp add: s1_def peer_queue_tick)
    obtain c where c: "sv_contacts s1 = (sv_contacts s)[?i := c]"
      by (cases "err = EINVAL \<or> err = EIDRM")
         (use renew_contact [OF less.prems(1)] that in \<open>simp add: s1_def; blast\<close>,
          use that [of "sv_contacts s ! ?i"] in \<open>simp add: s1_def\<close>)
    have q_in: "?q s \<in> peer_ids E rcv s" by (simp add: peer_ids_def peer_region_def)
    have "2 * (T - sv_now s1) + (if ?q s1 = Q then 0 else 1) < 2 * (T - sv_now s) + (if ?q s = Q then 0 else 1)"
    proof (cases "T \<le> sv_now s")
      case True
      then have stale: "?q s \<noteq> Q" using peer_queueD(3) [OF less.prems(2) True] Some by auto
      have "err = EINVAL \<or> err = EIDRM"
        using peer_queueD(2) [OF less.prems(2) q_in stale True] Some by auto
      then have "?q s1 = Q" using renew_lookup [OF less.prems(2) True less.prems(1)] by (simp add: s1_def)
      with stale True frame(1) show ?thesis by simp
    next
      case False
      then have "T - sv_now s1 < T - sv_now s" using frame(1) by linarith
      then show ?thesis by simp
    qed
    from less.hyps [OF this] less.prems pq frame c have
      "\<exists>s' c. msgsnd_loop E ?i rcv msg s1 = Some s' \<and> sv_sent s' = sv_sent s @ [(Q, msg)] \<and>
         sv_contacts s' = (sv_contacts s)[?i := c] \<and> ci_queue c = Q \<and> sv_initialised s' = sv_initialised s"
      by fastforce
    with Some msgsnd_loop_step [OF less.prems(1) assms(2)] show ?thesis by (simp add: s1_def)
  qed
qed

lemma renew_missing:
  assumes "i < length (sv_contacts s)" "\<forall>t k. env_msgget E t k False = - 1"
  shows "ci_queue (sv_contacts (renew E i rcv s) ! i) = - 1"
  using assms
  by (auto simp: renew_def addContactInfoAtIndex_def removeContactInfoAtIndex_def getMsgQueueId_def
      Let_def split: if_splits)

text \<open>The peer has no queue, now or ever: \<open>msgget\<close> without \<open>IPC_CREAT\<close> fails, \<open>msgsnd\<close> on -1 is \<open>EINVAL\<close>.\<close>

definition peer_missing :: "sys_env \<Rightarrow> nat \<Rightarrow> u32 \<Rightarrow> sysv \<Rightarrow> bool" where
  "peer_missing E i rcv s \<longleftrightarrow>
     (\<forall>t k. env_msgget E t k False = - 1) \<and> (\<forall>t. env_msgsnd E t (- 1) = Some EINVAL) \<and>
     i < length (sv_contacts s) \<and> ci_queue (sv_contacts s ! i) = - 1 \<and> region_of rcv \<noteq> 0"

lemma peer_missing_renew: "peer_missing E i rcv s \<Longrightarrow> peer_missing E i rcv (renew E i rcv s)"
  by (auto simp: peer_missing_def renew_missing renew_frame)

lemma msgsnd_loop_returns_not_missing:
  "msgsnd_loop E i rcv msg s = Some s' \<Longrightarrow> \<not> peer_missing E i rcv s"
proof (rule msgsnd_loop.raw_induct [where P = "\<lambda>E i rcv msg s s'. \<not> peer_missing E i rcv s"], rule notI)
  fix loop E i rcv msg s s'
  assume IH: "\<And>E i rcv msg s s'. loop E i rcv msg s = Some s' \<Longrightarrow> \<not> peer_missing E i rcv s"
    and body: "(let msgQueueId = ci_queue (sv_contacts s ! i)
      in case env_msgsnd E (sv_now s) msgQueueId of
           None \<Rightarrow> Some ((tick s)\<lparr>sv_sent := sv_sent s @ [(msgQueueId, msg)]\<rparr>)
         | Some err \<Rightarrow>
             if err = EINTR then loop E i rcv msg (tick s)
             else if err = EINVAL \<or> err = EIDRM
             then let s = addContactInfoAtIndex E i rcv
                            (removeContactInfoAtIndex i (tick s))
                  in if ci_region (sv_contacts s ! i) = 0 then Some s
                     else loop E i rcv msg s
             else loop E i rcv msg (tick s)) = Some s'"
    and missing: "peer_missing E i rcv s"
  have "ci_region (sv_contacts (renew E i rcv s) ! i) \<noteq> 0"
    using missing by (intro renew_region) (simp_all add: peer_missing_def)
  with body missing have "loop E i rcv msg (renew E i rcv s) = Some s'"
    by (simp add: peer_missing_def Let_def renew_def)
  with IH peer_missing_renew [OF missing] show False by blast
qed

lemma msgsnd_loop_diverges: "peer_missing E i rcv s \<Longrightarrow> msgsnd_loop E i rcv msg s = None"
  using msgsnd_loop_returns_not_missing by (cases "msgsnd_loop E i rcv msg s") blast+

section \<open>What sending promises\<close>

lemma region_of_nonzero: "0 < peer_region rcv \<Longrightarrow> region_of rcv \<noteq> 0"
  by (metis peer_region_def drop_bit_of_0 unsigned_0 less_irrefl)

lemma tx_size_small:
  assumes "17 + unat sz < 2 ^ 31"
  shows "unat (scast (tx_size sz) :: u64) = 17 + unat sz"
    "unat (SIZEOF_LONG + scast (tx_size sz)) = 25 + unat sz"
proof -
  have t: "tx_size sz = of_nat (17 + unat sz)" by (simp add: tx_size_def itc_const)
  have u: "unat (tx_size sz) = 17 + unat sz"
    unfolding t using assms by (intro unat_of_nat_less) simp
  with assms have "sint (tx_size sz) = int (17 + unat sz)" by (simp only: sint_u32 if_True)
  then have "(scast (tx_size sz) :: u64) = of_nat (17 + unat sz)"
    by (metis of_int_of_nat_eq of_int_sint)
  then show *: "unat (scast (tx_size sz) :: u64) = 17 + unat sz"
    using assms unat_of_nat_less [where 'a = 64, of "17 + unat sz"] by simp
  show "unat (SIZEOF_LONG + scast (tx_size sz)) = 25 + unat sz"
    using assms * by (simp add: itc_const unat_word_ariths)
qed

lemma send_prepared:
  assumes "sv_initialised s" "msg_ok h a" "block h a = Some bs" "length bs < 2 ^ 31"
    and "read_field F_receiver a h = Inr rcv" "0 < peer_region rcv" "peer_region rcv < 255"
    and "can_alloc h (8 + length bs)"
  shows "(case msgsnd_loop E (peer_region rcv) rcv bs s of
       None \<Rightarrow> sysv_send E a (s, h) = Inl Blocked
     | Some s' \<Rightarrow> \<exists>h'. sysv_send E a (s, h) = Inr (ITC_OK, s', h') \<and>
         blocks h' = (blocks h)(a := None))"
proof -
  let ?sz = "get32 12 bs" and ?b = "addr_at h (allocs h)"
  let ?h1 = "h\<lparr>blocks := (blocks h)(?b := Some (map (junk h) [0..<8 + length bs])), allocs := allocs h + 1\<rparr>"
  let ?h2 = "h\<lparr>blocks := (blocks h)(?b := None), allocs := allocs h + 1\<rparr>"
  from assms(2,3) have bs: "21 \<le> length bs" "length bs = 17 + unat ?sz"
    by (simp_all add: msg_ok_def msg_bytes_ok_def)
  have fields: "read_field F_size a h = Inr ?sz"
    using assms(3) bs(1) by (simp add: read_field_def heap_simps)
  have sizes: "unat (scast (tx_size ?sz) :: u64) = length bs"
      "unat (SIZEOF_LONG + scast (tx_size ?sz)) = 8 + length bs"
    using tx_size_small [of ?sz] assms(4) bs(2) by simp_all
  have b: "?b \<noteq> a" "block h ?b = None" using assms(3,8) by (auto simp: can_alloc_def)
  then have "blocks ?h2 = blocks h" by auto
  with assms(2) have "msg_ok ?h2 a" by (simp add: msg_ok_def)
  then have "deallocate a ?h2 = Inr (True, freed a ?h2)" by (rule deallocate_msg_ok)
  moreover have "blocks (freed a ?h2) = (blocks h)(a := None)"
    using b by (auto simp: freed_def)
  moreover have "copy_out a (length bs) ?h1 = Inr bs"
    using b assms(3) by (simp add: copy_out_def with_block_def)
  moreover have "heap_delete ?b ?h1 = Inr ?h2" by (simp add: heap_delete_def)
  moreover have "heap_new (8 + length bs) h = Inr (?b, ?h1)"
    using assms(8) by (simp add: heap_new_def Let_def)
  moreover have "drop_bit ITC_REGION_ID_SHIFT (region_of rcv) \<noteq> 0"
    "\<not> ITC_MAX_SUPPORTED_REGIONS \<le> drop_bit ITC_REGION_ID_SHIFT (region_of rcv)"
    using assms(6,7) by (auto simp: peer_region_def word_le_nat_alt ITC_MAX_SUPPORTED_REGIONS_def)
  ultimately show ?thesis
    using assms(1,5) fields sizes
    by (simp add: sysv_send_def Let_def peer_region_def split: option.split)
qed

text \<open>A kernel that interrupts the first call and has the one queue 5, and one where no peer has a queue.\<close>

definition demo_env :: sys_env where
  "demo_env = \<lparr>env_ftok = (\<lambda>_ _. 1), env_msgget = (\<lambda>_ _ _. 5),
     env_msgsnd = (\<lambda>t q. if t = 0 then Some EINTR else if q = 5 then None else Some EINVAL), env_qnum = (\<lambda>_ _. Some 0),
     env_rmid = (\<lambda>_ _. True), env_ipc_info = (\<lambda>_. Some (8192, 16384)), env_pthread = (\<lambda>_. 0),
     env_prctl = (\<lambda>_. True), env_getpid = 1, env_create_mailbox = 0x100001\<rparr>"

definition no_peer_env :: sys_env where
  "no_peer_env = demo_env\<lparr>env_msgget := (\<lambda>_ _ _. - 1), env_msgsnd := (\<lambda>_ _. Some EINVAL)\<rparr>"

definition demo_sysv :: sysv where
  "demo_sysv = fst (snd (initialise_sysv demo_env demo_fs_env 0x200000
     (sysv_new, demo_fs(ITC_PATH_SYSVMQ_FILE_NAME \<mapsto> \<lparr>fn_kind = FReg, fn_mode = 511\<rparr>))))"

lemma demo_sysv_simps [simp]:
  "sv_initialised demo_sysv" "length (sv_contacts demo_sysv) = 255" "sv_max demo_sysv = - 1"
  "sv_sent demo_sysv = []" "i < 255 \<Longrightarrow> ci_queue (sv_contacts demo_sysv ! i) = - 1"
  by (simp_all add: demo_sysv_def initialise_sysv_def createPath_def fs_exists_def demo_fs_env_def
      sysv_new_def demo_env_def Let_def tick_def itc_const)

lemma demo_send_facts:
  "msg_ok (demo_msg_heap 0x100001) 0x1000" "block (demo_msg_heap 0x100001) 0x1000 = Some (demo_msg 0x100001)"
  "length (demo_msg 0x100001) < 2 ^ 31" "read_field F_receiver 0x1000 (demo_msg_heap 0x100001) = Inr 0x100001"
  "0 < peer_region 0x100001" "peer_region 0x100001 < 255"
  "can_alloc (demo_msg_heap 0x100001) (8 + length (demo_msg 0x100001))"
  by (simp_all add: demo_msg_ok msg_ok_def demo_msg_heap_def demo_heap_def can_alloc_def
      read_field_def heap_simps itc_const peer_region_def)

lemma demo_peer_queue:
  "ci_queue (sv_contacts s ! peer_region rcv) \<in> {- 1, 5} \<Longrightarrow>
     peer_queue demo_env 1 rcv 5 s"
  by (auto simp: peer_queue_def peer_ids_def demo_env_def)

text \<open>C12: Sending a well-formed message (shorter than 2^31 bytes) to the process of a valid region ends
  with OK although the kernel may have interrupted or refused the call any number of times
  before, also because the id the sender remembers is that of no queue or of a removed one:
  the message is sent exactly once, byte for byte and to the queue the receiver's region now
  has, whose id the contact of this region then holds (the other contacts are unchanged); the
  message, and nothing else, has been freed.\<close>

theorem sysv_send_delivers:
  assumes "sv_initialised s" "length (sv_contacts s) = 255" "peer_queue E T rcv Q s"
    and "msg_ok h a" "block h a = Some bs" "length bs < 2 ^ 31"
    and "read_field F_receiver a h = Inr rcv" "0 < peer_region rcv" "peer_region rcv < 255"
    and "can_alloc h (8 + length bs)"
  shows "\<exists>s' h' c. sysv_send E a (s, h) = Inr (ITC_OK, s', h') \<and>
    sv_sent s' = sv_sent s @ [(Q, bs)] \<and> blocks h' = (blocks h)(a := None) \<and>
    sv_contacts s' = (sv_contacts s)[peer_region rcv := c] \<and> ci_queue c = Q"
proof -
  from msgsnd_loop_delivers [OF _ region_of_nonzero [OF assms(8)] assms(3), of bs]
  obtain s' c where "msgsnd_loop E (peer_region rcv) rcv bs s = Some s'"
    "sv_sent s' = sv_sent s @ [(Q, bs)]" "sv_contacts s' = (sv_contacts s)[peer_region rcv := c]"
    "ci_queue c = Q"
    using assms(2,9) by auto
  with send_prepared [OF assms(1,4-10), of E] show ?thesis by auto
qed

theorem sysv_send_delivers_witness:
  "\<exists>s' h'. sysv_send demo_env 0x1000 (demo_sysv, demo_msg_heap 0x100001) = Inr (ITC_OK, s', h') \<and>
     sv_sent s' = [(5, demo_msg 0x100001)] \<and> ci_queue (sv_contacts s' ! 1) = 5 \<and>
     ci_queue (sv_contacts demo_sysv ! 1) = - 1"
proof -
  have i: "peer_region 0x100001 = 1" by code_simp
  then have "peer_queue demo_env 1 0x100001 5 demo_sysv"
    by (intro demo_peer_queue) simp
  from sysv_send_delivers [OF _ _ this demo_send_facts] show ?thesis by (auto simp: i)
qed

text \<open>C35: If the peer process has no queue (it is not running), sending to it never returns: the
  guard meant to stop the resending compares the contact's region with 0, a value no contact
  ever has.\<close>

theorem sysv_send_to_missing_peer_hangs:
  assumes "sv_initialised s" "peer_missing E (peer_region rcv) rcv s"
    and "msg_ok h a" "block h a = Some bs" "length bs < 2 ^ 31"
    and "read_field F_receiver a h = Inr rcv" "0 < peer_region rcv" "peer_region rcv < 255"
    and "can_alloc h (8 + length bs)"
  shows "sysv_send E a (s, h) = Inl Blocked"
  using send_prepared [OF assms(1,3-9), of E] msgsnd_loop_diverges [OF assms(2)] by simp

theorem sysv_send_to_missing_peer_hangs_witness:
  "sysv_send no_peer_env 0x1000 (demo_sysv, demo_msg_heap 0x100001) = Inl Blocked"
proof -
  have "peer_missing no_peer_env (peer_region 0x100001) 0x100001 demo_sysv"
    using demo_send_facts(5,6) region_of_nonzero [OF demo_send_facts(5)]
    by (simp add: peer_missing_def no_peer_env_def)
  from sysv_send_to_missing_peer_hangs [OF _ this demo_send_facts] show ?thesis by simp
qed

lemma initialise_sysv_without_file_witness:
  "\<exists>fs'. initialise_sysv demo_env demo_fs_env 0x200000 (sysv_new, demo_fs) = (False, sysv_new, fs')"
proof -
  have "demo_fs ITC_PATH_SYSVMQ_FILE_NAME = None"
    "\<forall>q \<in> set (prefixes ITC_PATH_SYSVMQ_FILE_NAME). \<not> fe_denied demo_fs_env q \<and> \<not> is_kind FReg q demo_fs"
    "\<not> fe_throws demo_fs_env ITC_PATH_SYSVMQ_FILE_NAME"
    by (auto simp: ITC_PATH_SYSVMQ_FILE_NAME_def demo_fs_def demo_fs_env_def is_kind_def)
  from initialise_sysv_without_file [OF this] show ?thesis by blast
qed

end
