(* ===== verification/Sysv_Receive.thy ===== *)
theory Sysv_Receive
  imports Transport_Sysv
begin

text \<open>
  The receiving side of \<open>itcTransportSysvMsgQueue.cc\<close>: the start of the rx thread, its loop, and
  the parsing and forwarding of one received message. The receive buffer is the list of the
  bytes behind its leading \<open>long\<close>, \<open>m_maxMsgSize - 8\<close> of them; bytes of earlier, longer messages
  stay in it.
\<close>

section \<open>Parsing and forwarding\<close>

definition buf32 :: "nat \<Rightarrow> u8 list \<Rightarrow> u32 res" where
  "buf32 off buf = (if off + 4 \<le> length buf then Inr (get32 off buf) else Inl WildAccess)"

definition buf8 :: "nat \<Rightarrow> u8 list \<Rightarrow> u8 res" where
  "buf8 off buf = (if off < length buf then Inr (buf ! off) else Inl WildAccess)"

definition copy_in :: "ptr \<Rightarrow> nat \<Rightarrow> u8 list \<Rightarrow> heap \<Rightarrow> heap res" where
  "copy_in a n buf h =
     (if n \<le> length buf
      then with_block a h n (\<lambda>old. set_block a (take n buf @ drop n old) h)
      else Inl WildAccess)"

definition whole_size :: "u32 \<Rightarrow> u32" where
  "whole_size sz = ITC_ADMIN_MESSAGE_PREAMBLE_SIZE + sz + ucast ITC_ADMIN_MESSAGE_ENDPOINT_SIZE"

definition parseAndForwardMessage ::
    "u64 \<Rightarrow> u8 list \<Rightarrow> u64 \<Rightarrow> heap \<times> mbox_list option \<Rightarrow> (bool \<times> heap \<times> mbox_list option) res" where
  "parseAndForwardMessage sysvMsgno rxMsg len = (\<lambda>(h, st).
     if sysvMsgno \<noteq> ITC_SYSV_MESSAGE_QUEUE_TX_MSGNO then Inr (False, h, st)
     else and_then (buf32 (field_off F_size) rxMsg) (\<lambda>sz.
       if len - SIZEOF_LONG < ucast (whole_size sz) then Inr (False, h, st)
       else and_then (buf8 (endpoint_off (ucast sz)) rxMsg) (\<lambda>endpoint.
         if endpoint \<noteq> ITC_ADMIN_MESSAGE_ENDPOINT then Inr (False, h, st)
         else and_then (buf32 (field_off F_msgno) rxMsg) (\<lambda>msgno.
              and_then (allocate msgno (ucast sz) h) (\<lambda>(a, h).
              let newMsg = CONVERT_TO_USER_MESSAGE a;
                  newAdminMsg = CONVERT_TO_ADMIN_MESSAGE newMsg
              in and_then (read_field F_flags newAdminMsg h) (\<lambda>storedFlags.
                 and_then (copy_in newAdminMsg (unat (whole_size sz)) rxMsg h) (\<lambda>h.
                 and_then (write_field F_flags newAdminMsg storedFlags h) (\<lambda>h.
                 and_then (local_send h newAdminMsg st) (\<lambda>(rc, st).
                   Inr (rc = ITC_OK, h, st))))))))))"

section \<open>The rx thread\<close>

definition getMaxMessageSize :: "sys_env \<Rightarrow> sysv \<Rightarrow> u64 \<times> sysv" where
  "getMaxMessageSize E s =
     (if sv_max s > 0 then (sv_max s, s)
      else case env_ipc_info E (sv_now s) of
             None \<Rightarrow> (0, tick s)
           | Some (msgmax, msgmnb) \<Rightarrow>
               let maxMsgSizeTemp = (if sint msgmnb < sint msgmax then msgmnb else msgmax);
                   m = (if sint maxMsgSizeTemp < 0 then 0 else scast maxMsgSizeTemp)
               in (m, (tick s)\<lparr>sv_max := m\<rparr>))"

text \<open>Everything before the loop; \<open>True\<close>: the loop is entered.\<close>

definition rx_buffer_setup :: "sys_env \<Rightarrow> sysv \<times> heap \<Rightarrow> (bool \<times> sysv \<times> heap) res" where
  "rx_buffer_setup E = (\<lambda>(s, h).
     let (_, s) = getMaxMessageSize E s; n = unat (sv_max s)
     in and_then (heap_new n h) (\<lambda>(buf, h).
          Inr (True, s\<lparr>sv_rx := buf\<rparr>, set_block buf (replicate n 0) h)))"

definition rx_thread_start :: "sys_env \<Rightarrow> sysv \<times> heap \<Rightarrow> (bool \<times> sysv \<times> heap) res" where
  "rx_thread_start E = (\<lambda>(s, h).
     if \<not> env_prctl E (sv_now s) then Inr (False, tick s, h)
     else let s = (tick s)\<lparr>sv_mbox := env_create_mailbox E\<rparr>; ret = env_pthread E (sv_now s); s = tick s
     in if ret \<noteq> 0 then Inr (False, s, h)
     else let projectId = drop_bit ITC_REGION_ID_SHIFT (sv_region s);
              key = env_ftok E (sv_now s) projectId; s = tick s
     in if key = - 1 then Inr (False, s, h)
     else let s = (tick s)\<lparr>sv_queue := env_msgget E (sv_now s) key True\<rparr>
     in if sv_queue s = - 1 then Inr (False, s, h)
     else case env_qnum E (sv_now s) (sv_queue s) of
            None \<Rightarrow> Inr (False, tick s, h)
          | Some qnum \<Rightarrow>
              let s = tick s
              in if qnum = 0 then rx_buffer_setup E (s, h)
                 else if \<not> env_rmid E (sv_now s) (sv_queue s) then Inr (False, tick s, h)
                 else let s = tick s;
                          s = (tick s)\<lparr>sv_queue := env_msgget E (sv_now s) key True\<rparr>
                      in if sv_queue s = - 1 then Inr (False, s, h) else rx_buffer_setup E (s, h))"

text \<open>What the loop sees: \<open>msgrcv\<close> fails, \<open>msgrcv\<close> delivers, or another thread has released the transport.\<close>

text \<open>A message that is longer than the buffer is one that \<open>msgrcv\<close>, which is called without
  \<open>MSG_NOERROR\<close>, refuses with -1 (\<open>E2BIG\<close>).\<close>

datatype rx_event = RxError | RxMsg u64 "u8 list" | RxRelease

type_synonym rx_state = "u8 list \<times> heap \<times> mbox_list option"

definition fill_buffer :: "u8 list \<Rightarrow> u8 list \<Rightarrow> u8 list" where
  "fill_buffer data buf = data @ drop (length data) buf"

fun rx_iter :: "rx_event \<Rightarrow> rx_state \<Rightarrow> rx_state res" where
  "rx_iter (RxMsg sysvMsgno data) (buf, h, st) =
     (if length buf < length data then Inr (buf, h, st)
      else let buf = fill_buffer data buf
      in if length data \<le> unat (SIZEOF_LONG + ucast ITC_ADMIN_MESSAGE_MIN_SIZE) then Inr (buf, h, st)
         else and_then (parseAndForwardMessage sysvMsgno buf (of_nat (length data) + SIZEOF_LONG) (h, st))
                (\<lambda>(_, h, st). Inr (buf, h, st)))"
| "rx_iter _ x = Inr x"

fun rx_loop :: "rx_event list \<Rightarrow> bool \<Rightarrow> rx_state \<Rightarrow> rx_state res" where
  "rx_loop [] terminated x = Inr x"
| "rx_loop (ev # evs) terminated x =
     (if terminated then Inr x
      else and_then (rx_iter ev x) (rx_loop evs (ev = RxRelease)))"

text \<open>The end of the thread, and all of it: \<open>evs\<close> is what the calls of \<open>msgrcv\<close> give.\<close>

definition rx_thread_end :: "sysv \<times> heap \<Rightarrow> (sysv \<times> heap) res" where
  "rx_thread_end = (\<lambda>(s, h). and_then (heap_delete (sv_rx s) h) (\<lambda>h. Inr (s\<lparr>sv_rx := nullptr\<rparr>, h)))"

definition sysvMsgQueueRxThread ::
    "sys_env \<Rightarrow> rx_event list \<Rightarrow> sysv \<times> heap \<times> mbox_list option \<Rightarrow> (sysv \<times> heap \<times> mbox_list option) res" where
  "sysvMsgQueueRxThread E evs = (\<lambda>(s, h, st).
     and_then (rx_thread_start E (s, h)) (\<lambda>(entered, s, h).
       if \<not> entered then Inr (s, h, st)
       else and_then (rx_loop evs (sv_terminated s) (replicate (unat (sv_max s - SIZEOF_LONG)) 0, h, st)) (\<lambda>(_, h, st).
            and_then (rx_thread_end (s, h)) (\<lambda>(s, h). Inr (s, h, st)))))"

section \<open>What a received message becomes\<close>

lemma whole_size_small: "17 + unat sz < 2 ^ 32 \<Longrightarrow> unat (whole_size sz) = 17 + unat sz"
  by (simp add: whole_size_def itc_const unat_word_ariths)

lemma convert_back [simp]: "CONVERT_TO_ADMIN_MESSAGE (CONVERT_TO_USER_MESSAGE a) = a"
  by (simp add: CONVERT_TO_ADMIN_MESSAGE_def CONVERT_TO_USER_MESSAGE_def itc_const)

text \<open>A buffer that starts with the well-formed message \<open>bs\<close> passes every check.\<close>

definition forwarded :: "u8 list \<Rightarrow> heap \<Rightarrow> heap" where
  "forwarded bs h = set_block (addr_at h (allocs h)) (put32 8 ITC_FLAG_DEFAULT bs)
     (h\<lparr>allocs := allocs h + 1\<rparr>)"

lemma parse_well_formed:
  assumes ok: "msg_bytes_ok bs" and len: "length bs < 2 ^ 32" "length bs \<le> unat (l - SIZEOF_LONG)"
    and room: "can_alloc h (length bs)"
  shows "parseAndForwardMessage ITC_SYSV_MESSAGE_QUEUE_TX_MSGNO (bs @ rest) l (h, st) =
    and_then (local_send (forwarded bs h) (addr_at h (allocs h)) st) (\<lambda>(rc, st).
      Inr (rc = ITC_OK, forwarded bs h, st))"
proof -
  let ?sz = "get32 12 bs" and ?a = "addr_at h (allocs h)"
  from ok have bs: "21 \<le> length bs" "length bs = 17 + unat ?sz" "last bs = ITC_ADMIN_MESSAGE_ENDPOINT"
    by (simp_all add: msg_bytes_ok_def)
  have whole: "unat (whole_size ?sz) = length bs"
    using len(1) bs(2) by (simp add: whole_size_small)
  then have pass: "\<not> l - SIZEOF_LONG < ucast (whole_size ?sz)"
    using len by (simp add: word_less_nat_alt unsigned_ucast_eq take_bit_nat_eq_self)
  have "(bs @ rest) ! (16 + unat ?sz) = last bs"
  proof -
    have "length bs - 1 = 16 + unat ?sz" "bs \<noteq> []" using bs by auto
    then show ?thesis by (metis last_conv_nth nth_append length_greater_0_conv diff_less zero_less_one)
  qed
  then have endpoint: "buf8 (endpoint_off (ucast ?sz)) (bs @ rest) = Inr ITC_ADMIN_MESSAGE_ENDPOINT"
    using bs by (simp add: buf8_def)
  have sz64: "(ucast ?sz :: u64) = of_nat (unat ?sz)" by simp
  have alloc: "allocate no (ucast ?sz) h = Inr (?a,
      h\<lparr>blocks := (blocks h)(?a := Some (fresh_bytes no (unat ?sz) (junk h))), allocs := allocs h + 1\<rparr>)" for no
    unfolding sz64 using bs room by (intro allocate_bytes) (auto simp: ac_simps)
  show ?thesis
    using bs whole pass endpoint
    by (simp add: parseAndForwardMessage_def buf32_def get32_append alloc Let_def read_field_def
        write_field_def heap_simps copy_in_def with_block_def forwarded_def set_block_def)
qed

lemma blocks_forwarded:
  "blocks (forwarded bs h) = (blocks h)(addr_at h (allocs h) := Some (put32 8 ITC_FLAG_DEFAULT bs))"
  by (simp add: forwarded_def heap_simps)

lemma addressed_forwarded:
  assumes "msg_bytes_ok bs" "unat (unit_of (get32 4 bs)) = i"
  shows "addressed_to (forwarded bs h) i (addr_at h (allocs h))"
  using assms
  by (simp add: addressed_to_def read_field_def read32_block [OF blocks_forwarded [THEN fun_cong, THEN trans]]
      msg_bytes_ok_def)

lemma rx_iter_delivers:
  assumes "msg_bytes_ok bs" "30 \<le> length bs" "length bs \<le> length buf" "length bs < 2 ^ 31"
    and "can_alloc h (length bs)" "list_ok ct" "unat (unit_of (get32 4 bs)) = j" "j < 1024"
    and "mbox_ok (mbox_at j ct)" "mb_active (mbox_at j ct)" "length (mbox_list (mbox_at j ct)) < 1024"
  obtains m where "rx_iter (RxMsg ITC_SYSV_MESSAGE_QUEUE_TX_MSGNO bs) (buf, h, Some ct) =
      Inr (fill_buffer bs buf, forwarded bs h, Some (set_mbox j m ct))"
    "mbox_push (addr_at h (allocs h)) (mbox_at j ct) = Inr (True, m)"
    "mbox_list m = mbox_list (mbox_at j ct) @ [addr_at h (allocs h)]"
proof -
  let ?a = "addr_at h (allocs h)" and ?l = "of_nat (length bs) + SIZEOF_LONG"
  have "?a \<noteq> nullptr" using assms(5) by (simp add: can_alloc_def)
  from mbox.put_room [OF assms(9,10) this assms(11)] obtain m where
    m: "mbox_push ?a (mbox_at j ct) = Inr (True, m)" "mbox_list m = mbox_list (mbox_at j ct) @ [?a]"
    by blast
  have "unat (of_nat (length bs) :: u64) = length bs" using assms(4) by (intro unat_of_nat_less) simp
  then have l: "length bs \<le> unat (?l - SIZEOF_LONG)" by simp
  have "\<not> length bs \<le> unat (SIZEOF_LONG + ucast ITC_ADMIN_MESSAGE_MIN_SIZE)"
    using assms(2) by (simp add: itc_const)
  then have "rx_iter (RxMsg ITC_SYSV_MESSAGE_QUEUE_TX_MSGNO bs) (buf, h, Some ct) =
      Inr (fill_buffer bs buf, forwarded bs h, Some (set_mbox j m ct))"
    using parse_well_formed [OF assms(1) _ l assms(5)] assms(3,4) m(1)
      local_send_push [OF assms(6,8) addressed_forwarded [OF assms(1,7), of h]]
    by (simp add: fill_buffer_def)
  with m that show ?thesis by blast
qed

lemma rx_iter_drops:
  assumes "length bs < 30"
  shows "\<exists>buf'. rx_iter (RxMsg n bs) (buf, h, st) = Inr (buf', h, st)"
  using assms by (simp add: Let_def itc_const)

text \<open>C11: What the body of the rx thread's loop makes of a well-formed message that \<open>msgrcv\<close> could
  place in the receive buffer. A message of fewer than 30 bytes (a user part of at most 12) is
  dropped: heap and mailboxes are unchanged. A longer one, when the mailbox its receiver field
  names exists (unit below 1024), is active and has room, is delivered, whatever stale bytes
  follow it in the buffer: a fresh block holds it with its sender, receiver, size, message
  number and payload unchanged and its flags cleared, that block is the last message of the
  mailbox's queue, and no other block and no other mailbox has changed.\<close>

theorem received_message_delivered:
  assumes "msg_bytes_ok bs" "length bs \<le> length buf" "length bs < 2 ^ 31" "can_alloc h (length bs)"
    and "list_ok ct" "unat (unit_of (get32 4 bs)) = i" "i < 1024"
    and "mbox_ok (mbox_at i ct)" "mb_active (mbox_at i ct)" "length (mbox_list (mbox_at i ct)) < 1024"
  shows "\<exists>buf' h' ct'. rx_iter (RxMsg ITC_SYSV_MESSAGE_QUEUE_TX_MSGNO bs) (buf, h, Some ct) =
      Inr (buf', h', Some ct') \<and>
    (if length bs < 30 then h' = h \<and> ct' = ct
     else \<exists>a. a \<noteq> nullptr \<and> block h a = None \<and> blocks h' = (blocks h)(a \<mapsto> put32 8 ITC_FLAG_DEFAULT bs) \<and>
       mbox_list (mbox_at i ct') = mbox_list (mbox_at i ct) @ [a] \<and>
       (\<forall>j. j \<noteq> i \<longrightarrow> mbox_at j ct' = mbox_at j ct))"
proof (cases "length bs < 30")
  case True
  with rx_iter_drops [OF True, of ITC_SYSV_MESSAGE_QUEUE_TX_MSGNO buf h "Some ct"] show ?thesis by auto
next
  case False
  let ?a = "addr_at h (allocs h)"
  have a: "?a \<noteq> nullptr" "block h ?a = None" using assms(4) by (simp_all add: can_alloc_def)
  from False obtain m where "rx_iter (RxMsg ITC_SYSV_MESSAGE_QUEUE_TX_MSGNO bs) (buf, h, Some ct) =
      Inr (fill_buffer bs buf, forwarded bs h, Some (set_mbox i m ct))"
    "mbox_list m = mbox_list (mbox_at i ct) @ [?a]"
    using rx_iter_delivers [OF assms(1) _ assms(2-10)] by (metis not_less)
  then show ?thesis
    using a assms(5,7) False by (intro exI conjI) (assumption | auto simp: blocks_forwarded)+
qed

lemma demo_big_msg:
  "msg_bytes_ok (put32 4 1 (fresh_bytes 7 20 g))" "get32 4 (put32 4 1 (fresh_bytes 7 20 g)) = 1"
  "length (put32 4 1 (fresh_bytes 7 20 g)) = 37"
  by (simp_all add: msg_bytes_ok_fresh msg_bytes_ok_put_header)

theorem received_message_delivered_witness:
  "\<exists>ct a buf' h' ct'. rx_iter (RxMsg 1 (put32 4 1 (fresh_bytes 7 20 (\<lambda>_. 0)))) (replicate 64 9, demo_heap, Some ct) =
       Inr (buf', h', Some ct') \<and>
     mbox_list (mbox_at 1 ct') = [a] \<and> block demo_heap a = None \<and> block h' a \<noteq> None"
proof -
  let ?m = "put32 4 1 (fresh_bytes 7 20 (\<lambda>_. 0))"
  from demo_process obtain ct where ct: "list_ok ct" "mbox_ok (mbox_at 1 ct)"
    "mb_active (mbox_at 1 ct)" "mbox_list (mbox_at 1 ct) = []" by blast
  have u: "unat (unit_of (get32 4 ?m)) = 1" unfolding demo_big_msg(2) by code_simp
  have r: "length (mbox_list (mbox_at 1 ct)) < 1024" using ct(4) by simp
  have l: "length ?m \<le> length (replicate 64 (9 :: u8))" "length ?m < 2 ^ 31" "can_alloc demo_heap (length ?m)"
    unfolding demo_big_msg(3) by (simp_all add: demo_can_alloc)
  from received_message_delivered [OF demo_big_msg(1) l ct(1) u _ ct(2,3) r] show ?thesis
    using ct(4) by (fastforce simp: demo_big_msg(3) itc_const)
qed

lemma whole_size_wraps:
  assumes "2 ^ 32 - 17 \<le> unat sz"
  shows "unat (whole_size sz) = unat sz - (2 ^ 32 - 17)"
proof -
  have lt: "unat sz < 2 ^ 32" using unsigned_less [of sz] by simp
  have "unat (whole_size sz) = (17 + unat sz) mod 2 ^ 32"
    by (simp add: whole_size_def itc_const unat_word_ariths mod_simps)
  also have "\<dots> = (17 + unat sz - 2 ^ 32) mod 2 ^ 32" using assms by (intro le_mod_geq) simp
  also have "\<dots> = 17 + unat sz - 2 ^ 32" using lt by (intro mod_less) simp
  finally show ?thesis using assms by simp
qed

lemma passes_length_check:
  assumes "unat (whole_size sz) \<le> 30" "30 \<le> unat (len :: u64)"
  shows "\<not> len < ucast (whole_size sz)"
  using assms by (simp add: word_less_nat_alt unsigned_ucast_eq take_bit_nat_eq_self)

text \<open>C33: A peer can crash the receiver with the size field: a size within 17 of \<open>2 ^ 32\<close> wraps in the
  length check, which it passes, and the endpoint is then read gigabytes outside the buffer; a
  size below 4 with a matching endpoint byte passes every check and the null result of the
  allocation is dereferenced.\<close>

theorem crafted_size_crashes_receiver:
  assumes "21 \<le> length buf" "length buf < 2 ^ 32 - 1" "30 \<le> unat (l - SIZEOF_LONG)"
    and "heap_wf h"
    and "2 ^ 32 - 17 \<le> unat (get32 (field_off F_size) buf) \<or>
      unat (get32 (field_off F_size) buf) < 4 \<and>
      buf ! (16 + unat (get32 (field_off F_size) buf)) = ITC_ADMIN_MESSAGE_ENDPOINT"
  shows "parseAndForwardMessage ITC_SYSV_MESSAGE_QUEUE_TX_MSGNO buf l (h, st) = Inl WildAccess"
proof -
  let ?sz = "get32 12 buf"
  have lt: "unat ?sz < 2 ^ 32" using unsigned_less [of ?sz] by simp
  from assms(5) show ?thesis
  proof (elim disjE conjE)
    assume big: "2 ^ 32 - 17 \<le> unat (get32 (field_off F_size) buf)"
    then have "unat (whole_size ?sz) \<le> 30" using lt whole_size_wraps [of ?sz] by simp
    then have "\<not> l - SIZEOF_LONG < ucast (whole_size ?sz)" using assms(3) by (rule passes_length_check)
    with big assms(1,2) show ?thesis
      by (simp add: parseAndForwardMessage_def buf32_def buf8_def)
  next
    assume small: "unat (get32 (field_off F_size) buf) < 4"
      and e: "buf ! (16 + unat (get32 (field_off F_size) buf)) = ITC_ADMIN_MESSAGE_ENDPOINT"
    then have "unat (whole_size ?sz) \<le> 30" by (simp add: whole_size_small)
    then have "\<not> l - SIZEOF_LONG < ucast (whole_size ?sz)" using assms(3) by (rule passes_length_check)
    moreover have "allocate no (ucast ?sz) h = Inr (nullptr, h)" for no
      using small by (simp add: allocate_def itc_const word_less_nat_alt unsigned_ucast_eq take_bit_nat_eq_self)
    ultimately show ?thesis
      using small e assms(1,4)
      by (simp add: parseAndForwardMessage_def buf32_def buf8_def Let_def read_field_def heap_wf_def
          no_block)
  qed
qed

theorem crafted_size_crashes_receiver_witness:
  "parseAndForwardMessage 1 (put32 12 0xFFFFFFEF (replicate 64 0)) 64 (demo_heap, None) = Inl WildAccess \<and>
   parseAndForwardMessage 1 (replicate 16 0 @ [0xAA] @ replicate 40 0) 64 (demo_heap, None) = Inl WildAccess"
proof -
  let ?b1 = "put32 12 0xFFFFFFEF (replicate 64 0)" and ?b2 = "replicate 16 0 @ [0xAA] @ replicate 40 0"
  have wf: "heap_wf demo_heap" by (simp add: heap_wf_def demo_heap_def)
  have z: "get32 12 ?b2 = 0" by code_simp
  have "parseAndForwardMessage 1 ?b1 64 (demo_heap, None) = Inl WildAccess"
    using crafted_size_crashes_receiver [of ?b1 64 demo_heap None] wf by (simp add: itc_const)
  moreover have "parseAndForwardMessage 1 ?b2 64 (demo_heap, None) = Inl WildAccess"
    using crafted_size_crashes_receiver [of ?b2 64 demo_heap None] wf z by (simp add: itc_const nth_append)
  ultimately show ?thesis by simp
qed

text \<open>With the initial value of \<open>m_maxMsgSize\<close> the rx thread never reaches its loop: the kernel's
  limit is never asked for, the buffer request is for the greatest \<open>size_t\<close>, and whatever the
  system calls return the thread either gives up before or dies with a failed allocation.\<close>

theorem rx_thread_never_receives:
  assumes "sv_max s = sv_max sysv_new"
  shows "case rx_thread_start E (s, h) of Inl e \<Rightarrow> e = BadAlloc | Inr (entered, _) \<Rightarrow> \<not> entered"
proof -
  have "unat (- 1 :: u64) = 2 ^ 64 - 1" by (simp add: unsigned_minus_1_eq_mask mask_eq_exp_minus_1)
  then have "\<not> can_alloc h (unat (- 1 :: u64))" for h by (auto simp: can_alloc_def simp flip: unat_gt_0)
  moreover have big: "(- 1 :: u64) > 0" by (simp add: word_neq_0_conv [symmetric])
  ultimately have no_buffer: "rx_buffer_setup E (s, h) = Inl BadAlloc" if "sv_max s = - 1" for s h
    using that big by (simp add: rx_buffer_setup_def getMaxMessageSize_def heap_new_def Let_def)
  have max: "sv_max (tick s) = sv_max s" for s by (simp add: tick_def)
  show ?thesis
    using assms
    by (auto simp: rx_thread_start_def Let_def no_buffer max sysv_new_def split: option.split)
qed

theorem rx_thread_never_receives_witness:
  "case rx_thread_start demo_env (demo_sysv, demo_heap) of
     Inl e \<Rightarrow> e = BadAlloc | Inr (entered, _) \<Rightarrow> \<not> entered"
  by (rule rx_thread_never_receives) (simp add: sysv_new_def)

end
