(* ===== verification/Sysv_Tests.thy ===== *)
theory Sysv_Tests
  imports Sysv_Receive
begin

text \<open>
  Tests of \<open>itcTransportSysvMsgQueueTest.cc\<close> as scenarios of \<open>Transport_Sysv\<close> and \<open>Sysv_Receive\<close>: those whose
  calls this revision still makes. A negative result of parsing is false now, an error of \<open>initialise\<close> and
  \<open>send\<close> is a failure, and \<open>release\<close> returns nothing. The others test operations, parameters or calls of the
  platform that are gone (\<open>releaseAllResources\<close>, forced initialisation, sending to a contact).
\<close>

section \<open>Mocks\<close>

text \<open>A mocked call that the test says nothing about returns 0.\<close>

definition mock_sys :: sys_env where
  "mock_sys = \<lparr>env_ftok = (\<lambda>_ _. 0), env_msgget = (\<lambda>_ _ _. 0), env_msgsnd = (\<lambda>_ _. None), env_qnum = (\<lambda>_ _. Some 0),
     env_rmid = (\<lambda>_ _. True), env_ipc_info = (\<lambda>_. Some (0, 0)), env_pthread = (\<lambda>_. 0), env_prctl = (\<lambda>_. True),
     env_getpid = 0, env_create_mailbox = 0\<rparr>"

section \<open>Contacts and sizes\<close>

definition test_mboxId :: u32 where
  "test_mboxId = 0x00100004"

definition test_projectId :: u32 where
  "test_projectId = drop_bit ITC_REGION_ID_SHIFT (test_mboxId AND ITC_MASK_REGION_ID)"

definition mock_ftok :: "i32 \<Rightarrow> sys_env" where
  "mock_ftok key = mock_sys\<lparr>env_ftok := (\<lambda>_ projectId. if projectId = test_projectId then key else 0)\<rparr>"

text \<open>The value expected and the number of calls.\<close>

definition queue_id_test :: "sys_env \<Rightarrow> i32 \<Rightarrow> nat \<Rightarrow> bool" where
  "queue_id_test E expected n \<longleftrightarrow>
     (let (msgQueueId, s) = getMsgQueueId E test_mboxId sysv_new in msgQueueId = expected \<and> sv_now s = n)"

definition getMsgQueueIdTest1 :: bool where
  "getMsgQueueIdTest1 \<longleftrightarrow> queue_id_test (mock_ftok (- 1)) (- 1) 1"

definition getMsgQueueIdTest2 :: bool where
  "getMsgQueueIdTest2 \<longleftrightarrow> queue_id_test
     ((mock_ftok 4)\<lparr>env_msgget := (\<lambda>_ key create. if key = 4 \<and> \<not> create then - 1 else 0)\<rparr>) (- 1) 2"

definition getMsgQueueIdTest3 :: bool where
  "getMsgQueueIdTest3 \<longleftrightarrow> queue_id_test
     ((mock_ftok 4)\<lparr>env_msgget := (\<lambda>_ key create. if key = 4 \<and> \<not> create then 10 else 0)\<rparr>) 10 2"

definition max_size_test :: "u64 \<Rightarrow> (i32 \<times> i32) option \<Rightarrow> u64 \<Rightarrow> nat \<Rightarrow> bool" where
  "max_size_test before info expected n \<longleftrightarrow>
     (let (m, s) = getMaxMessageSize (mock_sys\<lparr>env_ipc_info := (\<lambda>_. info)\<rparr>) (sysv_new\<lparr>sv_max := before\<rparr>)
      in m = expected \<and> sv_now s = n)"

definition getMaxMessageSizeTest1 :: bool where
  "getMaxMessageSizeTest1 \<longleftrightarrow> max_size_test 100 (Some (0, 0)) 100 0"

definition getMaxMessageSizeTest2 :: bool where
  "getMaxMessageSizeTest2 \<longleftrightarrow> max_size_test 0 None 0 1"

definition getMaxMessageSizeTest3 :: bool where
  "getMaxMessageSizeTest3 \<longleftrightarrow> max_size_test 0 (Some (10, 10 + 10)) 10 1"

section \<open>Parsing\<close>

text \<open>The buffer behind the leading \<open>long\<close>; what the test does not write (the flags) is what was in the memory.\<close>

definition test_buffer :: "(nat \<Rightarrow> u8) \<Rightarrow> u8 \<Rightarrow> u8 list" where
  "test_buffer old endpoint =
     (put32 (field_off F_size) 4 (put32 (field_off F_msgno) 0x12345678
       (put32 (field_off F_receiver) 0x00100002 (put32 (field_off F_sender) 0x00100001
         (map old [0..<unat ITC_ADMIN_MESSAGE_MIN_SIZE])))))[unat ITC_ADMIN_MESSAGE_MIN_SIZE - 1 := endpoint]"

definition parse_refuses :: "u64 \<Rightarrow> u8 list \<Rightarrow> u64 \<Rightarrow> heap \<times> mbox_list option \<Rightarrow> bool" where
  "parse_refuses msgno buf len x \<longleftrightarrow>
     (case parseAndForwardMessage msgno buf len x of Inl e \<Rightarrow> False | Inr (ok, x') \<Rightarrow> \<not> ok)"

definition parseAndForwardMessageTest1 :: "(nat \<Rightarrow> u8) \<Rightarrow> heap \<times> mbox_list option \<Rightarrow> bool" where
  "parseAndForwardMessageTest1 old = parse_refuses (ITC_SYSV_MESSAGE_QUEUE_TX_MSGNO + 1)
     (test_buffer old ITC_ADMIN_MESSAGE_ENDPOINT) (SIZEOF_LONG + ucast ITC_ADMIN_MESSAGE_MIN_SIZE)"

definition parseAndForwardMessageTest2 :: "(nat \<Rightarrow> u8) \<Rightarrow> heap \<times> mbox_list option \<Rightarrow> bool" where
  "parseAndForwardMessageTest2 old = parse_refuses ITC_SYSV_MESSAGE_QUEUE_TX_MSGNO
     (test_buffer old ITC_ADMIN_MESSAGE_ENDPOINT) (SIZEOF_LONG + ucast ITC_ADMIN_MESSAGE_MIN_SIZE - 1)"

definition parseAndForwardMessageTest3 :: "(nat \<Rightarrow> u8) \<Rightarrow> heap \<times> mbox_list option \<Rightarrow> bool" where
  "parseAndForwardMessageTest3 old = parse_refuses ITC_SYSV_MESSAGE_QUEUE_TX_MSGNO
     (test_buffer old (ITC_ADMIN_MESSAGE_ENDPOINT - 1)) (SIZEOF_LONG + ucast ITC_ADMIN_MESSAGE_MIN_SIZE)"

section \<open>Start and stop\<close>

definition sysv_initialiseTest1 :: "fs_env \<Rightarrow> fsys \<Rightarrow> bool" where
  "sysv_initialiseTest1 F fs =
     (let (ok, s, fs) = initialise_sysv mock_sys F ITC_MAILBOX_ID_DEFAULT (sysv_new\<lparr>sv_initialised := True\<rparr>, fs)
      in \<not> ok \<and> sv_initialised s)"

definition sysv_releaseTest1 :: bool where
  "sysv_releaseTest1 \<longleftrightarrow> sv_now (release_sysv mock_sys (sysv_new\<lparr>sv_initialised := False\<rparr>)) = 0"

definition sysv_releaseTest2 :: bool where
  "sysv_releaseTest2 \<longleftrightarrow> sv_now (release_sysv mock_sys (sysv_new\<lparr>sv_initialised := True\<rparr>)) = 1"

definition sysv_sendTest1 :: "heap \<Rightarrow> bool" where
  "sysv_sendTest1 h =
     (case sysv_send mock_sys nullptr (sysv_new\<lparr>sv_initialised := False\<rparr>, h) of
        Inl e \<Rightarrow> False | Inr (rc, s, h) \<Rightarrow> rc = ITC_FAILED)"

definition destructRxThreadTest1 :: bool where
  "destructRxThreadTest1 \<longleftrightarrow>
     (let s = destructRxThread (mock_sys\<lparr>env_rmid := (\<lambda>_ _. False)\<rparr>) (sysv_new\<lparr>sv_queue := 1\<rparr>)
      in sv_now s = 1 \<and> \<not> sv_initialised s \<and> sv_terminated s \<and> sv_queue s = - 1)"

section \<open>The receiving thread\<close>

definition rx_test_state :: sysv where
  "rx_test_state = sysv_new\<lparr>sv_region := 0x00100005 AND ITC_MASK_REGION_ID\<rparr>"

text \<open>The calls in sequence: 0 \<open>prctl\<close>, 1 \<open>setspecific\<close>, 2 \<open>ftok\<close>, 3 \<open>msgget\<close>, 4 \<open>msgctl(IPC_STAT)\<close>,
  5 \<open>msgctl(IPC_RMID)\<close>, 6 \<open>msgget\<close>.\<close>

definition rx_test_env :: "i32 \<Rightarrow> i32 \<Rightarrow> sys_env" where
  "rx_test_env setspecific second = mock_sys\<lparr>
     env_create_mailbox := 0x00100005,
     env_pthread := (\<lambda>_. setspecific),
     env_ftok := (\<lambda>_ projectId. if projectId = drop_bit ITC_REGION_ID_SHIFT (sv_region rx_test_state) then 1 else 0),
     env_msgget := (\<lambda>n key create. if key = 1 \<and> create then (if n = 3 then 1 else second) else 0),
     env_qnum := (\<lambda>_ q. if q = 1 then Some 1 else Some 0),
     env_rmid := (\<lambda>_ q. q = 1)\<rparr>"

definition rx_test :: "sys_env \<Rightarrow> rx_event list \<Rightarrow> sysv \<Rightarrow> heap \<times> mbox_list option \<Rightarrow> nat \<Rightarrow> (sysv \<Rightarrow> bool) \<Rightarrow> bool" where
  "rx_test E evs s x n asserts =
     (case sysvMsgQueueRxThread E evs (s, x) of Inl e \<Rightarrow> False | Inr (s', x') \<Rightarrow> sv_now s' = n \<and> asserts s')"

definition sysvMsgQueueRxThreadTest1 :: "heap \<times> mbox_list option \<Rightarrow> bool" where
  "sysvMsgQueueRxThreadTest1 x = rx_test (rx_test_env (- 1) 1) [] rx_test_state x 2 (\<lambda>s. sv_queue s = - 1)"

definition sysvMsgQueueRxThreadTest2 :: "heap \<times> mbox_list option \<Rightarrow> bool" where
  "sysvMsgQueueRxThreadTest2 x = rx_test (rx_test_env 0 (- 1)) [] rx_test_state x 7
     (\<lambda>s. sv_queue s = - 1 \<and> sv_rx s = nullptr)"

text \<open>\<open>msgrcv\<close> fails twice; the second time the mock also sets the flag that ends the loop.\<close>

definition sysvMsgQueueRxThreadTest3 :: "heap \<times> mbox_list option \<Rightarrow> bool" where
  "sysvMsgQueueRxThreadTest3 x = rx_test (rx_test_env 0 1) [RxError, RxRelease] (rx_test_state\<lparr>sv_max := 1000\<rparr>) x 7
     (\<lambda>s. sv_queue s = 1)"

section \<open>The tests hold\<close>

theorem sysv_contact_tests_pass:
  "getMsgQueueIdTest1 \<and> getMsgQueueIdTest2 \<and> getMsgQueueIdTest3 \<and>
   getMaxMessageSizeTest1 \<and> getMaxMessageSizeTest2 \<and> getMaxMessageSizeTest3"
  by (simp add: getMsgQueueIdTest1_def getMsgQueueIdTest2_def getMsgQueueIdTest3_def queue_id_test_def mock_ftok_def
      mock_sys_def getMsgQueueId_def test_projectId_def Let_def sysv_new_def tick_def max_size_test_def
      getMaxMessageSizeTest1_def getMaxMessageSizeTest2_def getMaxMessageSizeTest3_def getMaxMessageSize_def)

lemma test_buffer_fields:
  "length (test_buffer old e) = 21" "get32 12 (test_buffer old e) = 4" "test_buffer old e ! 20 = e"
  "endpoint_off 4 = 20"
  by (simp_all add: test_buffer_def itc_const endpoint_off_small)

theorem sysv_parse_tests_pass:
  "parseAndForwardMessageTest1 old x \<and> parseAndForwardMessageTest2 old x \<and> parseAndForwardMessageTest3 old x"
  by (cases x) (simp add: parseAndForwardMessageTest1_def parseAndForwardMessageTest2_def parseAndForwardMessageTest3_def
      parse_refuses_def parseAndForwardMessage_def buf32_def buf8_def test_buffer_fields itc_const whole_size_def)

theorem sysv_start_tests_pass:
  "sysv_initialiseTest1 F fs \<and> sysv_releaseTest1 \<and> sysv_releaseTest2 \<and> sysv_sendTest1 h \<and> destructRxThreadTest1"
  by (simp add: sysv_initialiseTest1_def sysv_releaseTest1_def sysv_releaseTest2_def sysv_sendTest1_def
      destructRxThreadTest1_def initialise_sysv_def release_sysv_def sysv_send_def destructRxThread_def Let_def
      mock_sys_def sysv_new_def tick_def)

lemmas rx_tests = rx_test_def sysvMsgQueueRxThread_def rx_thread_start_def rx_test_env_def mock_sys_def
  rx_test_state_def sysv_new_def tick_def Let_def

theorem sysv_rx_tests_pass:
  assumes "can_alloc h 1000"
  shows "sysvMsgQueueRxThreadTest1 (h, st) \<and> sysvMsgQueueRxThreadTest2 (h, st) \<and> sysvMsgQueueRxThreadTest3 (h, st)"
proof (intro conjI)
  show "sysvMsgQueueRxThreadTest1 (h, st)" by (simp add: sysvMsgQueueRxThreadTest1_def rx_tests)
  show "sysvMsgQueueRxThreadTest2 (h, st)" by (simp add: sysvMsgQueueRxThreadTest2_def rx_tests)
  show "sysvMsgQueueRxThreadTest3 (h, st)" using assms
    by (simp add: sysvMsgQueueRxThreadTest3_def rx_tests rx_buffer_setup_def getMaxMessageSize_def heap_new_def
        rx_thread_end_def heap_simps)
qed

end
