(* ===== verification/Thread_Pool.thy ===== *)
theory Thread_Pool
  imports Itc_Prelude "HOL-Library.Multiset"
begin

text \<open>
  \<open>itcThreadPool.h\<close>: workers that take tasks from a queue under a mutex and a condition
  variable. Each critical section is one step; a notification is a step of its own after the
  critical section that asks for it. A worker is about to take the lock (\<open>Awake\<close>), asleep on
  the condition variable, running a task, or has returned. Ghost fields record the tasks
  accepted, begun and finished.
\<close>

section \<open>Steps\<close>

datatype 'a worker = Awake | Asleep | Running 'a | Returned

record 'a pool =
  po_tasks :: "'a list"
  po_workers :: "'a worker list"
  po_terminated :: bool
  po_ones :: nat           \<comment> \<open>\<open>notify_one\<close> calls still to come\<close>
  po_alls :: nat           \<comment> \<open>\<open>notify_all\<close> calls still to come\<close>
  gh_accepted :: "'a list"
  gh_begun :: "'a list"
  gh_done :: "'a multiset"

definition pool_new :: "nat \<Rightarrow> 'a pool" where
  "pool_new workerCount = \<lparr>po_tasks = [], po_workers = replicate workerCount Awake,
     po_terminated = False, po_ones = 0, po_alls = 0, gh_accepted = [], gh_begun = [], gh_done = {#}\<rparr>"

text \<open>The critical section of a worker: wait, return, or take the front task.\<close>

fun worker_lock :: "nat \<Rightarrow> 'a pool \<Rightarrow> 'a pool" where
  "worker_lock i s =
     (case po_tasks s of
        [] \<Rightarrow> if po_terminated s then s\<lparr>po_workers := (po_workers s)[i := Returned]\<rparr>
              else s\<lparr>po_workers := (po_workers s)[i := Asleep]\<rparr>
      | task # rest \<Rightarrow> s\<lparr>po_tasks := rest, po_workers := (po_workers s)[i := Running task],
                         gh_begun := gh_begun s @ [task]\<rparr>)"

definition enqueue :: "'a \<Rightarrow> 'a pool \<Rightarrow> bool \<times> 'a pool" where
  "enqueue task s =
     (if po_terminated s then (False, s)
      else (True, s\<lparr>po_tasks := po_tasks s @ [task], po_ones := po_ones s + 1,
                    gh_accepted := gh_accepted s @ [task]\<rparr>))"

definition terminate_pool :: "'a pool \<Rightarrow> 'a pool" where
  "terminate_pool s = s\<lparr>po_terminated := True, po_alls := po_alls s + 1\<rparr>"

inductive pool_step :: "'a pool \<Rightarrow> 'a pool \<Rightarrow> bool" where
  call_enqueue: "enqueue task s = (b, s') \<Longrightarrow> pool_step s s'"
| call_terminate: "pool_step s (terminate_pool s)"
| notify_one: "0 < po_ones s \<Longrightarrow> i < length (po_workers s) \<Longrightarrow> po_workers s ! i = Asleep \<Longrightarrow>
    pool_step s (s\<lparr>po_ones := po_ones s - 1, po_workers := (po_workers s)[i := Awake]\<rparr>)"
| notify_none: "0 < po_ones s \<Longrightarrow> Asleep \<notin> set (po_workers s) \<Longrightarrow>
    pool_step s (s\<lparr>po_ones := po_ones s - 1\<rparr>)"
| notify_all: "0 < po_alls s \<Longrightarrow>
    pool_step s (s\<lparr>po_alls := po_alls s - 1,
      po_workers := map (\<lambda>w. if w = Asleep then Awake else w) (po_workers s)\<rparr>)"
| lock: "i < length (po_workers s) \<Longrightarrow> po_workers s ! i = Awake \<Longrightarrow> pool_step s (worker_lock i s)"
| run: "i < length (po_workers s) \<Longrightarrow> po_workers s ! i = Running task \<Longrightarrow>
    pool_step s (s\<lparr>po_workers := (po_workers s)[i := Awake], gh_done := gh_done s + {#task#}\<rparr>)"
| spurious: "i < length (po_workers s) \<Longrightarrow> po_workers s ! i = Asleep \<Longrightarrow>
    pool_step s (s\<lparr>po_workers := (po_workers s)[i := Awake]\<rparr>)"

inductive pool_reachable :: "nat \<Rightarrow> 'a pool \<Rightarrow> bool" for n where
  start: "pool_reachable n (pool_new n)"
| step: "pool_reachable n s \<Longrightarrow> pool_step s s' \<Longrightarrow> pool_reachable n s'"

section \<open>Invariants\<close>

fun in_hand :: "'a worker \<Rightarrow> 'a multiset" where
  "in_hand (Running task) = {#task#}"
| "in_hand _ = {#}"

definition hands :: "'a worker list \<Rightarrow> 'a multiset" where
  "hands ws = sum_list (map in_hand ws)"

lemma hands_update:
  "i < length ws \<Longrightarrow> hands (ws[i := w]) + in_hand (ws ! i) = hands ws + in_hand w"
  by (induction ws arbitrary: i) (auto simp: hands_def nth_Cons ac_simps split: nat.splits)

lemma hands_none: "(\<And>w. w \<in> set ws \<Longrightarrow> in_hand w = {#}) \<Longrightarrow> hands ws = {#}"
  by (induction ws) (auto simp: hands_def)

lemma hands_map: "hands (map (\<lambda>w. if w = Asleep then Awake else w) ws) = hands ws"
  by (induction ws) (auto simp: hands_def)

definition pool_inv :: "nat \<Rightarrow> 'a pool \<Rightarrow> bool" where
  "pool_inv n s \<longleftrightarrow> length (po_workers s) = n \<and>
     gh_accepted s = gh_begun s @ po_tasks s \<and>
     mset (gh_begun s) = gh_done s + hands (po_workers s) \<and>
     (Returned \<in> set (po_workers s) \<longrightarrow> po_terminated s \<and> po_tasks s = []) \<and>
     (po_terminated s \<and> po_alls s = 0 \<longrightarrow> Asleep \<notin> set (po_workers s)) \<and>
     (po_tasks s \<noteq> [] \<and> po_ones s = 0 \<and> n \<noteq> 0 \<longrightarrow> (\<exists>w \<in> set (po_workers s). w \<noteq> Asleep \<and> w \<noteq> Returned))"

lemma set_update_mem: "i < length ws \<Longrightarrow> w \<in> set (ws[i := w])"
  by (rule set_update_memI)

lemma hands_update_same:
  "i < length ws \<Longrightarrow> in_hand (ws ! i) = {#} \<Longrightarrow> in_hand w = {#} \<Longrightarrow> hands (ws[i := w]) = hands ws"
  using hands_update [of i ws w] by simp

lemma set_update_cases: "v \<in> set (ws[i := w]) \<Longrightarrow> v = w \<or> v \<in> set ws"
  using set_update_subset_insert [of ws i w] by auto

lemma pool_inv_new: "pool_inv n (pool_new n)"
  by (auto simp: pool_inv_def pool_new_def intro: hands_none)

lemma pool_inv_wake:
  assumes "pool_inv n s" "i < n" "w = Awake \<or> (\<exists>t. w = Running t)" "in_hand (po_workers s ! i) = {#}"
    "in_hand w = {#}"
  shows "pool_inv n (s\<lparr>po_ones := k, po_workers := (po_workers s)[i := w]\<rparr>)"
  using assms
  by (auto simp: pool_inv_def hands_update_same dest!: set_update_cases
      intro!: bexI [of _ w] set_update_mem)

lemma pool_inv_lock:
  assumes inv: "pool_inv n s" and i: "i < length (po_workers s)" "po_workers s ! i = Awake"
  shows "pool_inv n (worker_lock i s)"
proof (cases "po_tasks s")
  case Nil
  with inv i show ?thesis
    by (auto simp: pool_inv_def hands_update_same dest!: set_update_cases)
next
  case (Cons task rest)
  have "hands ((po_workers s)[i := Running task]) = hands (po_workers s) + {#task#}"
    using hands_update [OF i(1), of "Running task"] i(2) by simp
  with inv i Cons show ?thesis
    by (auto simp: pool_inv_def dest!: set_update_cases
        intro!: bexI [of _ "Running task"] set_update_mem)
qed

lemma pool_inv_run:
  assumes inv: "pool_inv n s" and i: "i < length (po_workers s)" "po_workers s ! i = Running task"
  shows "pool_inv n (s\<lparr>po_workers := (po_workers s)[i := Awake], gh_done := gh_done s + {#task#}\<rparr>)"
proof -
  have "hands ((po_workers s)[i := Awake]) + {#task#} = hands (po_workers s)"
    using hands_update [OF i(1), of Awake] i(2) by simp
  then have "mset (gh_begun s) = gh_done s + {#task#} + hands ((po_workers s)[i := Awake])"
    using inv by (simp add: pool_inv_def ac_simps flip: \<open>_ = hands (po_workers s)\<close>)
  with inv i show ?thesis
    by (auto simp: pool_inv_def dest!: set_update_cases intro!: bexI [of _ Awake] set_update_mem)
qed

lemma pool_inv_notify_all:
  assumes "pool_inv n s"
  shows "pool_inv n (s\<lparr>po_alls := po_alls s - 1,
      po_workers := map (\<lambda>w. if w = Asleep then Awake else w) (po_workers s)\<rparr>)"
  using assms by (auto simp: pool_inv_def hands_map)

lemma pool_inv_notify_none:
  assumes "pool_inv n s" "Asleep \<notin> set (po_workers s)"
  shows "pool_inv n (s\<lparr>po_ones := k\<rparr>)"
proof -
  have "\<exists>w \<in> set (po_workers s). w \<noteq> Asleep \<and> w \<noteq> Returned" if "po_tasks s \<noteq> []" "n \<noteq> 0"
  proof -
    have "po_workers s \<noteq> []" using assms(1) that(2) by (auto simp: pool_inv_def)
    then have "hd (po_workers s) \<in> set (po_workers s)" by simp
    moreover have "Returned \<notin> set (po_workers s)" using assms(1) that(1) by (auto simp: pool_inv_def)
    ultimately show ?thesis using assms(2) by metis
  qed
  with assms show ?thesis by (auto simp: pool_inv_def)
qed

lemma pool_inv_step:
  assumes "pool_step s s'" "pool_inv n s"
  shows "pool_inv n s'"
  using assms
proof (induction rule: pool_step.cases)
  case (call_enqueue task s b s')
  then show ?case by (auto simp: enqueue_def pool_inv_def split: if_splits)
next
  case (call_terminate s)
  then show ?case by (auto simp: terminate_pool_def pool_inv_def)
next
  case (notify_one s i)
  then show ?case using pool_inv_wake [of n s i Awake] by (simp add: pool_inv_def)
next
  case (spurious i s)
  then show ?case using pool_inv_wake [of n s i Awake "po_ones s"] by (simp add: pool_inv_def)
next
  case (notify_all s)
  then show ?case using pool_inv_notify_all [of n s] by simp
next
  case (run i s task)
  then show ?case using pool_inv_run [of n s i task] by simp
qed (simp_all add: pool_inv_lock pool_inv_notify_none del: worker_lock.simps)

lemma pool_reachable_inv: "pool_reachable n s \<Longrightarrow> pool_inv n s"
  by (induction rule: pool_reachable.induct) (auto intro: pool_inv_new pool_inv_step)

text \<open>C20: Whatever the interleaving of enqueuing, notifications, spurious wake-ups and workers, the
  tasks accepted are begun in the order they were accepted, and every task begun is either
  finished or in the hands of exactly one worker: none is lost or run twice.\<close>

theorem pool_runs_tasks_once:
  assumes "pool_reachable n s"
  shows "gh_accepted s = gh_begun s @ po_tasks s \<and>
    mset (gh_accepted s) = gh_done s + hands (po_workers s) + mset (po_tasks s)"
  using pool_reachable_inv [OF assms] by (simp add: pool_inv_def)

text \<open>C21: No wake-up is lost and termination drains the queue. While tasks are queued and no
  notification is outstanding, some worker of a pool with workers is awake or running; and once
  the pool has been terminated, its workers woken, and none of them can go on, all of them have
  returned and every task ever accepted has been run.\<close>

theorem pool_progress:
  assumes "pool_reachable n s" "n \<noteq> 0"
  shows "(po_tasks s \<noteq> [] \<and> po_ones s = 0 \<longrightarrow>
      (\<exists>w \<in> set (po_workers s). w = Awake \<or> (\<exists>t. w = Running t))) \<and>
    (po_terminated s \<and> po_alls s = 0 \<and> (\<forall>w \<in> set (po_workers s). w \<noteq> Awake \<and> (\<forall>t. w \<noteq> Running t)) \<longrightarrow>
      set (po_workers s) = {Returned} \<and> po_tasks s = [] \<and> gh_done s = mset (gh_accepted s))"
proof -
  note inv = pool_reachable_inv [OF assms(1)]
  have kinds: "w = Awake \<or> w = Asleep \<or> w = Returned \<or> (\<exists>t. w = Running t)" for w :: "'a worker"
    by (cases w) auto
  have awake: "po_tasks s \<noteq> [] \<and> po_ones s = 0 \<longrightarrow>
      (\<exists>w \<in> set (po_workers s). w = Awake \<or> (\<exists>t. w = Running t))"
    using inv assms(2) kinds unfolding pool_inv_def by metis
  have "set (po_workers s) = {Returned} \<and> po_tasks s = [] \<and> gh_done s = mset (gh_accepted s)"
    if "po_terminated s" "po_alls s = 0" "\<forall>w \<in> set (po_workers s). w \<noteq> Awake \<and> (\<forall>t. w \<noteq> Running t)"
  proof -
    have returned: "w = Returned" if w: "w \<in> set (po_workers s)" for w
      using inv that kinds [of w] \<open>po_terminated s\<close> \<open>po_alls s = 0\<close>
        \<open>\<forall>w \<in> set (po_workers s). w \<noteq> Awake \<and> (\<forall>t. w \<noteq> Running t)\<close>
      unfolding pool_inv_def by metis
    have "po_workers s \<noteq> []" using inv assms(2) by (auto simp: pool_inv_def)
    then have "hd (po_workers s) \<in> set (po_workers s)" by simp
    then have "Returned \<in> set (po_workers s)" using returned by metis
    then have "set (po_workers s) = {Returned}" using returned by auto
    moreover have "hands (po_workers s) = {#}" using returned by (intro hands_none) (metis in_hand.simps(4))
    ultimately show ?thesis using inv by (auto simp: pool_inv_def)
  qed
  with awake show ?thesis by blast
qed

definition demo_pool :: "nat pool" where
  "demo_pool = worker_lock 0 (snd (enqueue 7 (pool_new 1)))"

lemma demo_pool_reachable: "pool_reachable 1 demo_pool"
proof -
  have "enqueue 7 (pool_new 1) = (True, snd (enqueue 7 (pool_new 1)))"
    by (simp add: enqueue_def pool_new_def)
  then have "pool_reachable 1 (snd (enqueue 7 (pool_new 1)))"
    by (rule pool_reachable.step [OF pool_reachable.start pool_step.call_enqueue])
  then show ?thesis
    unfolding demo_pool_def
    by (rule pool_reachable.step [OF _ pool_step.lock]) (simp_all add: enqueue_def pool_new_def)
qed

theorem pool_runs_tasks_once_witness:
  "mset (gh_accepted demo_pool) = gh_done demo_pool + hands (po_workers demo_pool) + mset (po_tasks demo_pool)"
  by (rule pool_runs_tasks_once [OF demo_pool_reachable, THEN conjunct2])

theorem pool_progress_witness:
  "set (po_workers (worker_lock 0 (terminate_pool (pool_new 1 :: nat pool)\<lparr>po_alls := 0\<rparr>))) = {Returned}"
proof -
  let ?s1 = "terminate_pool (pool_new 1 :: nat pool)"
  let ?s2 = "?s1\<lparr>po_alls := po_alls ?s1 - 1,
      po_workers := map (\<lambda>w. if w = Asleep then Awake else w) (po_workers ?s1)\<rparr>"
  have "pool_reachable 1 ?s1"
    by (rule pool_reachable.step [OF pool_reachable.start pool_step.call_terminate])
  then have "pool_reachable 1 ?s2"
    by (rule pool_reachable.step [OF _ pool_step.notify_all]) (simp add: terminate_pool_def)
  then have "pool_reachable 1 (worker_lock 0 ?s2)"
    by (rule pool_reachable.step [OF _ pool_step.lock]) (simp_all add: terminate_pool_def pool_new_def)
  from pool_progress [OF this] show ?thesis
    by (simp add: terminate_pool_def pool_new_def)
qed

section \<open>Joining the workers\<close>

text \<open>\<open>join\<close> on each worker thread in turn, once every worker has returned; joining a thread that is
  not joinable throws out of \<open>terminate\<close>.\<close>

fun join_workers :: "bool list \<Rightarrow> bool list res" where
  "join_workers [] = Inr []"
| "join_workers (joinable # rest) =
     (if joinable then and_then (join_workers rest) (\<lambda>js. Inr (False # js)) else Inl BadThread)"

definition pool_terminate :: "bool list \<Rightarrow> bool list res" where
  "pool_terminate workers = join_workers workers"

definition pool_destroy :: "bool list \<Rightarrow> bool list res" where
  "pool_destroy workers = pool_terminate workers"

lemma join_workers_all: "join_workers (replicate n True) = Inr (replicate n False)"
  by (induction n) simp_all

text \<open>A pool with workers that is terminated explicitly cannot be destroyed: the destructor
  terminates it again and joins threads that have been joined, which throws out of the
  destructor.\<close>

lemma terminated_pool_not_destroyable:
  "and_then (pool_terminate (replicate n True)) pool_destroy = (if n = 0 then Inr [] else Inl BadThread)"
  by (cases n) (simp_all add: pool_terminate_def pool_destroy_def join_workers_all)

end
