(* ===== verification/Thread_Futures.thy ===== *)
theory Thread_Futures
  imports Thread_Pool
begin

text \<open>
  The results of the tasks of \<open>itcThreadPool.h\<close>: \<open>enqueue\<close> wraps the function in a
  \<open>packaged_task\<close> and hands out a future, the worker that runs the task stores its result, and
  \<open>get\<close> waits for it. A task is the number of the call of \<open>enqueue\<close>; its function is total (a task
  that throws is not modelled). The last part is \<open>test1\<close> of \<open>itcThreadPoolTest.cc\<close>.
\<close>

section \<open>Tasks with results\<close>

record 'r fpool =
  fp_pool :: "nat pool"
  fp_next :: nat                     \<comment> \<open>calls of \<open>enqueue\<close> so far\<close>
  fp_fun :: "nat \<Rightarrow> 'r option"       \<comment> \<open>the value the wrapped function computes\<close>
  fp_shared :: "nat \<Rightarrow> 'r option"    \<comment> \<open>the shared state of task and future\<close>

definition fpool_new :: "nat \<Rightarrow> 'r fpool" where
  "fpool_new workerCount = \<lparr>fp_pool = pool_new workerCount, fp_next = 0, fp_fun = (\<lambda>_. None), fp_shared = (\<lambda>_. None)\<rparr>"

text \<open>The future of a refused task has no shared state.\<close>

definition fpool_enqueue :: "'r \<Rightarrow> 'r fpool \<Rightarrow> nat option \<times> 'r fpool" where
  "fpool_enqueue f s =
     (let k = fp_next s; (ok, p) = enqueue k (fp_pool s)
      in (if ok then Some k else None,
          s\<lparr>fp_pool := p, fp_next := k + 1, fp_fun := (fp_fun s)(k \<mapsto> f)\<rparr>))"

definition fpool_run :: "nat \<Rightarrow> nat \<Rightarrow> 'r fpool \<Rightarrow> 'r fpool" where
  "fpool_run i k s = s\<lparr>fp_pool := (fp_pool s)\<lparr>po_workers := (po_workers (fp_pool s))[i := Awake],
       gh_done := gh_done (fp_pool s) + {#k#}\<rparr>,
     fp_shared := (fp_shared s)(k := fp_fun s k)\<rparr>"

text \<open>\<open>get\<close> on a future without shared state is undefined.\<close>

definition future_get :: "nat option \<Rightarrow> 'r fpool \<Rightarrow> 'r res" where
  "future_get fut s =
     (case fut of None \<Rightarrow> Inl WildAccess
      | Some k \<Rightarrow> (case fp_shared s k of None \<Rightarrow> Inl Blocked | Some r \<Rightarrow> Inr r))"

inductive fpool_step :: "'r fpool \<Rightarrow> 'r fpool \<Rightarrow> bool" where
  call_enqueue: "fpool_enqueue f s = (fut, s') \<Longrightarrow> fpool_step s s'"
| run: "i < length (po_workers (fp_pool s)) \<Longrightarrow> po_workers (fp_pool s) ! i = Running k \<Longrightarrow>
    fpool_step s (fpool_run i k s)"
| other: "pool_step (fp_pool s) p \<Longrightarrow> gh_accepted p = gh_accepted (fp_pool s) \<Longrightarrow>
    gh_done p = gh_done (fp_pool s) \<Longrightarrow> fpool_step s (s\<lparr>fp_pool := p\<rparr>)"

inductive fpool_reachable :: "nat \<Rightarrow> 'r fpool \<Rightarrow> bool" for n where
  start: "fpool_reachable n (fpool_new n)"
| step: "fpool_reachable n s \<Longrightarrow> fpool_step s s' \<Longrightarrow> fpool_reachable n s'"

section \<open>Futures get the results of their own tasks\<close>

definition fpool_inv :: "nat \<Rightarrow> 'r fpool \<Rightarrow> bool" where
  "fpool_inv n s \<longleftrightarrow> pool_reachable n (fp_pool s) \<and>
     (\<forall>k. fp_fun s k = None \<longleftrightarrow> fp_next s \<le> k) \<and>
     (\<forall>k \<in> set (gh_accepted (fp_pool s)). k < fp_next s) \<and> distinct (gh_accepted (fp_pool s)) \<and>
     (\<forall>k. fp_shared s k = (if k \<in># gh_done (fp_pool s) then fp_fun s k else None))"

lemma fpool_inv_new: "fpool_inv n (fpool_new n)"
  by (simp add: fpool_inv_def fpool_new_def pool_reachable.start) (simp add: pool_new_def)

lemma done_accepted:
  assumes "pool_reachable n p" "k \<in># gh_done p"
  shows "k \<in> set (gh_accepted p)"
proof -
  have "mset (gh_accepted p) = gh_done p + (hands (po_workers p) + mset (po_tasks p))"
    using pool_reachable_inv [OF assms(1)] by (simp add: pool_inv_def ac_simps)
  then show ?thesis using assms(2) by (metis set_mset_mset union_iff)
qed

lemma running_accepted:
  assumes "pool_reachable n p" "i < length (po_workers p)" "po_workers p ! i = Running k"
  shows "k \<in> set (gh_accepted p)"
proof -
  have "hands (po_workers p) = hands ((po_workers p)[i := Awake]) + {#k#}"
    using hands_update [OF assms(2), of Awake] assms(3) by simp
  moreover have "mset (gh_accepted p) = gh_done p + hands (po_workers p) + mset (po_tasks p)"
    using pool_reachable_inv [OF assms(1)] by (simp add: pool_inv_def ac_simps)
  ultimately have "k \<in># mset (gh_accepted p)" by simp
  then show ?thesis by simp
qed

lemma fpool_inv_enqueue:
  assumes "fpool_inv n s" "fpool_enqueue f s = (fut, s')"
  shows "fpool_inv n s'"
proof -
  obtain ok p where e: "enqueue (fp_next s) (fp_pool s) = (ok, p)" by (cases "enqueue (fp_next s) (fp_pool s)")
  then have p: "pool_reachable n p" "gh_done p = gh_done (fp_pool s)"
    "gh_accepted p = gh_accepted (fp_pool s) @ (if ok then [fp_next s] else [])"
    using assms(1) pool_reachable.step [OF _ pool_step.call_enqueue [OF e]]
    by (auto simp: fpool_inv_def enqueue_def split: if_splits)
  have "fp_next s \<notin># gh_done (fp_pool s)"
    using assms(1) done_accepted [of n "fp_pool s"] by (auto simp: fpool_inv_def)
  moreover have "s' = s\<lparr>fp_pool := p, fp_next := fp_next s + 1, fp_fun := (fp_fun s)(fp_next s \<mapsto> f)\<rparr>"
    using assms(2) e by (simp add: fpool_enqueue_def Let_def)
  ultimately show ?thesis using assms(1) p by (auto simp: fpool_inv_def)
qed

lemma fpool_step_inv:
  assumes "fpool_step s s'" "fpool_inv n s"
  shows "fpool_inv n s'"
  using assms(1)
proof (cases rule: fpool_step.cases)
  case (call_enqueue f fut)
  then show ?thesis using fpool_inv_enqueue [OF assms(2)] by simp
next
  case (run i k)
  then show ?thesis
    using assms(2) pool_reachable.step [OF _ pool_step.run [OF run(2,3)], of n]
    by (auto simp: fpool_inv_def fpool_run_def)
next
  case (other p)
  then show ?thesis using assms(2) pool_reachable.step [of n "fp_pool s" p] by (auto simp: fpool_inv_def)
qed

lemma fpool_reachable_inv: "fpool_reachable n s \<Longrightarrow> fpool_inv n s"
  by (induction rule: fpool_reachable.induct) (auto intro: fpool_inv_new fpool_step_inv)

lemma not_done_pending:
  assumes "fpool_inv n s" "k \<in> set (gh_accepted (fp_pool s))" "k \<notin># gh_done (fp_pool s)"
  shows "k \<in># mset (po_tasks (fp_pool s)) + hands (po_workers (fp_pool s))"
proof -
  have "mset (gh_accepted (fp_pool s)) =
      gh_done (fp_pool s) + (mset (po_tasks (fp_pool s)) + hands (po_workers (fp_pool s)))"
    using pool_reachable_inv [of n "fp_pool s"] assms(1) by (simp add: fpool_inv_def pool_inv_def ac_simps)
  then show ?thesis using assms(2,3) by (metis set_mset_mset union_iff)
qed

lemma fpool_fun_stays:
  assumes "fpool_step s s'" "k < fp_next s"
  shows "fp_fun s' k = fp_fun s k \<and> k < fp_next s' \<and>
    (k \<in> set (gh_accepted (fp_pool s)) \<longrightarrow> k \<in> set (gh_accepted (fp_pool s')))"
  using assms
  by (cases rule: fpool_step.cases; auto simp: fpool_enqueue_def fpool_run_def enqueue_def Let_def split: if_splits)

text \<open>A task that \<open>enqueue\<close> accepted, ever after.\<close>

definition accepted_task :: "nat \<Rightarrow> 'r \<Rightarrow> nat \<Rightarrow> 'r fpool \<Rightarrow> bool" where
  "accepted_task n f k s \<longleftrightarrow> fpool_reachable n s \<and> fp_fun s k = Some f \<and> k < fp_next s \<and>
     k \<in> set (gh_accepted (fp_pool s))"

lemma accepted_task_steps:
  assumes "fpool_step\<^sup>*\<^sup>* s s'" "accepted_task n f k s"
  shows "accepted_task n f k s'" "k \<in># gh_done (fp_pool s) \<Longrightarrow> k \<in># gh_done (fp_pool s')"
proof -
  from assms(1) have "accepted_task n f k s' \<and> (k \<in># gh_done (fp_pool s) \<longrightarrow> k \<in># gh_done (fp_pool s'))"
  proof (induction rule: rtranclp_induct)
    case base
    show ?case using assms(2) by simp
  next
    case (step y z)
    have "k \<in># gh_done (fp_pool y) \<Longrightarrow> k \<in># gh_done (fp_pool z)"
      using step.hyps(2)
      by (cases rule: fpool_step.cases) (auto simp: fpool_enqueue_def fpool_run_def enqueue_def Let_def split: if_splits)
    with step show ?case
      using fpool_fun_stays [OF step.hyps(2), of k] by (auto simp: accepted_task_def intro: fpool_reachable.step)
  qed
  then show "accepted_task n f k s'" "k \<in># gh_done (fp_pool s) \<Longrightarrow> k \<in># gh_done (fp_pool s')" by auto
qed

lemma accepted_task_get:
  assumes "accepted_task n f k s"
  shows "future_get (Some k) s = (if k \<in># gh_done (fp_pool s) then Inr f else Inl Blocked)"
    "k \<notin># gh_done (fp_pool s) \<Longrightarrow> k \<in># mset (po_tasks (fp_pool s)) + hands (po_workers (fp_pool s))"
proof -
  have inv: "fpool_inv n s" using assms fpool_reachable_inv by (auto simp: accepted_task_def)
  then show "future_get (Some k) s = (if k \<in># gh_done (fp_pool s) then Inr f else Inl Blocked)"
    using assms by (simp add: future_get_def fpool_inv_def accepted_task_def)
  show "k \<notin># gh_done (fp_pool s) \<Longrightarrow> k \<in># mset (po_tasks (fp_pool s)) + hands (po_workers (fp_pool s))"
    using not_done_pending [OF inv] assms by (simp add: accepted_task_def)
qed

text \<open>C22: The future that enqueue returns delivers the result of its own task, and is not waited for
  in vain. If the pool has been terminated the task is refused, nothing changes in the pool and
  the future is without shared state, so that get on it is undefined behaviour at any time.
  Otherwise, whatever happens next (other tasks, other calls, termination), get on the returned
  future gives the value of the function that was enqueued, or waits; if it waits, the task is
  still queued or in the hands of a worker; and a result, once there, stays.\<close>

theorem futures_deliver:
  assumes "fpool_reachable n s0" "fpool_enqueue f s0 = (fut, s1)" "fpool_step\<^sup>*\<^sup>* s1 s"
  shows "if po_terminated (fp_pool s0)
    then fp_pool s1 = fp_pool s0 \<and> future_get fut s = Inl WildAccess
    else future_get fut s \<in> {Inr f, Inl Blocked} \<and>
      (\<exists>k. fut = Some k \<and> (future_get fut s = Inl Blocked \<longrightarrow>
         k \<in># mset (po_tasks (fp_pool s)) + hands (po_workers (fp_pool s)))) \<and>
      (\<forall>s' r. fpool_step\<^sup>*\<^sup>* s s' \<and> future_get fut s = Inr r \<longrightarrow> future_get fut s' = Inr r)"
proof (cases "po_terminated (fp_pool s0)")
  case True
  with assms(2) show ?thesis by (auto simp: fpool_enqueue_def enqueue_def Let_def future_get_def)
next
  case False
  let ?k = "fp_next s0"
  have "fpool_reachable n s1" by (rule fpool_reachable.step [OF assms(1) fpool_step.call_enqueue [OF assms(2)]])
  moreover have e: "fut = Some ?k" "fp_fun s1 ?k = Some f" "fp_next s1 = Suc ?k"
    "gh_accepted (fp_pool s1) = gh_accepted (fp_pool s0) @ [?k]"
    using False assms(2) by (auto simp: fpool_enqueue_def enqueue_def Let_def)
  ultimately have k: "fut = Some ?k" "accepted_task n f ?k s1" by (simp_all add: accepted_task_def)
  have now: "accepted_task n f ?k s" using accepted_task_steps(1) [OF assms(3) k(2)] .
  have "future_get fut s' = Inr r" if "fpool_step\<^sup>*\<^sup>* s s'" "future_get fut s = Inr r" for s' r
    using accepted_task_steps [OF that(1) now] accepted_task_get(1) [OF now] that(2) k(1)
      accepted_task_get(1) [of n f ?k s'] by (simp split: if_splits)
  then show ?thesis using False k(1) accepted_task_get [OF now] by simp
qed

section \<open>The test of the pool\<close>

text \<open>\<open>test1\<close>: ten tasks, the i-th of which returns i * i, on five workers.\<close>

definition enqueue_squares :: "nat list \<Rightarrow> int fpool \<Rightarrow> int fpool" where
  "enqueue_squares is s = fold (\<lambda>i s. snd (fpool_enqueue (int i * int i) s)) is s"

definition pool_test1 :: "int fpool" where
  "pool_test1 = enqueue_squares [0..<10] (fpool_new 5)"

lemma enqueue_squares_reachable: "fpool_reachable n s \<Longrightarrow> fpool_reachable n (enqueue_squares is s)"
proof (induction "is" arbitrary: s)
  case (Cons i "is")
  have "fpool_step s (snd (fpool_enqueue (int i * int i) s))"
    by (rule fpool_step.call_enqueue) (rule prod.collapse [symmetric])
  with Cons show ?case by (simp add: enqueue_squares_def fpool_reachable.step)
qed (simp add: enqueue_squares_def)

lemma enqueue_squares_run:
  assumes "\<not> po_terminated (fp_pool s)" "fp_next s \<le> m"
  shows "let s' = enqueue_squares [fp_next s..<m] s in
    fp_fun s' = (\<lambda>k. if fp_next s \<le> k \<and> k < m then Some (int k * int k) else fp_fun s k) \<and>
    gh_accepted (fp_pool s') = gh_accepted (fp_pool s) @ [fp_next s..<m] \<and>
    \<not> po_terminated (fp_pool s') \<and> fp_next s' = m"
  using assms(2)
proof (induction m rule: dec_induct)
  case base
  show ?case by (auto simp: enqueue_squares_def assms(1) fun_eq_iff)
next
  case (step m)
  then show ?case by (auto simp: Let_def enqueue_squares_def fpool_enqueue_def enqueue_def fun_eq_iff less_Suc_eq)
qed

text \<open>The test of the thread pool passes: after the ten tasks are enqueued, whatever happens next
  (other threads may enqueue more, the pool may be terminated), the i-th future returns i * i
  whenever it returns, and it waits only while its task is queued or with a worker.\<close>

theorem pool_test1_passes:
  assumes "fpool_step\<^sup>*\<^sup>* pool_test1 s" "i < 10"
  shows "future_get (Some i) s \<in> {Inr (int i * int i), Inl Blocked} \<and>
    (future_get (Some i) s = Inl Blocked \<longrightarrow> i \<in># mset (po_tasks (fp_pool s)) + hands (po_workers (fp_pool s)))"
proof -
  have new: "\<not> po_terminated (fp_pool (fpool_new 5 :: int fpool))" "fp_next (fpool_new 5 :: int fpool) = 0"
    "gh_accepted (fp_pool (fpool_new 5 :: int fpool)) = []"
    by (simp_all add: fpool_new_def pool_new_def)
  have "accepted_task 5 (int i * int i) i pool_test1"
    using enqueue_squares_run [of "fpool_new 5" 10] new assms(2) enqueue_squares_reachable [OF fpool_reachable.start]
    by (simp add: pool_test1_def Let_def accepted_task_def)
  from accepted_task_get [OF accepted_task_steps(1) [OF assms(1) this]] show ?thesis by simp
qed

theorem pool_test1_passes_witness: "future_get (Some 7) pool_test1 \<in> {Inr 49, Inl Blocked}"
  using pool_test1_passes [of pool_test1 7] by simp

theorem futures_deliver_witness:
  "\<exists>k s1. fpool_enqueue (49 :: int) (fpool_new 1) = (Some k, s1) \<and> k = 0 \<and>
     future_get (Some k) (fpool_run 0 0 (s1\<lparr>fp_pool := worker_lock 0 (fp_pool s1)\<rparr>)) = Inr 49"
proof -
  obtain fut s1 where e: "fpool_enqueue (49 :: int) (fpool_new 1) = (fut, s1)" by fastforce
  let ?s2 = "s1\<lparr>fp_pool := worker_lock 0 (fp_pool s1)\<rparr>" and ?s3 = "fpool_run 0 0 (s1\<lparr>fp_pool := worker_lock 0 (fp_pool s1)\<rparr>)"
  have s1: "po_workers (fp_pool s1) = [Awake]" "po_tasks (fp_pool s1) = [0]" "fp_fun s1 0 = Some 49"
    "po_terminated (fp_pool (fpool_new 1 :: int fpool)) = False"
    using e by (auto simp: fpool_enqueue_def enqueue_def fpool_new_def pool_new_def)
  have "fpool_step s1 ?s2" using s1 by (intro fpool_step.other pool_step.lock) simp_all
  moreover have "fpool_step ?s2 ?s3" using s1 by (intro fpool_step.run) simp_all
  ultimately have "fpool_step\<^sup>*\<^sup>* s1 ?s3" by (simp add: converse_rtranclp_into_rtranclp)
  from futures_deliver [OF fpool_reachable.start e this] s1(4) obtain k where
    k: "fut = Some k" "future_get (Some k) ?s3 \<in> {Inr 49, Inl Blocked}" by auto
  moreover have "k = 0" using e k(1) by (auto simp: fpool_enqueue_def enqueue_def fpool_new_def pool_new_def)
  moreover have "future_get (Some 0) ?s3 = Inr 49" using s1(3) by (simp add: future_get_def fpool_run_def)
  ultimately show ?thesis using e by blast
qed

end
