(* ===== verification/Sync_Object.thy ===== *)
theory Sync_Object
  imports Itc_Prelude
begin

text \<open>
  \<open>itcSyncObject\<close> and \<open>itcMutex.cc\<close>: the arithmetic on time stamps (64-bit seconds and
  nanoseconds) and the acquisition and release of the pthread and eventfd resources of a
  synchronisation object. The results of the system calls are the environment.
\<close>

section \<open>Time stamps\<close>

type_synonym i64 = "64 word"   \<comment> \<open>read with \<open>sint\<close>\<close>

record timespec =
  tv_sec :: i64
  tv_nsec :: i64

definition calculateExpiredDate :: "timespec \<Rightarrow> u32 \<Rightarrow> timespec" where
  "calculateExpiredDate now relativeTimeout =
     (let sec = tv_sec now + ucast (relativeTimeout div 1000);
          nsec = tv_nsec now + ucast ((relativeTimeout mod 1000) * 1000000)
      in if sint nsec \<ge> 1000000000 then \<lparr>tv_sec = sec + 1, tv_nsec = nsec - 1000000000\<rparr>
         else \<lparr>tv_sec = sec, tv_nsec = nsec\<rparr>)"

definition getTimeDiffInNanoSec :: "timespec \<Rightarrow> timespec \<Rightarrow> u64" where
  "getTimeDiffInNanoSec t_start t_end =
     (if sint (tv_nsec t_end) < sint (tv_nsec t_start)
      then (tv_sec t_end - tv_sec t_start) * 1000000000 - (tv_nsec t_start - tv_nsec t_end)
      else (tv_sec t_end - tv_sec t_start) * 1000000000 + (tv_nsec t_end - tv_nsec t_start))"

definition time_ok :: "timespec \<Rightarrow> bool" where
  "time_ok t \<longleftrightarrow> unat (tv_sec t) < 2 ^ 33 \<and> unat (tv_nsec t) < 1000000000"

definition nanoseconds :: "timespec \<Rightarrow> nat" where
  "nanoseconds t = unat (tv_sec t) * 1000000000 + unat (tv_nsec t)"

lemma relative_parts:
  fixes rel :: u32
  shows "unat (ucast (rel div 1000) :: u64) = unat rel div 1000"
    "unat (ucast ((rel mod 1000) * 1000000) :: u64) = (unat rel mod 1000) * 1000000"
proof -
  have widen: "unat (ucast w :: u64) = unat w" for w :: u32
  proof -
    have "unat w < 2 ^ 32" using unsigned_less [of w] by simp
    then show ?thesis by (simp add: unsigned_ucast_eq take_bit_nat_eq_self)
  qed
  have "unat (rel mod 1000) = unat rel mod 1000" by (simp add: unat_mod)
  moreover have "unat rel mod 1000 \<le> 999" using mod_less_divisor [of 1000 "unat rel"] by linarith
  ultimately have "unat (rel mod 1000) * 1000000 < 2 ^ 32" by simp
  then have "unat ((rel mod 1000) * 1000000) = unat (rel mod 1000) * 1000000"
    by (simp add: unat_word_ariths)
  then show "unat (ucast ((rel mod 1000) * 1000000) :: u64) = (unat rel mod 1000) * 1000000"
    by (simp add: widen unat_mod)
  show "unat (ucast (rel div 1000) :: u64) = unat rel div 1000" by (simp add: widen unat_div)
qed

lemma expired_parts:
  assumes "time_ok now"
  shows "nanoseconds (calculateExpiredDate now rel) = nanoseconds now + unat rel * 1000000"
    "unat (tv_nsec (calculateExpiredDate now rel)) < 1000000000"
    "unat (tv_sec (calculateExpiredDate now rel)) < 2 ^ 34"
proof -
  let ?s = "unat (tv_sec now)" and ?n = "unat (tv_nsec now)"
  let ?ds = "unat rel div 1000" and ?dn = "(unat rel mod 1000) * 1000000"
  have rel: "unat rel = 1000 * ?ds + unat rel mod 1000" "unat rel mod 1000 < 1000" by simp_all
  have "unat rel < 2 ^ 32" using unsigned_less [of rel] by simp
  then have ds: "?ds < 2 ^ 32" by (rule order_le_less_trans [OF div_le_dividend])
  have now: "?s < 2 ^ 33" "?n < 1000000000" using assms by (simp_all add: time_ok_def)
  have dn: "?dn < 1000000000" using rel(2) by simp
  have sec: "unat (tv_sec now + ucast (rel div 1000)) = ?s + ?ds"
    using now ds by (simp add: unat_word_ariths relative_parts)
  have nsec: "unat (tv_nsec now + ucast ((rel mod 1000) * 1000000)) = ?n + ?dn" (is "unat ?w = _")
    using now dn by (simp add: unat_word_ariths relative_parts)
  have sint: "sint ?w = int (?n + ?dn)"
    using nsec now dn by (subst sint_u64_small) simp_all
  have ns: "?s * 1000000000 + ?n + unat rel * 1000000 = (?s + ?ds) * 1000000000 + (?n + ?dn)"
  proof -
    have split: "(1000 * d + m) * 1000000 = d * 1000000000 + m * 1000000" for d m :: nat by simp
    have "r * 1000000 = (r div 1000) * 1000000000 + (r mod 1000) * 1000000" for r :: nat
      using split [of "r div 1000" "r mod 1000"] by (simp only: mult_div_mod_eq)
    from this [of "unat rel"] show ?thesis by (simp only: add_mult_distrib ac_simps)
  qed
  have *: "nanoseconds (calculateExpiredDate now rel) = (?s + ?ds) * 1000000000 + (?n + ?dn) \<and>
      unat (tv_nsec (calculateExpiredDate now rel)) < 1000000000 \<and>
      unat (tv_sec (calculateExpiredDate now rel)) < 2 ^ 34"
  proof (cases "1000000000 \<le> ?n + ?dn")
    case True
    then have "unat (?w - 1000000000) = ?n + ?dn - 1000000000"
      using nsec by (simp add: unat_sub word_le_nat_alt)
    moreover have "unat (tv_sec now + ucast (rel div 1000) + 1) = ?s + ?ds + 1"
      using sec now ds by (subst unat_word_ariths) simp
    moreover have "sint ?w \<ge> 1000000000" using True unfolding sint by linarith
    ultimately show ?thesis using True now dn ds
      by (simp add: calculateExpiredDate_def Let_def nanoseconds_def algebra_simps)
  next
    case False
    then have "\<not> sint ?w \<ge> 1000000000" unfolding sint by linarith
    then show ?thesis using False sec nsec now ds
      by (simp add: calculateExpiredDate_def Let_def nanoseconds_def)
  qed
  then show "nanoseconds (calculateExpiredDate now rel) = nanoseconds now + unat rel * 1000000"
    using ns unfolding nanoseconds_def [of now] by presburger
  show "unat (tv_nsec (calculateExpiredDate now rel)) < 1000000000"
    "unat (tv_sec (calculateExpiredDate now rel)) < 2 ^ 34" using * by simp_all
qed

lemma time_diff_exact:
  assumes "unat (tv_nsec a) < 1000000000" "unat (tv_nsec b) < 1000000000"
    and "unat (tv_sec b) < 2 ^ 34" "nanoseconds a \<le> nanoseconds b"
  shows "unat (getTimeDiffInNanoSec a b) = nanoseconds b - nanoseconds a"
proof -
  have le: "unat (tv_sec a) \<le> unat (tv_sec b)" using assms by (simp add: nanoseconds_def)
  have bound: "nanoseconds b < 2 ^ 64" using assms(2,3) by (simp add: nanoseconds_def)
  have w: "of_nat (unat x) = x" for x :: u64 by simp
  have "getTimeDiffInNanoSec a b = (tv_sec b - tv_sec a) * 1000000000 + (tv_nsec b - tv_nsec a)"
    by (simp add: getTimeDiffInNanoSec_def)
  also have "\<dots> = of_nat (nanoseconds b) - of_nat (nanoseconds a)"
    by (simp add: nanoseconds_def algebra_simps)
  also have "\<dots> = of_nat (nanoseconds b - nanoseconds a)" using assms(4) by (simp add: of_nat_diff)
  finally show ?thesis using bound by (simp add: unat_of_nat_less)
qed

text \<open>C30: The expiry date of a timeout is exact and normalised: for a clock reading before the year
  2242 and any timeout in milliseconds the nanosecond part stays below one second, and the
  difference the mutex tracing computes between the reading and the expiry date is exactly the
  timeout, in nanoseconds.\<close>

theorem expired_date_exact:
  assumes "time_ok now"
  shows "unat (tv_nsec (calculateExpiredDate now rel)) < 1000000000 \<and>
    unat (getTimeDiffInNanoSec now (calculateExpiredDate now rel)) = unat rel * 1000000"
  using expired_parts [OF assms, of rel] time_diff_exact [of now "calculateExpiredDate now rel"] assms
  by (simp add: time_ok_def)

theorem expired_date_exact_witness:
  "unat (getTimeDiffInNanoSec \<lparr>tv_sec = 5, tv_nsec = 950000000\<rparr>
     (calculateExpiredDate \<lparr>tv_sec = 5, tv_nsec = 950000000\<rparr> 100)) = 100000000"
  using expired_date_exact [of "\<lparr>tv_sec = 5, tv_nsec = 950000000\<rparr>" 100] by (simp add: time_ok_def)

section \<open>Resources of a synchronisation object\<close>

datatype sync_res = CondAttr | MutexAttr | Cond | Mutex | EventFd

text \<open>Results of the system calls; \<open>oe_counter\<close> is what the setup function leaves in \<open>fdEventCounter\<close>.\<close>

record sync_env =
  oe_wrapper :: bool
  oe_condattr_init :: i32
  oe_mutexattr_init :: i32
  oe_setup :: i32
  oe_counter :: u32
  oe_cond_init :: i32
  oe_mutex_init :: i32
  oe_eventfd :: i32
  oe_write :: i32
  oe_destroy :: "sync_res \<Rightarrow> i32"

record sync_object =
  so_live :: "sync_res list"     \<comment> \<open>acquired and not released\<close>
  so_fd :: i32
  so_counter :: u32
  so_timeout :: u32              \<comment> \<open>\<open>relativeTimeout\<close>\<close>
  so_initialised :: bool

definition gain :: "sync_res \<Rightarrow> sync_object \<Rightarrow> sync_object" where
  "gain r s = s\<lparr>so_live := so_live s @ [r]\<rparr>"

definition sync_init :: "sync_env \<Rightarrow> sync_object \<Rightarrow> sync_object" where
  "sync_init E s =
     (if \<not> oe_wrapper E then s
      else if oe_condattr_init E \<noteq> 0 then s
      else let s = gain CondAttr s
      in if oe_mutexattr_init E \<noteq> 0 then s
      else let s = gain MutexAttr s
      in if oe_setup E \<noteq> 0 then s
      else let s = s\<lparr>so_counter := oe_counter E\<rparr>
      in if oe_cond_init E \<noteq> 0 then s
      else let s = gain Cond s
      in if oe_mutex_init E \<noteq> 0 then s
      else let s = (gain Mutex s)\<lparr>so_fd := oe_eventfd E\<rparr>
      in if so_fd s = - 1 then s
      else let s = gain EventFd s
      in if so_counter s \<noteq> 0 \<and> sint (oe_write E) < 0 then s
      else s\<lparr>so_initialised := True\<rparr>)"

definition sync_new :: "sync_env \<Rightarrow> sync_object" where
  "sync_new E = sync_init E \<lparr>so_live = [], so_fd = - 1, so_counter = 0, so_timeout = 0, so_initialised = False\<rparr>"

definition setTimeout :: "u32 \<Rightarrow> sync_object \<Rightarrow> sync_object" where
  "setTimeout iTimeout s = s\<lparr>so_timeout := iTimeout\<rparr>"

definition lose :: "sync_env \<Rightarrow> sync_res \<Rightarrow> sync_object \<Rightarrow> sync_object" where
  "lose E r s = (if oe_destroy E r = 0 then s\<lparr>so_live := removeAll r (so_live s)\<rparr> else s)"

definition sync_reset :: "sync_env \<Rightarrow> sync_object \<Rightarrow> sync_object" where
  "sync_reset E s =
     (if \<not> so_initialised s then s
      else if \<not> oe_wrapper E then s
      else let s = lose E Mutex (lose E Cond (lose E MutexAttr (lose E CondAttr s)));
               s = (if so_fd s \<noteq> - 1 then (lose E EventFd s)\<lparr>so_fd := - 1\<rparr> else s)
           in s\<lparr>so_initialised := False\<rparr>)"

lemmas sync_simps = sync_init_def sync_new_def sync_reset_def gain_def lose_def Let_def

text \<open>When the destroy calls succeed, destroying a synchronisation object releases everything its
  construction acquired if the construction succeeded, and nothing at all if it failed on the
  way, however much had been acquired by then; up to five resources then stay behind.\<close>

lemma sync_object_release:
  assumes "\<forall>r. oe_destroy E r = 0"
  shows "so_live (sync_reset E (sync_new E)) =
    (if so_initialised (sync_new E) then [] else so_live (sync_new E)) \<and>
    \<not> so_initialised (sync_reset E (sync_new E)) \<and>
    (so_initialised (sync_new E) \<longrightarrow>
       so_live (sync_new E) = [CondAttr, MutexAttr, Cond, Mutex, EventFd] \<and>
       so_fd (sync_reset E (sync_new E)) = - 1)"
  using assms by (simp add: sync_simps)

definition no_fd_env :: sync_env where
  "no_fd_env = \<lparr>oe_wrapper = True, oe_condattr_init = 0, oe_mutexattr_init = 0, oe_setup = 0,
     oe_counter = 0, oe_cond_init = 0, oe_mutex_init = 0, oe_eventfd = - 1, oe_write = 0,
     oe_destroy = (\<lambda>_. 0)\<rparr>"

lemma sync_object_release_witness:
  "so_live (sync_reset no_fd_env (sync_new no_fd_env)) = [CondAttr, MutexAttr, Cond, Mutex]"
  using sync_object_release [of no_fd_env] by (simp add: no_fd_env_def sync_simps)

end
