(* ===== verification/Thread_Manager.thy ===== *)
theory Thread_Manager
  imports Sync_Object
begin

text \<open>
  \<open>itcThreadManager\<close>: the list of threads, their start and termination, and the mutexes that
  are held meanwhile. Locking a mutex that is already held waits for ever. The results of the
  pthread calls are the environment, indexed by the number of the call; which kernel threads
  exist (started, not joined) is part of the state, because cancelling or joining one that
  does not exist is undefined.
\<close>

section \<open>State\<close>

datatype tm_code = TM_UNDEFINED | TM_OK | TM_SYSCALL_ERROR | TM_INVALID_ARGUMENTS | TM_INITIALISATION_TIMEOUT

record task =
  taskFunc :: ptr
  taskArgs :: ptr

record thread =
  th_tid :: u64
  th_task :: task
  th_sync :: "nat option"     \<comment> \<open>the synchronisation object, \<open>None\<close> when it has expired\<close>
  th_running :: bool
  th_highest :: bool

record tm_env =
  te_call :: "nat \<Rightarrow> i32"
  te_tid :: "nat \<Rightarrow> u64"
  te_prio_max :: "i32 \<Rightarrow> i32"
  te_prio_min :: "i32 \<Rightarrow> i32"

record manager =
  tm_threads :: "thread list"
  tm_capacity :: nat          \<comment> \<open>of the vector \<open>m_threadList\<close>\<close>
  tm_policy :: i32
  tm_limit :: i32             \<comment> \<open>\<open>m_selfLimitPrio\<close>\<close>
  tm_prio :: i32
  tm_locked :: bool           \<comment> \<open>\<open>m_threadListMutex\<close>\<close>
  tm_sync_held :: "nat list"  \<comment> \<open>objects whose mutex is held\<close>
  tm_now :: nat
  tm_live :: "u64 list"       \<comment> \<open>kernel threads\<close>
  tm_started :: "(task \<times> i32 \<times> i32) list"

definition SCHED_OTHER :: i32 where
  "SCHED_OTHER = 0"

definition thread_new :: "task \<Rightarrow> nat \<Rightarrow> bool \<Rightarrow> thread" where
  "thread_new t so highest =
     \<lparr>th_tid = 0, th_task = t, th_sync = Some so, th_running = False, th_highest = highest\<rparr>"

definition manager_new :: manager where
  "manager_new = \<lparr>tm_threads = [], tm_capacity = 8, tm_policy = SCHED_OTHER, tm_limit = 0, tm_prio = 0,
     tm_locked = False, tm_sync_held = [], tm_now = 0, tm_live = [], tm_started = []\<rparr>"

definition sys :: "tm_env \<Rightarrow> manager \<Rightarrow> i32 \<times> manager" where
  "sys E s = (te_call E (tm_now s), s\<lparr>tm_now := tm_now s + 1\<rparr>)"

section \<open>Attributes and the list\<close>

definition checkSchedulingParams :: "tm_env \<Rightarrow> i32 \<Rightarrow> i32 \<Rightarrow> i32 \<Rightarrow> tm_code" where
  "checkSchedulingParams E policy selfLimitPrio priority =
     (let maxPrio = te_prio_max E policy; minPrio = te_prio_min E policy
      in if sint priority < sint minPrio \<or> sint priority > sint maxPrio \<or>
            sint selfLimitPrio < sint minPrio \<or> sint selfLimitPrio > sint maxPrio
         then TM_INVALID_ARGUMENTS else TM_OK)"

definition setThreadAttributes :: "tm_env \<Rightarrow> i32 \<Rightarrow> i32 \<Rightarrow> i32 \<Rightarrow> manager \<Rightarrow> tm_code \<times> manager" where
  "setThreadAttributes E policy selfLimitPrio priority s =
     (if policy = SCHED_OTHER
      then (TM_OK, s\<lparr>tm_policy := SCHED_OTHER, tm_limit := te_prio_max E SCHED_OTHER,
                     tm_prio := te_prio_min E SCHED_OTHER\<rparr>)
      else let rc = checkSchedulingParams E policy selfLimitPrio priority
           in if rc \<noteq> TM_OK then (rc, s)
              else (TM_OK, s\<lparr>tm_policy := policy, tm_limit := selfLimitPrio,
                     tm_prio := (if sint priority > sint selfLimitPrio then selfLimitPrio else priority)\<rparr>))"

definition with_list :: "(manager \<Rightarrow> ('a \<times> manager) res) \<Rightarrow> manager \<Rightarrow> ('a \<times> manager) res" where
  "with_list f s =
     (if tm_locked s then Inl Blocked
      else and_then (f (s\<lparr>tm_locked := True\<rparr>)) (\<lambda>(x, s). Inr (x, s\<lparr>tm_locked := False\<rparr>)))"

section \<open>Threads that are moved\<close>

text \<open>\<open>pthread_cancel\<close> and \<open>pthread_join\<close>: undefined for a thread that does not exist.\<close>

definition pthread_cancel :: "tm_env \<Rightarrow> u64 \<Rightarrow> manager \<Rightarrow> (i32 \<times> manager) res" where
  "pthread_cancel E tid s = (if tid \<in> set (tm_live s) then Inr (sys E s) else Inl BadThread)"

definition pthread_join :: "tm_env \<Rightarrow> u64 \<Rightarrow> manager \<Rightarrow> (i32 \<times> manager) res" where
  "pthread_join E tid s =
     (if tid \<in> set (tm_live s)
      then let (ret, s) = sys E s
           in Inr (ret, if ret = 0 then s\<lparr>tm_live := removeAll tid (tm_live s)\<rparr> else s)
      else Inl BadThread)"

text \<open>\<open>Thread::reset\<close>, which the destructor of every list element runs; results are ignored.\<close>

definition thread_reset :: "tm_env \<Rightarrow> thread \<Rightarrow> manager \<Rightarrow> (thread \<times> manager) res" where
  "thread_reset E thr s =
     and_then (if th_tid thr \<noteq> 0
               then and_then (pthread_cancel E (th_tid thr) s) (\<lambda>(_, s).
                    and_then (pthread_join E (th_tid thr) s) (\<lambda>(_, s). Inr s))
               else Inr s) (\<lambda>s.
       Inr (thr\<lparr>th_task := \<lparr>taskFunc = nullptr, taskArgs = nullptr\<rparr>, th_running := False,
                th_highest := False, th_sync := None\<rparr>, s))"

text \<open>The move constructor: the new thread gets the fields, the old one is reset, which cancels and joins
  its kernel thread but leaves its id.\<close>

definition thread_move :: "tm_env \<Rightarrow> thread \<Rightarrow> manager \<Rightarrow> ((thread \<times> thread) \<times> manager) res" where
  "thread_move E thr s = and_then (thread_reset E thr s) (\<lambda>(other, s). Inr ((thr, other), s))"

text \<open>A vector that is full doubles its capacity; each element is moved to the new store and the old one destroyed.\<close>

fun relocate :: "tm_env \<Rightarrow> thread list \<Rightarrow> manager \<Rightarrow> (thread list \<times> manager) res" where
  "relocate E [] s = Inr ([], s)"
| "relocate E (thr # thrs) s =
     and_then (thread_move E thr s) (\<lambda>((moved, other), s).
     and_then (thread_reset E other s) (\<lambda>(_, s).
     and_then (relocate E thrs s) (\<lambda>(ts, s). Inr (moved # ts, s))))"

definition addThread :: "tm_env \<Rightarrow> task \<Rightarrow> nat \<Rightarrow> bool \<Rightarrow> manager \<Rightarrow> (tm_code \<times> manager) res" where
  "addThread E t so highest =
     with_list (\<lambda>s.
       if length (tm_threads s) < tm_capacity s
       then Inr (TM_OK, s\<lparr>tm_threads := tm_threads s @ [thread_new t so highest]\<rparr>)
       else and_then (relocate E (tm_threads s) s) (\<lambda>(ts, s).
              Inr (TM_OK, s\<lparr>tm_threads := ts @ [thread_new t so highest], tm_capacity := 2 * tm_capacity s\<rparr>)))"

section \<open>Starting\<close>

text \<open>Five pthread calls; each failure returns at once. The last creates the kernel thread.\<close>

definition configureAndStartThread ::
    "tm_env \<Rightarrow> task \<Rightarrow> u64 \<Rightarrow> i32 \<Rightarrow> i32 \<Rightarrow> manager \<Rightarrow> tm_code \<times> u64 \<times> manager" where
  "configureAndStartThread E t tid policy priority s =
     (let (ret, s) = sys E s in if ret \<noteq> 0 then (TM_SYSCALL_ERROR, tid, s)
      else let (ret, s) = sys E s in if ret \<noteq> 0 then (TM_SYSCALL_ERROR, tid, s)
      else let (ret, s) = sys E s in if ret \<noteq> 0 then (TM_SYSCALL_ERROR, tid, s)
      else let (ret, s) = sys E s in if ret \<noteq> 0 then (TM_SYSCALL_ERROR, tid, s)
      else let tid' = te_tid E (tm_now s); (ret, s) = sys E s
           in if ret \<noteq> 0 then (TM_SYSCALL_ERROR, tid, s)
      else (TM_OK, tid', s\<lparr>tm_live := tm_live s @ [tid'],
                           tm_started := tm_started s @ [(t, policy, priority)]\<rparr>))"

fun start_list :: "tm_env \<Rightarrow> thread list \<Rightarrow> manager \<Rightarrow> ((tm_code \<times> thread list) \<times> manager) res" where
  "start_list E [] s = Inr ((TM_OK, []), s)"
| "start_list E (thr # thrs) s =
     (let next = (\<lambda>thr s. and_then (start_list E thrs s) (\<lambda>((rc, ts), s). Inr ((rc, thr # ts), s)))
      in if th_running thr then next thr s
         else case th_sync thr of
                None \<Rightarrow> Inr ((TM_SYSCALL_ERROR, thr # thrs), s)
              | Some so \<Rightarrow>
                  if so \<in> set (tm_sync_held s) then Inl Blocked
                  else let s = s\<lparr>tm_sync_held := so # tm_sync_held s\<rparr>;
                           (rc, tid, s) = configureAndStartThread E (th_task thr) (th_tid thr) (tm_policy s)
                             (if th_highest thr then tm_limit s else tm_prio s) s;
                           thr = thr\<lparr>th_tid := tid\<rparr>
                       in if rc \<noteq> TM_OK then Inr ((rc, thr # thrs), s)
                          else let (ret, s) = sys E s;   \<comment> \<open>\<open>pthread_cond_timedwait\<close>\<close>
                                   s = s\<lparr>tm_sync_held := removeAll so (tm_sync_held s)\<rparr>
                               in if ret \<noteq> 0 then Inr ((TM_INITIALISATION_TIMEOUT, thr # thrs), s)
                                  else next (thr\<lparr>th_running := True\<rparr>) s)"

definition startAllThreads :: "tm_env \<Rightarrow> manager \<Rightarrow> (tm_code \<times> manager) res" where
  "startAllThreads E = with_list (\<lambda>s.
     and_then (start_list E (tm_threads s) s) (\<lambda>((rc, ts), s). Inr (rc, s\<lparr>tm_threads := ts\<rparr>)))"

section \<open>Terminating\<close>

fun terminate_list :: "tm_env \<Rightarrow> thread list \<Rightarrow> manager \<Rightarrow> ((tm_code \<times> thread list) \<times> manager) res" where
  "terminate_list E [] s = Inr ((TM_OK, []), s)"
| "terminate_list E (thr # thrs) s =
     (let next = (\<lambda>thr s. and_then (terminate_list E thrs s) (\<lambda>((rc, ts), s). Inr ((rc, thr # ts), s)))
      in if \<not> th_running thr then next thr s
         else and_then (pthread_cancel E (th_tid thr) s) (\<lambda>(ret, s).
              if ret \<noteq> 0 then Inr ((TM_SYSCALL_ERROR, thr # thrs), s)
              else and_then (pthread_join E (th_tid thr) s) (\<lambda>(ret, s).
                   if ret \<noteq> 0 then Inr ((TM_SYSCALL_ERROR, thr # thrs), s)
                   else next (thr\<lparr>th_running := False\<rparr>) s)))"

definition terminateAllThreads :: "tm_env \<Rightarrow> manager \<Rightarrow> (tm_code \<times> manager) res" where
  "terminateAllThreads E = with_list (\<lambda>s.
     and_then (terminate_list E (tm_threads s) s) (\<lambda>((rc, ts), s). Inr (rc, s\<lparr>tm_threads := ts\<rparr>)))"

fun clear_list :: "tm_env \<Rightarrow> thread list \<Rightarrow> manager \<Rightarrow> manager res" where
  "clear_list E [] s = Inr s"
| "clear_list E (thr # thrs) s = and_then (thread_reset E thr s) (\<lambda>(_, s). clear_list E thrs s)"

definition manager_reset :: "tm_env \<Rightarrow> manager \<Rightarrow> manager res" where
  "manager_reset E s =
     and_then (with_list (\<lambda>s. and_then (clear_list E (tm_threads s) s) (\<lambda>s. Inr ((), s\<lparr>tm_threads := []\<rparr>))) s)
       (\<lambda>(_, s). Inr (s\<lparr>tm_policy := SCHED_OTHER, tm_limit := 0, tm_prio := 0\<rparr>))"

definition manager_destroy :: "tm_env \<Rightarrow> manager \<Rightarrow> manager res" where
  "manager_destroy E s = and_then (terminateAllThreads E s) (\<lambda>(_, s). manager_reset E s)"

section \<open>When the system calls succeed\<close>

definition calls_ok :: "tm_env \<Rightarrow> bool" where
  "calls_ok E \<longleftrightarrow> (\<forall>k. te_call E k = 0)"

lemma sys_ok: "calls_ok E \<Longrightarrow> sys E s = (0, s\<lparr>tm_now := tm_now s + 1\<rparr>)"
  by (simp add: sys_def calls_ok_def)

lemma configure_ok:
  assumes "calls_ok E"
  shows "configureAndStartThread E t tid policy priority s =
    (TM_OK, te_tid E (tm_now s + 4),
     s\<lparr>tm_now := tm_now s + 5, tm_live := tm_live s @ [te_tid E (tm_now s + 4)],
       tm_started := tm_started s @ [(t, policy, priority)]\<rparr>)"
  by (simp add: configureAndStartThread_def sys_ok [OF assms] Let_def numeral_eq_Suc)

definition prio_of :: "manager \<Rightarrow> thread \<Rightarrow> i32" where
  "prio_of s thr = (if th_highest thr then tm_limit s else tm_prio s)"

text \<open>What a complete start does to an entry: one that was running stays as it is, any other gets the
  id of its new kernel thread and is running; its task, synchronisation object and kind stay.\<close>

definition entry_started :: "thread \<Rightarrow> thread \<Rightarrow> bool" where
  "entry_started thr thr' \<longleftrightarrow>
     thr' = (if th_running thr then thr else thr\<lparr>th_tid := th_tid thr', th_running := True\<rparr>)"

definition new_tids :: "thread list \<Rightarrow> thread list \<Rightarrow> u64 list" where
  "new_tids thrs ts = map (\<lambda>(_, thr'). th_tid thr') (filter (\<lambda>(thr, _). \<not> th_running thr) (zip thrs ts))"

lemma new_tids_simps [simp]:
  "new_tids [] [] = []"
  "new_tids (thr # thrs) (thr' # ts) = (if th_running thr then [] else [th_tid thr']) @ new_tids thrs ts"
  by (simp_all add: new_tids_def)

lemma entry_started_same: "th_running thr \<Longrightarrow> entry_started thr thr"
  by (simp add: entry_started_def)

lemma entry_started_new: "\<not> th_running thr \<Longrightarrow> entry_started thr (thr\<lparr>th_tid := tid, th_running := True\<rparr>)"
  by (simp add: entry_started_def)

lemma entry_started_running: "list_all2 entry_started thrs ts \<Longrightarrow> list_all th_running ts"
  by (induction rule: list_all2_induct) (auto simp: entry_started_def split: if_splits, metis thread.select_convs(4) thread.surjective thread.update_convs(4))

lemma start_list_ok:
  assumes "calls_ok E" "\<forall>thr \<in> set thrs. th_sync thr \<noteq> None" "tm_sync_held s = []"
  shows "\<exists>ts s'. start_list E thrs s = Inr ((TM_OK, ts), s') \<and> list_all2 entry_started thrs ts \<and>
    tm_sync_held s' = [] \<and> tm_locked s' = tm_locked s \<and> tm_live s' = tm_live s @ new_tids thrs ts \<and>
    tm_started s' = tm_started s @
      map (\<lambda>thr. (th_task thr, tm_policy s, prio_of s thr)) (filter (\<lambda>thr. \<not> th_running thr) thrs)"
  using assms(2,3)
proof (induction thrs arbitrary: s)
  case (Cons thr thrs)
  show ?case
  proof (cases "th_running thr")
    case True
    from Cons.IH [of s] Cons.prems obtain ts s' where "start_list E thrs s = Inr ((TM_OK, ts), s')"
      "list_all2 entry_started thrs ts" "tm_sync_held s' = []" "tm_locked s' = tm_locked s"
      "tm_live s' = tm_live s @ new_tids thrs ts" "tm_started s' = tm_started s @
        map (\<lambda>thr. (th_task thr, tm_policy s, prio_of s thr)) (filter (\<lambda>thr. \<not> th_running thr) thrs)"
      by auto
    with True entry_started_same [OF True] show ?thesis by (simp add: Let_def)
  next
    case False
    from Cons.prems obtain so where so: "th_sync thr = Some so" by auto
    define tid where "tid = te_tid E (tm_now s + 4)"
    define s1 where "s1 = s\<lparr>tm_live := tm_live s @ [tid],
       tm_started := tm_started s @ [(th_task thr, tm_policy s, prio_of s thr)],
       tm_now := 6 + tm_now s, tm_sync_held := []\<rparr>"
    have same: "tm_policy s1 = tm_policy s" "prio_of s1 = prio_of s" "tm_locked s1 = tm_locked s"
      "tm_sync_held s1 = []" "tm_live s1 = tm_live s @ [tid]"
      "tm_started s1 = tm_started s @ [(th_task thr, tm_policy s, prio_of s thr)]"
      using Cons.prems by (simp_all add: s1_def prio_of_def fun_eq_iff)
    from Cons.IH [of s1] Cons.prems same obtain ts s' where ts: "start_list E thrs s1 = Inr ((TM_OK, ts), s')"
      "list_all2 entry_started thrs ts" "tm_sync_held s' = []" "tm_locked s' = tm_locked s"
      "tm_live s' = tm_live s @ tid # new_tids thrs ts"
      "tm_started s' = tm_started s @ (th_task thr, tm_policy s, prio_of s thr) #
        map (\<lambda>thr. (th_task thr, tm_policy s, prio_of s thr)) (filter (\<lambda>thr. \<not> th_running thr) thrs)"
      by auto
    have "start_list E (thr # thrs) s =
      and_then (start_list E thrs s1) (\<lambda>((rc, ts), s2).
        Inr ((rc, thr\<lparr>th_tid := tid, th_running := True\<rparr> # ts), s2))"
      using False so Cons.prems
      by (cases "th_highest thr")
        (simp_all add: Let_def configure_ok [OF assms(1)] sys_ok [OF assms(1)] s1_def prio_of_def tid_def)
    with ts False entry_started_new [OF False] show ?thesis by simp
  qed
qed simp

text \<open>C26: If the system calls succeed and every synchronisation object still exists, starting all
  threads returns OK with every thread running and no mutex held. It has created exactly one
  kernel thread, in list order, for each thread that was not running, with its task, the
  configured policy and the priority its kind asks for, and stored its id in the entry; it has
  changed nothing else of the entries, and nothing at all of those already running.\<close>

theorem start_all_threads:
  assumes "calls_ok E" "\<not> tm_locked s" "tm_sync_held s = []"
    and "\<forall>thr \<in> set (tm_threads s). th_sync thr \<noteq> None"
  shows "\<exists>s'. startAllThreads E s = Inr (TM_OK, s') \<and> \<not> tm_locked s' \<and> tm_sync_held s' = [] \<and>
    list_all th_running (tm_threads s') \<and>
    list_all2 (\<lambda>thr thr'. thr' = (if th_running thr then thr
        else thr\<lparr>th_tid := th_tid thr', th_running := True\<rparr>)) (tm_threads s) (tm_threads s') \<and>
    tm_live s' = tm_live s @ new_tids (tm_threads s) (tm_threads s') \<and>
    tm_started s' = tm_started s @
      map (\<lambda>thr. (th_task thr, tm_policy s, prio_of s thr))
        (filter (\<lambda>thr. \<not> th_running thr) (tm_threads s))"
proof -
  from start_list_ok [OF assms(1,4), of "s\<lparr>tm_locked := True\<rparr>"] assms(3) obtain ts s' where
    ts: "start_list E (tm_threads s) (s\<lparr>tm_locked := True\<rparr>) = Inr ((TM_OK, ts), s')"
    "list_all2 entry_started (tm_threads s) ts" "tm_sync_held s' = []"
    "tm_live s' = tm_live s @ new_tids (tm_threads s) ts"
    "tm_started s' = tm_started s @ map (\<lambda>thr. (th_task thr, tm_policy s, prio_of s thr))
        (filter (\<lambda>thr. \<not> th_running thr) (tm_threads s))"
    by (auto simp: prio_of_def)
  then show ?thesis
    using assms(2) entry_started_running [OF ts(2)]
    by (simp add: startAllThreads_def with_list_def entry_started_def [abs_def] split del: if_split)
qed

definition demo_tm_env :: tm_env where
  "demo_tm_env = \<lparr>te_call = (\<lambda>_. 0), te_tid = (\<lambda>k. of_nat k + 1), te_prio_max = (\<lambda>_. 99),
     te_prio_min = (\<lambda>_. 1)\<rparr>"

definition demo_manager :: manager where
  "demo_manager = manager_new\<lparr>tm_threads := [thread_new \<lparr>taskFunc = 1, taskArgs = 0\<rparr> 0 False,
     thread_new \<lparr>taskFunc = 2, taskArgs = 0\<rparr> 1 True]\<rparr>"

text \<open>A thread that runs, added to the two that do not.\<close>

definition demo_running :: thread where
  "demo_running = (thread_new \<lparr>taskFunc = 3, taskArgs = 0\<rparr> 2 False)\<lparr>th_tid := 9, th_running := True\<rparr>"

definition demo_restart :: manager where
  "demo_restart = demo_manager\<lparr>tm_threads := demo_running # tm_threads demo_manager, tm_live := [9]\<rparr>"

theorem start_all_threads_witness:
  "\<exists>s' thr1 thr2. startAllThreads demo_tm_env demo_restart = Inr (TM_OK, s') \<and>
     tm_threads s' = [demo_running, thr1, thr2] \<and> th_running thr1 \<and> th_running thr2 \<and>
     tm_live s' = [9, th_tid thr1, th_tid thr2]"
  using start_all_threads [of demo_tm_env demo_restart]
  by (auto simp: calls_ok_def demo_tm_env_def demo_restart_def demo_running_def demo_manager_def manager_new_def
      thread_new_def list_all2_Cons1)

section \<open>When they do not\<close>

lemma configure_failure:
  assumes "\<exists>k < 5. te_call E (tm_now s + k) \<noteq> 0"
  shows "\<exists>s'. configureAndStartThread E t tid policy priority s = (TM_SYSCALL_ERROR, tid, s') \<and>
    tm_sync_held s' = tm_sync_held s \<and> tm_threads s' = tm_threads s"
proof -
  from assms have "te_call E (tm_now s) \<noteq> 0 \<or> te_call E (tm_now s + 1) \<noteq> 0 \<or>
      te_call E (tm_now s + 2) \<noteq> 0 \<or> te_call E (tm_now s + 3) \<noteq> 0 \<or> te_call E (tm_now s + 4) \<noteq> 0"
    by (auto simp: numeral_eq_Suc less_Suc_eq)
  then show ?thesis
    by (simp add: configureAndStartThread_def sys_def Let_def numeral_eq_Suc)
qed

text \<open>A thread that cannot be created blocks its manager for good: the call returns an error but
  keeps the thread's synchronisation mutex locked, and the next attempt to start the threads
  waits for that mutex for ever, whatever the system calls return then.\<close>

lemma failed_start_deadlocks:
  assumes "tm_threads s = thr # thrs" "\<not> th_running thr" "th_sync thr = Some so"
    and "\<not> tm_locked s" "tm_sync_held s = []" "\<exists>k < 5. te_call E (tm_now s + k) \<noteq> 0"
  shows "\<exists>s'. startAllThreads E s = Inr (TM_SYSCALL_ERROR, s') \<and> tm_sync_held s' = [so] \<and>
           (\<forall>E'. startAllThreads E' s' = Inl Blocked)"
proof -
  let ?s = "s\<lparr>tm_locked := True, tm_sync_held := [so]\<rparr>"
  obtain s1 where s1: "configureAndStartThread E (th_task thr) (th_tid thr) (tm_policy s)
      (if th_highest thr then tm_limit s else tm_prio s) ?s = (TM_SYSCALL_ERROR, th_tid thr, s1)"
    "tm_sync_held s1 = [so]" "tm_threads s1 = tm_threads s"
    using configure_failure [of E ?s] assms(6) by fastforce
  then have "start_list E (thr # thrs) (s\<lparr>tm_locked := True\<rparr>) = Inr ((TM_SYSCALL_ERROR, thr # thrs), s1)"
    using assms by (cases "th_highest thr") simp_all
  with s1 assms show ?thesis
    by (auto simp: startAllThreads_def with_list_def Let_def)
qed

lemma failed_start_deadlocks_witness:
  "\<exists>s'. startAllThreads (demo_tm_env\<lparr>te_call := (\<lambda>k. if k = 4 then 11 else 0)\<rparr>) demo_manager =
      Inr (TM_SYSCALL_ERROR, s') \<and> startAllThreads demo_tm_env s' = Inl Blocked"
proof -
  let ?E = "demo_tm_env\<lparr>te_call := (\<lambda>k. if k = 4 then 11 else 0)\<rparr>"
  have "\<exists>k < 5. te_call ?E (tm_now demo_manager + k) \<noteq> 0"
    by (intro exI [of _ 4]) (simp add: demo_manager_def manager_new_def)
  then show ?thesis
    using failed_start_deadlocks [of demo_manager _ _ 0 ?E]
    by (auto simp: demo_manager_def manager_new_def thread_new_def)
qed

lemma terminate_list_ok:
  assumes "calls_ok E" "list_all th_running thrs" "distinct (map th_tid thrs)"
    and "set (map th_tid thrs) \<subseteq> set (tm_live s)"
  shows "\<exists>s'. terminate_list E thrs s =
      Inr ((TM_OK, map (\<lambda>thr. thr\<lparr>th_running := False\<rparr>) thrs), s') \<and>
    tm_live s' = filter (\<lambda>tid. tid \<notin> set (map th_tid thrs)) (tm_live s) \<and>
    tm_locked s' = tm_locked s"
  using assms(2-4)
proof (induction thrs arbitrary: s)
  case (Cons thr thrs)
  define s1 where "s1 = s\<lparr>tm_now := tm_now s + 2, tm_live := removeAll (th_tid thr) (tm_live s)\<rparr>"
  have "set (map th_tid thrs) \<subseteq> set (tm_live s1)" using Cons.prems by (auto simp: s1_def) (metis imageI)
  with Cons.IH [of s1] Cons.prems obtain s' where s': "terminate_list E thrs s1 =
      Inr ((TM_OK, map (\<lambda>thr. thr\<lparr>th_running := False\<rparr>) thrs), s')"
    "tm_live s' = filter (\<lambda>tid. tid \<notin> set (map th_tid thrs)) (tm_live s1)" "tm_locked s' = tm_locked s1"
    by auto
  have "terminate_list E (thr # thrs) s = and_then (terminate_list E thrs s1) (\<lambda>((rc, ts), s).
      Inr ((rc, thr\<lparr>th_running := False\<rparr> # ts), s))"
    using Cons.prems
    by (simp add: Let_def pthread_cancel_def pthread_join_def sys_ok [OF assms(1)] s1_def)
  with s' show ?case 
    by (simp add: s1_def removeAll_filter_not_eq del: terminate_list.simps)
      (rule filter_cong; auto)
qed simp

text \<open>Destroying the manager joins its threads twice: the destructor terminates and joins every
  running thread, but leaves the thread ids, so the destruction of the list elements cancels
  and joins a thread that no longer exists, even when every system call succeeds.\<close>

theorem destroy_joins_twice:
  assumes "calls_ok E" "\<not> tm_locked s" "tm_threads s \<noteq> []" "list_all th_running (tm_threads s)"
    and "distinct (map th_tid (tm_threads s))" "set (map th_tid (tm_threads s)) \<subseteq> set (tm_live s) - {0}"
  shows "(\<exists>s'. terminateAllThreads E s = Inr (TM_OK, s') \<and> \<not> tm_locked s' \<and>
      list_all (\<lambda>thr. \<not> th_running thr) (tm_threads s') \<and>
      set (tm_live s') = set (tm_live s) - set (map th_tid (tm_threads s))) \<and>
    manager_destroy E s = Inl BadThread"
proof -
  from terminate_list_ok [OF assms(1,4,5), of "s\<lparr>tm_locked := True\<rparr>"] assms(6) obtain s' where
    s': "terminate_list E (tm_threads s) (s\<lparr>tm_locked := True\<rparr>) =
        Inr ((TM_OK, map (\<lambda>thr. thr\<lparr>th_running := False\<rparr>) (tm_threads s)), s')"
      "tm_live s' = filter (\<lambda>tid. tid \<notin> set (map th_tid (tm_threads s))) (tm_live s)"
    by auto
  from assms(3) obtain thr thrs where thr: "tm_threads s = thr # thrs" by (cases "tm_threads s") auto
  with assms(6) have "th_tid thr \<noteq> 0" by auto
  with s' thr have "manager_destroy E s = Inl BadThread"
    by (simp add: manager_destroy_def terminateAllThreads_def with_list_def assms(2) manager_reset_def
        thread_reset_def pthread_cancel_def)
  moreover have "\<exists>s'. terminateAllThreads E s = Inr (TM_OK, s') \<and> \<not> tm_locked s' \<and>
      list_all (\<lambda>thr. \<not> th_running thr) (tm_threads s') \<and>
      set (tm_live s') = set (tm_live s) - set (map th_tid (tm_threads s))"
    using s' by (auto simp: terminateAllThreads_def with_list_def assms(2) list_all_iff)
  ultimately show ?thesis by blast
qed

theorem destroy_joins_twice_witness:
  "manager_destroy demo_tm_env (manager_new\<lparr>tm_threads := [(thread_new \<lparr>taskFunc = 1, taskArgs = 0\<rparr> 0 False)
     \<lparr>th_tid := 7, th_running := True\<rparr>], tm_live := [7]\<rparr>) = Inl BadThread"
  using destroy_joins_twice [of demo_tm_env "manager_new\<lparr>tm_threads := [(thread_new \<lparr>taskFunc = 1, taskArgs = 0\<rparr> 0 False)
     \<lparr>th_tid := 7, th_running := True\<rparr>], tm_live := [7]\<rparr>"]
  by (simp add: calls_ok_def demo_tm_env_def manager_new_def)

section \<open>Adding\<close>

lemma thread_reset_unstarted:
  "th_tid thr = 0 \<Longrightarrow> thread_reset E thr s = Inr (thr\<lparr>th_task := \<lparr>taskFunc = nullptr, taskArgs = nullptr\<rparr>,
     th_running := False, th_highest := False, th_sync := None\<rparr>, s)"
  by (simp add: thread_reset_def)

lemma relocate_unstarted: "\<forall>thr \<in> set thrs. th_tid thr = 0 \<Longrightarrow> relocate E thrs s = Inr (thrs, s)"
  by (induction thrs) (simp_all add: thread_move_def thread_reset_unstarted)

text \<open>Resetting a thread that has been started, twice: the second join finds no thread.\<close>

lemma move_started:
  assumes "calls_ok E" "th_tid thr \<noteq> 0"
  shows "relocate E (thr # thrs) s = Inl BadThread"
  using assms(2)
  by (simp add: thread_move_def thread_reset_def pthread_cancel_def pthread_join_def sys_ok [OF assms(1)])

lemma relocate_started:
  assumes "calls_ok E" "\<exists>thr \<in> set thrs. th_tid thr \<noteq> 0"
  shows "relocate E thrs s = Inl BadThread"
  using assms(2)
proof (induction thrs arbitrary: s)
  case (Cons thr thrs)
  show ?case
  proof (cases "th_tid thr = 0")
    case True
    with Cons show ?thesis by (simp add: thread_move_def thread_reset_unstarted)
  qed (rule move_started [OF assms(1)])
qed simp

text \<open>Adding a thread: while the list has room, or no thread in it was ever started, the new
  thread is appended and nothing else changes for the others; but when the list has to grow
  (the ninth thread) and one of its threads has been started, moving the list cancels and
  joins that thread and then joins it again, even when every system call succeeds.\<close>

theorem add_thread_growth:
  assumes "calls_ok E" "\<not> tm_locked s"
  shows "if length (tm_threads s) < tm_capacity s \<or> (\<forall>thr \<in> set (tm_threads s). th_tid thr = 0)
    then \<exists>s'. addThread E t so highest s = Inr (TM_OK, s') \<and> \<not> tm_locked s' \<and>
      tm_threads s' = tm_threads s @ [thread_new t so highest] \<and> tm_live s' = tm_live s \<and>
      (length (tm_threads s) \<le> tm_capacity s \<and> 0 < tm_capacity s \<longrightarrow> length (tm_threads s') \<le> tm_capacity s')
    else addThread E t so highest s = Inl BadThread"
  using assms relocate_unstarted [of "tm_threads s" E] relocate_started [OF assms(1), of "tm_threads s"]
  by (auto simp: addThread_def with_list_def)

theorem add_thread_growth_witness:
  "addThread demo_tm_env \<lparr>taskFunc = 9, taskArgs = 0\<rparr> 9 False (manager_new\<lparr>tm_threads :=
     replicate 8 ((thread_new \<lparr>taskFunc = 1, taskArgs = 0\<rparr> 0 False)\<lparr>th_tid := 7, th_running := True\<rparr>), tm_live := [7]\<rparr>) =
     Inl BadThread"
  using add_thread_growth [of demo_tm_env "manager_new\<lparr>tm_threads :=
     replicate 8 ((thread_new \<lparr>taskFunc = 1, taskArgs = 0\<rparr> 0 False)\<lparr>th_tid := 7, th_running := True\<rparr>), tm_live := [7]\<rparr>"]
  by (simp add: calls_ok_def demo_tm_env_def manager_new_def)

end
