(* ===== verification/Thread_Start.thy ===== *)
theory Thread_Start
  imports Thread_Manager
begin

text \<open>
  The handshake between \<open>ThreadManager::startAllThreads\<close> and a thread it starts: the starter holds
  the mutex of the thread's synchronisation object while it creates the thread and gives it back
  inside \<open>pthread_cond_timedwait\<close>; the thread locks the mutex once it is initialised, signals the
  condition and unlocks (\<open>sysvMsgQueueRxThread\<close>). An event is one of these actions, of the starter or of one of the kernel
  threads it has created for this entry: after a timeout it may be called again and create
  another. A condition variable may wake its waiter without a signal. \<open>Thread_Manager\<close> takes the
  result of the wait as given; here it comes from the other side.
\<close>

section \<open>Events\<close>

datatype starter =
    SIdle         \<comment> \<open>no call, or past the handshake of this entry\<close>
  | SCalling      \<comment> \<open>at the \<open>MUTEX_LOCK\<close> that begins the handshake, which may wait\<close>
  | SLocked       \<comment> \<open>mutex held; next: \<open>configureAndStartThread\<close>\<close>
  | SCreated      \<comment> \<open>next: \<open>pthread_cond_timedwait\<close>\<close>
  | SWaiting      \<comment> \<open>inside it, the mutex released\<close>
  | SWoken bool   \<comment> \<open>woken (True) or timed out; next: lock the mutex again\<close>
  | SReturn bool  \<comment> \<open>\<open>pthread_cond_timedwait\<close> has returned 0 (True) or an error; next: unlock\<close>

datatype worker_at =
    WInit         \<comment> \<open>before \<open>MUTEX_LOCK\<close>\<close>
  | WHolds        \<comment> \<open>next: \<open>pthread_cond_signal\<close>\<close>
  | WSignalled    \<comment> \<open>next: \<open>MUTEX_UNLOCK\<close>\<close>
  | WLoop         \<comment> \<open>past the handshake\<close>
  | WGone         \<comment> \<open>its initialisation failed and it returned\<close>

datatype party = Starter | Worker nat

record handshake =
  hs_owner :: "party option"       \<comment> \<open>of the mutex\<close>
  hs_starter :: starter
  hs_workers :: "worker_at list"   \<comment> \<open>kernel threads, the last is the one whose id is kept\<close>
  hs_running :: bool               \<comment> \<open>\<open>isRunning\<close>\<close>
  hs_rc :: tm_code                 \<comment> \<open>result of the last call\<close>
  gh_spurious :: bool              \<comment> \<open>some wake-up had no signal\<close>
  gh_failed :: bool                \<comment> \<open>some thread could not be created\<close>

definition hs_new :: handshake where
  "hs_new = \<lparr>hs_owner = None, hs_starter = SIdle, hs_workers = [], hs_running = False,
     hs_rc = TM_UNDEFINED, gh_spurious = False, gh_failed = False\<rparr>"

datatype hs_event =
    Calls | Start | Create | CreateFails | Wait | TimesOut | WakesUp | Relocks | Unlocks
  | InitFails nat | Locks nat | Signals nat | Releases nat

definition move_worker :: "nat \<Rightarrow> worker_at \<Rightarrow> worker_at \<Rightarrow> handshake \<Rightarrow> handshake option" where
  "move_worker k w w' s =
     (if k < length (hs_workers s) \<and> hs_workers s ! k = w
      then Some (s\<lparr>hs_workers := (hs_workers s)[k := w']\<rparr>) else None)"

fun hs_do :: "hs_event \<Rightarrow> handshake \<Rightarrow> handshake option" where
  "hs_do Calls s =
     (if hs_starter s = SIdle \<and> \<not> hs_running s then Some (s\<lparr>hs_starter := SCalling\<rparr>) else None)"
| "hs_do Start s =
     (if hs_starter s = SCalling \<and> hs_owner s = None
      then Some (s\<lparr>hs_starter := SLocked, hs_owner := Some Starter\<rparr>) else None)"
| "hs_do Create s =
     (if hs_starter s = SLocked
      then Some (s\<lparr>hs_starter := SCreated, hs_workers := hs_workers s @ [WInit]\<rparr>) else None)"
| "hs_do CreateFails s =
     (if hs_starter s = SLocked
      then Some (s\<lparr>hs_starter := SIdle, hs_rc := TM_SYSCALL_ERROR, gh_failed := True\<rparr>) else None)"
| "hs_do Wait s =
     (if hs_starter s = SCreated then Some (s\<lparr>hs_starter := SWaiting, hs_owner := None\<rparr>) else None)"
| "hs_do TimesOut s = (if hs_starter s = SWaiting then Some (s\<lparr>hs_starter := SWoken False\<rparr>) else None)"
| "hs_do WakesUp s =
     (if hs_starter s = SWaiting then Some (s\<lparr>hs_starter := SWoken True, gh_spurious := True\<rparr>) else None)"
| "hs_do Relocks s =
     (case hs_starter s of
        SWoken b \<Rightarrow> if hs_owner s = None then Some (s\<lparr>hs_starter := SReturn b, hs_owner := Some Starter\<rparr>) else None
      | _ \<Rightarrow> None)"
| "hs_do Unlocks s =
     (case hs_starter s of
        SReturn b \<Rightarrow> Some (s\<lparr>hs_starter := SIdle, hs_owner := None, hs_running := b,
                        hs_rc := (if b then TM_OK else TM_INITIALISATION_TIMEOUT)\<rparr>)
      | _ \<Rightarrow> None)"
| "hs_do (InitFails k) s = move_worker k WInit WGone s"
| "hs_do (Locks k) s =
     (if hs_owner s = None then map_option (\<lambda>s. s\<lparr>hs_owner := Some (Worker k)\<rparr>) (move_worker k WInit WHolds s)
      else None)"
| "hs_do (Signals k) s =
     map_option (\<lambda>s. if hs_starter s = SWaiting then s\<lparr>hs_starter := SWoken True\<rparr> else s)
       (move_worker k WHolds WSignalled s)"
| "hs_do (Releases k) s = map_option (\<lambda>s. s\<lparr>hs_owner := None\<rparr>) (move_worker k WSignalled WLoop s)"

inductive hs_reachable :: "handshake \<Rightarrow> bool" where
  start: "hs_reachable hs_new"
| step: "hs_reachable s \<Longrightarrow> hs_do e s = Some s' \<Longrightarrow> hs_reachable s'"

fun hs_run :: "hs_event list \<Rightarrow> handshake \<Rightarrow> handshake option" where
  "hs_run [] s = Some s"
| "hs_run (e # es) s = Option.bind (hs_do e s) (hs_run es)"

lemma hs_run_reachable: "hs_reachable s \<Longrightarrow> hs_run es s = Some s' \<Longrightarrow> hs_reachable s'"
  by (induction es arbitrary: s) (auto split: Option.bind_splits intro: hs_reachable.step)

section \<open>The invariant\<close>

fun holds_mutex :: "starter \<Rightarrow> bool" where
  "holds_mutex SLocked = True"
| "holds_mutex SCreated = True"
| "holds_mutex (SReturn b) = True"
| "holds_mutex _ = False"

definition inside :: "worker_at \<Rightarrow> bool" where
  "inside w \<longleftrightarrow> w \<in> {WHolds, WSignalled}"

definition has_signalled :: "worker_at \<Rightarrow> bool" where
  "has_signalled w \<longleftrightarrow> w \<in> {WSignalled, WLoop}"

fun success_due :: "starter \<Rightarrow> bool" where
  "success_due (SWoken b) = b"
| "success_due (SReturn b) = b"
| "success_due _ = False"

definition insiders :: "worker_at list \<Rightarrow> nat set" where
  "insiders ws = {k. k < length ws \<and> inside (ws ! k)}"

fun owning_workers :: "party option \<Rightarrow> nat set" where
  "owning_workers None = {}"
| "owning_workers (Some Starter) = {}"
| "owning_workers (Some (Worker k)) = {k}"

definition owner_ok :: "handshake \<Rightarrow> bool" where
  "owner_ok s \<longleftrightarrow>
     (hs_owner s = Some Starter \<longleftrightarrow> holds_mutex (hs_starter s) \<or> gh_failed s) \<and>
     insiders (hs_workers s) = owning_workers (hs_owner s) \<and>
     (gh_failed s \<longrightarrow> hs_starter s \<in> {SIdle, SCalling})"

definition last_ok :: "handshake \<Rightarrow> bool" where
  "last_ok s \<longleftrightarrow>
     (hs_starter s \<in> {SCreated, SWaiting} \<longrightarrow> hs_workers s \<noteq> [] \<and> \<not> has_signalled (last (hs_workers s)))"

definition some_signalled :: "worker_at list \<Rightarrow> bool" where
  "some_signalled ws \<longleftrightarrow> (\<exists>w \<in> set ws. has_signalled w)"

definition ready_ok :: "handshake \<Rightarrow> bool" where
  "ready_ok s \<longleftrightarrow> (\<not> gh_spurious s \<longrightarrow> success_due (hs_starter s) \<or> hs_running s \<longrightarrow> some_signalled (hs_workers s))"

lemma move_worker_Some:
  "move_worker k w w' s = Some s' \<longleftrightarrow> k < length (hs_workers s) \<and> hs_workers s ! k = w \<and>
     s' = s\<lparr>hs_workers := (hs_workers s)[k := w']\<rparr>"
  by (auto simp: move_worker_def)

lemma last_update: "last (xs[k := w]) = (if k = length xs - 1 then w else last xs)" if "k < length xs"
  using that by (cases xs rule: rev_cases) (auto simp: list_update_append)

lemma signalled_update:
  assumes "some_signalled ws" "k < length ws" "has_signalled (ws ! k) \<longrightarrow> has_signalled w'"
  shows "some_signalled (ws[k := w'])"
proof -
  from assms(1) obtain i where i: "i < length ws" "has_signalled (ws ! i)"
    by (auto simp: some_signalled_def in_set_conv_nth)
  then have "has_signalled (ws[k := w'] ! i)" using assms(2,3) by (cases "i = k") auto
  then show ?thesis using i(1) unfolding some_signalled_def by (metis length_list_update nth_mem)
qed

lemma signalled_append: "some_signalled ws \<Longrightarrow> some_signalled (ws @ vs)"
  by (auto simp: some_signalled_def)

lemma worker_signs [simp]:
  "inside WHolds" "inside WSignalled" "\<not> inside WInit" "\<not> inside WLoop" "\<not> inside WGone"
  "has_signalled WSignalled" "has_signalled WLoop" "\<not> has_signalled WInit" "\<not> has_signalled WHolds" "\<not> has_signalled WGone"
  by (simp_all add: inside_def has_signalled_def)

lemma insiders_simps [simp]:
  "insiders [] = {}" "insiders (ws @ [WInit]) = insiders ws"
  "k < length ws \<Longrightarrow> insiders (ws[k := w]) = (if inside w then insert k (insiders ws) else insiders ws - {k})"
  by (auto simp: insiders_def nth_append nth_list_update less_Suc_eq split: if_splits)

lemma insiders_at: "k < length ws \<Longrightarrow> ws ! k = w \<Longrightarrow> inside w \<longleftrightarrow> k \<in> insiders ws"
  by (auto simp: insiders_def)

lemma owner_worker:
  assumes "owner_ok s" "k < length (hs_workers s)" "hs_workers s ! k = w"
  shows "inside w \<longleftrightarrow> hs_owner s = Some (Worker k)"
  using assms insiders_at [OF assms(2,3)] by (cases "hs_owner s" rule: owning_workers.cases) (auto simp: owner_ok_def)

lemma owner_step:
  assumes "owner_ok s" "hs_do e s = Some s'"
  shows "owner_ok s'"
proof (cases e)
  case (InitFails k)
  then have "k \<notin> insiders (hs_workers s)" "hs_owner s' = hs_owner s"
    using assms(2) insiders_at [of k "hs_workers s" WInit] by (auto simp: move_worker_Some)
  with assms InitFails show ?thesis by (simp add: owner_ok_def move_worker_Some)
next
  case (Locks k)
  with assms show ?thesis by (auto simp: owner_ok_def move_worker_Some split: if_splits)
next
  case (Signals k)
  with assms owner_worker [OF assms(1), of k WHolds] show ?thesis
    by (auto simp: owner_ok_def move_worker_Some insert_absorb split: if_splits)
next
  case (Releases k)
  with assms owner_worker [OF assms(1), of k WSignalled] show ?thesis
    by (auto simp: owner_ok_def move_worker_Some)
qed (use assms in \<open>auto simp: owner_ok_def split: if_splits starter.splits\<close>)

lemma last_step:
  assumes "last_ok s" "owner_ok s" "hs_do e s = Some s'"
  shows "last_ok s'"
proof (cases e)
  case (InitFails k)
  with assms show ?thesis by (auto simp: last_ok_def move_worker_Some last_update)
next
  case (Locks k)
  with assms show ?thesis by (auto simp: last_ok_def move_worker_Some last_update split: if_splits)
next
  case (Signals k)
  with assms owner_worker [OF assms(2), of k WHolds] show ?thesis
    by (auto simp: last_ok_def owner_ok_def move_worker_Some split: if_splits)
next
  case (Releases k)
  with assms last_conv_nth [of "hs_workers s"] show ?thesis
    by (auto simp: last_ok_def move_worker_Some last_update split: if_splits)
qed (use assms in \<open>auto simp: last_ok_def split: if_splits starter.splits\<close>)

lemma ready_step:
  assumes "ready_ok s" "last_ok s" "hs_do e s = Some s'"
  shows "ready_ok s'"
proof (cases e)
  case (Signals k)
  with assms have "k < length (hs_workers s)" "hs_workers s' = (hs_workers s)[k := WSignalled]"
    by (auto simp: move_worker_Some split: if_splits)
  then have "some_signalled (hs_workers s')"
    unfolding some_signalled_def by (intro bexI [of _ WSignalled]) (simp_all add: set_update_memI)
  then show ?thesis by (simp add: ready_ok_def)
qed (use assms in \<open>auto simp: ready_ok_def move_worker_Some signalled_update signalled_append
      split: if_splits starter.splits\<close>)

lemma hs_inv: "hs_reachable s \<Longrightarrow> owner_ok s \<and> last_ok s \<and> ready_ok s"
proof (induction rule: hs_reachable.induct)
  case start
  then show ?case by (simp add: hs_new_def owner_ok_def last_ok_def ready_ok_def)
next
  case (step s e s')
  then show ?case using owner_step last_step ready_step by blast
qed

section \<open>What the handshake guarantees\<close>

text \<open>C27: The handshake between the starter and a thread loses no signal and reports no thread too
  early: while the starter waits, the thread it waits for has not signalled yet, in whatever
  order the two act; when every wake-up has a signal, a thread is reported as running only after
  a thread of its entry has finished its initialisation, which is the thread itself if it was
  started once; and a call that has returned does not hold the mutex, unless the thread could
  not be created.\<close>

theorem start_handshake:
  assumes "hs_reachable s"
  shows "(hs_starter s = SWaiting \<longrightarrow> hs_workers s \<noteq> [] \<and> \<not> has_signalled (last (hs_workers s))) \<and>
    (hs_running s \<and> \<not> gh_spurious s \<longrightarrow> (\<exists>w \<in> set (hs_workers s). has_signalled w)) \<and>
    (hs_running s \<and> \<not> gh_spurious s \<and> length (hs_workers s) = 1 \<longrightarrow> has_signalled (last (hs_workers s))) \<and>
    (hs_starter s = SIdle \<and> \<not> gh_failed s \<longrightarrow> hs_owner s \<noteq> Some Starter)"
  using hs_inv [OF assms]
  by (auto simp: last_ok_def ready_ok_def owner_ok_def some_signalled_def length_Suc_conv)

fun starter_left :: "starter \<Rightarrow> nat" where
  "starter_left SIdle = 0"
| "starter_left SCalling = 9"
| "starter_left SLocked = 8"
| "starter_left SCreated = 4"
| "starter_left SWaiting = 3"
| "starter_left (SWoken b) = 2"
| "starter_left (SReturn b) = 1"

fun worker_left :: "worker_at \<Rightarrow> nat" where
  "worker_left WInit = 3"
| "worker_left WHolds = 2"
| "worker_left WSignalled = 1"
| "worker_left _ = 0"

text \<open>The number of events that are left until the starter calls again.\<close>

definition hs_left :: "handshake \<Rightarrow> nat" where
  "hs_left s = starter_left (hs_starter s) + sum_list (map worker_left (hs_workers s))"

lemma worker_left_update:
  assumes "move_worker k w w' s = Some s'" "worker_left w' < worker_left w"
  shows "sum_list (map worker_left (hs_workers s')) < sum_list (map worker_left (hs_workers s))"
proof -
  have k: "k < length (hs_workers s)" "hs_workers s ! k = w" "hs_workers s' = (hs_workers s)[k := w']"
    using assms(1) by (auto simp: move_worker_Some)
  then have "worker_left w \<le> sum_list (map worker_left (hs_workers s))"
    using elem_le_sum_list [of k "map worker_left (hs_workers s)"] by simp
  then show ?thesis
    using assms(2) k sum_list_update [of k "map worker_left (hs_workers s)" "worker_left w'"] by (simp add: map_update)
qed

lemma move_worker_starter: "move_worker k w w' s = Some s' \<Longrightarrow> hs_starter s' = hs_starter s"
  by (auto simp: move_worker_Some)

lemma hs_left_decreases:
  assumes "hs_do e s = Some s'" "e \<noteq> Calls"
  shows "hs_left s' < hs_left s"
proof (cases e)
  case (InitFails k)
  then show ?thesis using assms worker_left_update [of k WInit WGone s s'] move_worker_starter [of k WInit WGone s s']
    by (simp add: hs_left_def)
next
  case (Locks k)
  then show ?thesis using assms worker_left_update [of k WInit WHolds s] move_worker_starter [of k WInit WHolds s]
    by (auto simp: hs_left_def split: if_splits)
next
  case (Signals k)
  then obtain t where t: "move_worker k WHolds WSignalled s = Some t" 
    "s' = (if hs_starter t = SWaiting then t\<lparr>hs_starter := SWoken True\<rparr> else t)" using assms by auto
  then show ?thesis using worker_left_update [OF t(1)] move_worker_starter [OF t(1)] by (simp add: hs_left_def)
next
  case (Releases k)
  then show ?thesis using assms worker_left_update [of k WSignalled WLoop s] move_worker_starter [of k WSignalled WLoop s]
    by (auto simp: hs_left_def)
qed (use assms in \<open>auto simp: hs_left_def split: if_splits starter.splits\<close>)

lemma owner_moves:
  assumes "owner_ok s" "hs_owner s = Some (Worker k)"
  shows "hs_do (Signals k) s \<noteq> None \<or> hs_do (Releases k) s \<noteq> None"
proof -
  have "k \<in> insiders (hs_workers s)" using assms by (simp add: owner_ok_def)
  then show ?thesis by (auto simp: insiders_def inside_def move_worker_def)
qed

lemma waiting_moves:
  assumes "owner_ok s" "last_ok s" "hs_starter s = SWaiting" "last (hs_workers s) \<noteq> WGone"
  shows "\<exists>k. hs_do (Locks k) s \<noteq> None \<or> hs_do (Signals k) s \<noteq> None \<or> hs_do (Releases k) s \<noteq> None"
proof (cases "hs_owner s" rule: owning_workers.cases)
  case 1
  let ?k = "length (hs_workers s) - 1"
  have k: "?k < length (hs_workers s)" "hs_workers s ! ?k = last (hs_workers s)"
    using assms(2,3) by (auto simp: last_ok_def last_conv_nth)
  moreover have "last (hs_workers s) = WInit"
    using assms k 1 insiders_at [OF k] by (cases "last (hs_workers s)") (auto simp: last_ok_def owner_ok_def)
  ultimately show ?thesis using 1 by (intro exI [of _ ?k]) (simp add: move_worker_def)
next
  case 2
  with assms show ?thesis by (auto simp: owner_ok_def)
next
  case (3 k)
  with owner_moves [OF assms(1)] show ?thesis by blast
qed

lemma call_moves:
  assumes "owner_ok s" "hs_starter s \<noteq> SIdle" "\<not> gh_failed s"
  shows "\<exists>e. hs_do e s \<noteq> None"
proof (cases "hs_starter s")
  case SCalling
  show ?thesis
  proof (cases "hs_owner s" rule: owning_workers.cases)
    case 1
    with SCalling have "hs_do Start s \<noteq> None" by simp
    then show ?thesis by blast
  next
    case 2
    with assms(1,3) SCalling show ?thesis by (auto simp: owner_ok_def)
  next
    case (3 k)
    with owner_moves [OF assms(1)] show ?thesis by blast
  qed
next
  case (SWoken b)
  show ?thesis
  proof (cases "hs_owner s" rule: owning_workers.cases)
    case 1
    with SWoken have "hs_do Relocks s \<noteq> None" by simp
    then show ?thesis by blast
  next
    case 2
    with assms(1) SWoken show ?thesis by (auto simp: owner_ok_def)
  next
    case (3 k)
    with owner_moves [OF assms(1)] show ?thesis by blast
  qed
next
  case SLocked
  then have "hs_do Create s \<noteq> None" by simp
  then show ?thesis by blast
next
  case SCreated
  then have "hs_do Wait s \<noteq> None" by simp
  then show ?thesis by blast
next
  case SWaiting
  then have "hs_do TimesOut s \<noteq> None" by simp
  then show ?thesis by blast
next
  case (SReturn b)
  then have "hs_do Unlocks s \<noteq> None" by simp
  then show ?thesis by blast
qed (use assms(2) in simp)

text \<open>After a failed creation the mutex is never free again.\<close>

lemma failed_step: "owner_ok s \<Longrightarrow> gh_failed s \<Longrightarrow> hs_do e s = Some s' \<Longrightarrow> gh_failed s'"
  by (cases e) (auto simp: owner_ok_def move_worker_Some split: if_splits starter.splits)

lemma failed_run: "hs_reachable s \<Longrightarrow> gh_failed s \<Longrightarrow> hs_run es s = Some s' \<Longrightarrow> hs_owner s' = Some Starter \<and> gh_failed s'"
proof (induction es arbitrary: s)
  case Nil
  then show ?case using hs_inv by (auto simp: owner_ok_def)
next
  case (Cons e es)
  then obtain s1 where "hs_do e s = Some s1" "hs_run es s1 = Some s'" by (auto split: Option.bind_splits)
  with Cons show ?case using failed_step hs_inv hs_reachable.step by blast
qed

lemma failed_call_step:
  "owner_ok s \<Longrightarrow> gh_failed s \<Longrightarrow> hs_starter s = SCalling \<Longrightarrow> hs_do e s = Some s' \<Longrightarrow> hs_starter s' = SCalling"
  by (cases e) (auto simp: owner_ok_def move_worker_Some split: if_splits)

lemma failed_call_hangs:
  "hs_reachable s \<Longrightarrow> gh_failed s \<Longrightarrow> hs_starter s = SCalling \<Longrightarrow> hs_run es s = Some s' \<Longrightarrow> hs_starter s' = SCalling"
proof (induction es arbitrary: s)
  case (Cons e es)
  then obtain s1 where s1: "hs_do e s = Some s1" "hs_run es s1 = Some s'" by (auto split: Option.bind_splits)
  have "owner_ok s" using Cons.prems hs_inv by simp
  then have "gh_failed s1" "hs_starter s1 = SCalling" "hs_reachable s1"
    using Cons.prems s1(1) failed_step failed_call_step hs_reachable.step by blast+
  then show ?case using Cons.IH s1(2) by simp
qed simp

text \<open>C28: When does a call that starts a thread return? If no earlier call failed to create a
  thread, always, whatever the order of events: inside a call, the wait for the mutex at its
  beginning included, some event is possible, and every event leaves fewer to come, so the call
  ends after finitely many. And it need not be the timeout that ends it: while the starter waits
  for a thread that has not given up, that thread, or the one that has the mutex, can always go
  on. After a failed creation, never: the next call hangs at the mutex in every continuation.\<close>

theorem start_returns:
  assumes "hs_reachable s" "hs_starter s \<noteq> SIdle"
  shows "(\<not> gh_failed s \<longrightarrow> (\<exists>e. hs_do e s \<noteq> None)) \<and>
    (\<forall>e s'. hs_do e s = Some s' \<longrightarrow> hs_left s' < hs_left s) \<and>
    (hs_starter s = SWaiting \<and> last (hs_workers s) \<noteq> WGone \<longrightarrow>
      (\<exists>k. hs_do (Locks k) s \<noteq> None \<or> hs_do (Signals k) s \<noteq> None \<or> hs_do (Releases k) s \<noteq> None)) \<and>
    (gh_failed s \<longrightarrow> hs_starter s = SCalling \<and>
      (\<forall>es s'. hs_run es s = Some s' \<longrightarrow> hs_starter s' = SCalling))"
proof -
  have inv: "owner_ok s" "last_ok s" using hs_inv [OF assms(1)] by simp_all
  have "hs_left s' < hs_left s" if "hs_do e s = Some s'" for e s'
    using hs_left_decreases [OF that] that assms(2) by (cases "e = Calls") auto
  moreover have "hs_starter s = SCalling" if "gh_failed s"
    using inv(1) that assms(2) by (simp add: owner_ok_def)
  ultimately show ?thesis
    using call_moves [OF inv(1) assms(2)] waiting_moves [OF inv] failed_call_hangs [OF assms(1)] by blast
qed

section \<open>Where it does not help\<close>

text \<open>C39: The wait is not a wait for a condition: it is made once, and its result is taken for the
  thread's. So a wake-up without a signal, which POSIX allows, reports a thread as started that
  has not begun its initialisation; after a start that timed out the entry is started again with
  a second thread, and the signal of the first reports the second; and when a thread cannot be
  created, the mutex is held for ever, so that neither another start nor a thread of an earlier
  start gets past it.\<close>

theorem start_reports_too_early:
  assumes "hs_reachable s" "hs_owner s = None"
  shows "(hs_starter s = SWaiting \<longrightarrow> (\<exists>s'. hs_run [WakesUp, Relocks, Unlocks] s = Some s' \<and>
      hs_rc s' = TM_OK \<and> hs_running s' \<and> hs_workers s' = hs_workers s)) \<and>
    (hs_starter s = SIdle \<and> \<not> hs_running s \<and> k < length (hs_workers s) \<and> hs_workers s ! k = WInit \<longrightarrow>
      (\<exists>s'. hs_run [Calls, Start, Create, Wait, Locks k, Signals k, Releases k, Relocks, Unlocks] s = Some s' \<and>
        hs_rc s' = TM_OK \<and> hs_running s' \<and> gh_spurious s' = gh_spurious s \<and>
        hs_workers s' = (hs_workers s)[k := WLoop] @ [WInit])) \<and>
    (hs_starter s = SIdle \<and> \<not> hs_running s \<longrightarrow> (\<exists>s'. hs_run [Calls, Start, CreateFails] s = Some s' \<and>
      (\<forall>es s''. hs_run es s' = Some s'' \<longrightarrow> hs_do Start s'' = None \<and> hs_do (Locks k) s'' = None)))"
proof (intro conjI impI)
  show "\<exists>s'. hs_run [WakesUp, Relocks, Unlocks] s = Some s' \<and>
      hs_rc s' = TM_OK \<and> hs_running s' \<and> hs_workers s' = hs_workers s" if "hs_starter s = SWaiting"
    using assms(2) that by simp
  show "\<exists>s'. hs_run [Calls, Start, Create, Wait, Locks k, Signals k, Releases k, Relocks, Unlocks] s = Some s' \<and>
        hs_rc s' = TM_OK \<and> hs_running s' \<and> gh_spurious s' = gh_spurious s \<and>
        hs_workers s' = (hs_workers s)[k := WLoop] @ [WInit]"
    if "hs_starter s = SIdle \<and> \<not> hs_running s \<and> k < length (hs_workers s) \<and> hs_workers s ! k = WInit"
    using assms(2) that by (simp add: move_worker_def nth_append list_update_append)
  assume "hs_starter s = SIdle \<and> \<not> hs_running s"
  then obtain s' where s': "hs_run [Calls, Start, CreateFails] s = Some s'" "gh_failed s'" using assms(2) by simp
  then have "\<forall>es s''. hs_run es s' = Some s'' \<longrightarrow> hs_do Start s'' = None \<and> hs_do (Locks k) s'' = None"
    using failed_run [OF hs_run_reachable [OF assms(1) s'(1)]] by simp
  then show "\<exists>s'. hs_run [Calls, Start, CreateFails] s = Some s' \<and>
      (\<forall>es s''. hs_run es s' = Some s'' \<longrightarrow> hs_do Start s'' = None \<and> hs_do (Locks k) s'' = None)"
    using s'(1) by blast
qed

section \<open>Instances\<close>

text \<open>A start that is waiting, and one that has returned OK.\<close>

definition demo_waiting :: handshake where
  "demo_waiting = the (hs_run [Calls, Start, Create, Wait] hs_new)"

definition demo_started :: handshake where
  "demo_started = the (hs_run [Calls, Start, Create, Wait, Locks 0, Signals 0, Releases 0, Relocks, Unlocks] hs_new)"

text \<open>The first thread was too slow.\<close>

definition demo_timed_out :: handshake where
  "demo_timed_out = the (hs_run [Calls, Start, Create, Wait, TimesOut, Relocks, Unlocks] hs_new)"

lemma demo_starts:
  "hs_run [Calls, Start, Create, Wait] hs_new = Some demo_waiting"
  "hs_run [Calls, Start, Create, Wait, Locks 0, Signals 0, Releases 0, Relocks, Unlocks] hs_new = Some demo_started"
  "hs_run [Calls, Start, Create, Wait, TimesOut, Relocks, Unlocks] hs_new = Some demo_timed_out"
  by (simp_all add: demo_waiting_def demo_started_def demo_timed_out_def hs_new_def move_worker_def)

lemma demo_starts_reachable: "hs_reachable demo_waiting" "hs_reachable demo_started" "hs_reachable demo_timed_out"
  using demo_starts [THEN hs_run_reachable [OF hs_reachable.start]] by simp_all

lemma demo_starts_sels:
  "hs_starter demo_waiting = SWaiting" "hs_owner demo_waiting = None" "hs_workers demo_waiting = [WInit]"
  "hs_running demo_started" "\<not> gh_spurious demo_started" "length (hs_workers demo_started) = 1"
  "hs_starter demo_timed_out = SIdle" "hs_owner demo_timed_out = None" "hs_workers demo_timed_out = [WInit]"
  "\<not> hs_running demo_timed_out" "\<not> gh_spurious demo_timed_out"
  by (simp_all add: demo_waiting_def demo_started_def demo_timed_out_def hs_new_def move_worker_def)

theorem start_handshake_witness:
  "hs_rc demo_started = TM_OK \<and> has_signalled (last (hs_workers demo_started)) \<and>
     \<not> has_signalled (last (hs_workers demo_waiting))"
proof -
  have "hs_rc demo_started = TM_OK" by (simp add: demo_started_def hs_new_def move_worker_def)
  moreover have "has_signalled (last (hs_workers demo_started))"
    using start_handshake [OF demo_starts_reachable(2)] demo_starts_sels by blast
  moreover have "\<not> has_signalled (last (hs_workers demo_waiting))"
    using start_handshake [OF demo_starts_reachable(1)] demo_starts_sels by blast
  ultimately show ?thesis by blast
qed

text \<open>A call after a failed creation.\<close>

definition demo_stuck :: handshake where
  "demo_stuck = the (hs_run [Calls, Start, CreateFails, Calls] hs_new)"

lemma demo_stuck_sels: "hs_reachable demo_stuck" "hs_starter demo_stuck = SCalling" "gh_failed demo_stuck"
proof -
  have "hs_run [Calls, Start, CreateFails, Calls] hs_new = Some demo_stuck"
    by (simp add: demo_stuck_def hs_new_def)
  from hs_run_reachable [OF hs_reachable.start this] show "hs_reachable demo_stuck" .
qed (simp_all add: demo_stuck_def hs_new_def)

theorem start_returns_witness:
  "(\<exists>k. hs_do (Locks k) demo_waiting \<noteq> None \<or> hs_do (Signals k) demo_waiting \<noteq> None \<or>
     hs_do (Releases k) demo_waiting \<noteq> None) \<and> hs_do Start demo_stuck = None"
proof -
  have "\<exists>k. hs_do (Locks k) demo_waiting \<noteq> None \<or> hs_do (Signals k) demo_waiting \<noteq> None \<or>
     hs_do (Releases k) demo_waiting \<noteq> None"
    using start_returns [OF demo_starts_reachable(1)] by (simp add: demo_starts_sels)
  moreover have "hs_do Start demo_stuck = None"
  proof (cases "hs_do Start demo_stuck")
    case (Some s)
    then have "hs_run [Start] demo_stuck = Some s" by simp
    then have "hs_starter s = SCalling"
      using start_returns [OF demo_stuck_sels(1)] demo_stuck_sels(2,3) starter.distinct(1) by metis
    then show ?thesis using Some by (auto split: if_splits)
  qed
  ultimately show ?thesis by blast
qed

theorem start_reports_too_early_witness:
  "(\<exists>s. hs_run [WakesUp, Relocks, Unlocks] demo_waiting = Some s \<and> hs_rc s = TM_OK \<and> hs_workers s = [WInit]) \<and>
   (\<exists>s. hs_run [Calls, Start, Create, Wait, Locks 0, Signals 0, Releases 0, Relocks, Unlocks] demo_timed_out = Some s \<and>
     hs_rc s = TM_OK \<and> \<not> gh_spurious s \<and> hs_workers s = [WLoop, WInit]) \<and>
   (\<exists>s. hs_run [Calls, Start, CreateFails] demo_timed_out = Some s \<and> hs_do (Locks 0) s = None)"
proof -
  note waiting = start_reports_too_early [OF demo_starts_reachable(1) demo_starts_sels(2), of 0]
  note late = start_reports_too_early [OF demo_starts_reachable(3) demo_starts_sels(8), of 0]
  have "\<exists>s. hs_run [WakesUp, Relocks, Unlocks] demo_waiting = Some s \<and> hs_rc s = TM_OK \<and> hs_workers s = [WInit]"
    using waiting demo_starts_sels(1,3) by metis
  moreover have "0 < length (hs_workers demo_timed_out)" "hs_workers demo_timed_out ! 0 = WInit"
    by (simp_all add: demo_starts_sels)
  with late obtain s where
    "hs_run [Calls, Start, Create, Wait, Locks 0, Signals 0, Releases 0, Relocks, Unlocks] demo_timed_out = Some s"
    "hs_rc s = TM_OK" "gh_spurious s = gh_spurious demo_timed_out"
    "hs_workers s = (hs_workers demo_timed_out)[0 := WLoop] @ [WInit]" using demo_starts_sels(7,10) by blast
  then have "\<exists>s. hs_run [Calls, Start, Create, Wait, Locks 0, Signals 0, Releases 0, Relocks, Unlocks] demo_timed_out = Some s \<and>
      hs_rc s = TM_OK \<and> \<not> gh_spurious s \<and> hs_workers s = [WLoop, WInit]"
    by (intro exI [of _ s]) (simp add: demo_starts_sels)
  moreover have "\<exists>s. hs_run [Calls, Start, CreateFails] demo_timed_out = Some s \<and> hs_do (Locks 0) s = None"
    using late demo_starts_sels(7,10) hs_run.simps(1) by blast
  ultimately show ?thesis by blast
qed

end
