(* ===== verification/Platform.thy ===== *)
theory Platform
  imports Sysv_Receive Transport_LSocket Thread_Manager
begin

text \<open>
  \<open>itcPlatform.cc\<close>: the object behind the API. It owns the mailboxes of the process and composes
  the transports and the thread manager. \<open>pl_my\<close> is the mailbox of the calling thread
  (\<open>m_myMailbox\<close>, thread local). The local transport holds a weak pointer to the mailbox list:
  \<open>pl_local\<close> says whether it has been given; the list itself is \<open>pl_mboxes\<close>. The files are those
  of the socket transport. Parameters: the system calls and \<open>clear\<close>, which the container of this
  revision does not have. Creating, deleting and locating mailboxes is in \<open>Platform_Mailboxes\<close>.
\<close>

section \<open>State\<close>

record platform =
  pl_region :: u32
  pl_server_mbox :: u32
  pl_initialised :: bool
  pl_my :: ptr
  pl_mboxes :: mbox_list
  pl_local :: bool
  pl_lsock :: lsock
  pl_sysv :: sysv
  pl_threads :: manager

record plat_env =
  pe_sys :: sys_env
  pe_lsock :: ls_env
  pe_tm :: tm_env
  pe_fork :: i32
  pe_key :: "i32 \<times> i32"              \<comment> \<open>\<open>pthread_key_create\<close>, \<open>pthread_key_delete\<close>\<close>
  pe_rx_thread :: ptr               \<comment> \<open>\<open>sysvMsgQueueRxThreadWrapper\<close>\<close>
  pe_clear :: "mbox_list \<Rightarrow> mbox_list"

record contact_info =
  mc_mailbox :: u32
  mc_world :: u32

abbreviation pl_files :: "platform \<Rightarrow> fsys" where
  "pl_files p \<equiv> ls_files (pl_lsock p)"

text \<open>The constructor: the mailboxes get their ids before the region is known.\<close>

definition platform_new :: "ptr \<Rightarrow> fsys \<Rightarrow> platform res" where
  "platform_new base fs =
     and_then (container_new ITC_MAX_SUPPORTED_MAILBOXES base (\<lambda>index. (mbox_new ITC_FLAG_DEFAULT)
       \<lparr>mb_id := push_bit ITC_REGION_ID_SHIFT ITC_MAILBOX_ID_DEFAULT OR unit_of index\<rparr>)) (\<lambda>ct.
     Inr \<lparr>pl_region = ITC_MAILBOX_ID_DEFAULT, pl_server_mbox = ITC_MAILBOX_ID_DEFAULT,
          pl_initialised = False, pl_my = nullptr, pl_mboxes = ct, pl_local = False,
          pl_lsock = lsock_new fs, pl_sysv = sysv_new, pl_threads = manager_new\<rparr>)"

section \<open>Start and stop\<close>

definition ITC_SERVER_SOCKET :: path where
  "ITC_SERVER_SOCKET = [''/'', ''tmp'', ''itc'', ''itc-server'', ''itc-server'']"

text \<open>The parent's side of \<open>startDaemon\<close>.\<close>

definition startDaemon :: "plat_env \<Rightarrow> bool" where
  "startDaemon E \<longleftrightarrow> \<not> sint (pe_fork E) < 0"

definition checkAndStartItcServer :: "plat_env \<Rightarrow> platform \<Rightarrow> bool" where
  "checkAndStartItcServer E p \<longleftrightarrow>
     (if \<not> fs_exists (le_fs (pe_lsock E)) ITC_SERVER_SOCKET (pl_files p) then startDaemon E else False)"

definition initialise_region :: "plat_env \<Rightarrow> u32 \<Rightarrow> platform \<Rightarrow> bool \<times> platform" where
  "initialise_region E flags p =
     (if flags AND ITC_FLAG_I_AM_ITC_SERVER \<noteq> 0
      then let region = push_bit ITC_REGION_ID_SHIFT 1
           in (True, p\<lparr>pl_region := region, pl_server_mbox := region OR 1\<rparr>)
      else let (located, ls) = locateItcServer (pe_lsock E) (pl_lsock p); p = p\<lparr>pl_lsock := ls\<rparr>
           in if lr_region located = ITC_MAILBOX_ID_DEFAULT \<or> lr_mbox located = ITC_MAILBOX_ID_DEFAULT
              then (False, p)
              else (True, p\<lparr>pl_region := lr_region located, pl_server_mbox := lr_mbox located\<rparr>))"

text \<open>All three transports are initialised, whatever the first ones return; the queue transport adds
  its receive thread to the thread manager.\<close>

definition initialise_transports :: "plat_env \<Rightarrow> platform \<Rightarrow> (bool \<times> platform) res" where
  "initialise_transports E p =
     (let (ok1, loc) = initialise_local (pl_mboxes p) None; p = p\<lparr>pl_local := loc \<noteq> None\<rparr>
      in and_then (initialise_lsock (pe_lsock E) (pl_region p) (pl_lsock p)) (\<lambda>(ok2, ls).
           let p = p\<lparr>pl_lsock := ls\<rparr>;
               (ok3, sv, fs) = initialise_sysv (pe_sys E) (le_fs (pe_lsock E)) (pl_region p)
                                 (pl_sysv p, pl_files p);
               p = p\<lparr>pl_sysv := sv, pl_lsock := (pl_lsock p)\<lparr>ls_files := fs\<rparr>\<rparr>
           in if \<not> ok3 then Inr (False, p)
              else and_then (addThread (pe_tm E) \<lparr>taskFunc = pe_rx_thread E, taskArgs = nullptr\<rparr> 0 False (pl_threads p))
                     (\<lambda>(_, tm). Inr (ok1 \<and> ok2 \<and> ok3, p\<lparr>pl_threads := tm\<rparr>))))"

definition platform_initialise :: "plat_env \<Rightarrow> u32 \<Rightarrow> platform \<Rightarrow> (itc_code \<times> platform) res" where
  "platform_initialise E flags p =
     (if \<not> checkAndStartItcServer E p then Inr (ITC_FAILED, p)
      else if pl_initialised p then Inr (ITC_OK, p)
      else let (located, p) = initialise_region E flags p
           in if \<not> located then Inr (ITC_FAILED, p)
              else and_then (initialise_transports E p) (\<lambda>(ok, p).
                if \<not> ok then Inr (ITC_FAILED, p)
                else if fst (pe_key E) \<noteq> 0 then Inr (ITC_FAILED, p)
                else and_then (startAllThreads (pe_tm E) (pl_threads p)) (\<lambda>(rc, tm).
                       Inr (if rc = TM_OK then ITC_OK else ITC_FAILED, p\<lparr>pl_threads := tm\<rparr>))))"

definition platform_release :: "plat_env \<Rightarrow> platform \<Rightarrow> (itc_code \<times> platform) res" where
  "platform_release E p =
     (if \<not> pl_initialised p then Inr (ITC_OK, p)
      else if ucast (container_size (pl_mboxes p)) > ITC_NR_INTERNAL_USED_MAILBOXES then Inr (ITC_FAILED, p)
      else and_then (terminateAllThreads (pe_tm E) (pl_threads p)) (\<lambda>(rc, tm).
             let p = p\<lparr>pl_threads := tm\<rparr>
             in if rc \<noteq> TM_OK then Inr (ITC_FAILED, p)
                else let p = p\<lparr>pl_mboxes := pe_clear E (pl_mboxes p),
                               pl_lsock := release_lsock (pe_lsock E) (pl_lsock p),
                               pl_sysv := release_sysv (pe_sys E) (pl_sysv p)\<rparr>
                     in Inr (if snd (pe_key E) \<noteq> 0 then ITC_FAILED else ITC_OK, p)))"

section \<open>Messages\<close>

definition allocateMessage :: "u32 \<Rightarrow> u64 \<Rightarrow> heap \<Rightarrow> (ptr \<times> heap) res" where
  "allocateMessage msgno sz h =
     and_then (allocate msgno sz h) (\<lambda>(adminMsg, h). Inr (CONVERT_TO_USER_MESSAGE adminMsg, h))"

definition deallocateMessage :: "ptr \<Rightarrow> heap \<Rightarrow> (itc_code \<times> heap) res" where
  "deallocateMessage msg h =
     and_then (deallocate (CONVERT_TO_ADMIN_MESSAGE msg) h) (\<lambda>(ok, h).
       Inr (if ok then ITC_OK else ITC_FAILED, h))"

definition getSender :: "ptr \<Rightarrow> heap \<Rightarrow> u32 res" where
  "getSender msg = read_field F_sender (CONVERT_TO_ADMIN_MESSAGE msg)"

definition getReceiver :: "ptr \<Rightarrow> heap \<Rightarrow> u32 res" where
  "getReceiver msg = read_field F_receiver (CONVERT_TO_ADMIN_MESSAGE msg)"

definition getMsgSize :: "ptr \<Rightarrow> heap \<Rightarrow> u64 res" where
  "getMsgSize msg h =
     and_then (read_field F_size (CONVERT_TO_ADMIN_MESSAGE msg) h) (\<lambda>sz. Inr (ucast sz))"

text \<open>Writes into the user part of a message: a 32-bit field, and \<open>memcpy\<close>.\<close>

definition write_user :: "nat \<Rightarrow> ptr \<Rightarrow> u32 \<Rightarrow> heap \<Rightarrow> heap res" where
  "write_user off msg w = write32 (CONVERT_TO_ADMIN_MESSAGE msg) (field_off F_msgno + off) w"

definition copy_user :: "ptr \<Rightarrow> nat \<Rightarrow> u8 list \<Rightarrow> heap \<Rightarrow> heap res" where
  "copy_user msg off bs h =
     (let o16 = field_off F_msgno + off
      in with_block (CONVERT_TO_ADMIN_MESSAGE msg) h (o16 + length bs) (\<lambda>b.
           set_block (CONVERT_TO_ADMIN_MESSAGE msg) (take o16 b @ bs @ drop (o16 + length bs) b) h))"

definition pl_transport :: "platform \<Rightarrow> mbox_list option" where
  "pl_transport p = (if pl_local p then Some (pl_mboxes p) else None)"

definition set_transport :: "mbox_list option \<Rightarrow> platform \<Rightarrow> platform" where
  "set_transport st p = (case st of None \<Rightarrow> p | Some ct \<Rightarrow> p\<lparr>pl_mboxes := ct\<rparr>)"

definition to_server :: "platform \<Rightarrow> contact_info" where
  "to_server p = \<lparr>mc_mailbox = pl_server_mbox p, mc_world = 0\<rparr>"

text \<open>\<open>send\<close> and \<open>forwardMessageToItcServer\<close> call each other; the forwarded request has world 0.\<close>

function platform_send ::
    "plat_env \<Rightarrow> ptr \<Rightarrow> contact_info \<Rightarrow> platform \<Rightarrow> heap \<Rightarrow> (itc_code \<times> platform \<times> heap) res"
  and forwardMessageToItcServer ::
    "plat_env \<Rightarrow> ptr \<Rightarrow> u32 \<Rightarrow> platform \<Rightarrow> heap \<Rightarrow> (itc_code \<times> platform \<times> heap) res"
where
  "platform_send E msg toMbox p h =
     (if \<not> pl_initialised p then Inr (ITC_FAILED, p, h)
      else if pl_my p = nullptr then Inr (ITC_FAILED, p, h)
      else and_then (read_entry (pl_my p) (pl_mboxes p)) (\<lambda>me.
        if mc_mailbox toMbox = mb_id me \<and> mc_world toMbox = 0 then Inr (ITC_FAILED, p, h)
        else and_then (write_field F_receiver (CONVERT_TO_ADMIN_MESSAGE msg) (mc_mailbox toMbox) h) (\<lambda>h.
             and_then (write_field F_sender (CONVERT_TO_ADMIN_MESSAGE msg) (mb_id me) h) (\<lambda>h.
               if mc_world toMbox \<noteq> 0
               then forwardMessageToItcServer E (CONVERT_TO_ADMIN_MESSAGE msg) (mc_world toMbox) p h
               else if region_of (mc_mailbox toMbox) \<noteq> pl_region p
               then and_then (sysv_send (pe_sys E) (CONVERT_TO_ADMIN_MESSAGE msg) (pl_sysv p, h))
                      (\<lambda>(rc, sv, h). Inr (rc, p\<lparr>pl_sysv := sv\<rparr>, h))
               else and_then (local_send h (CONVERT_TO_ADMIN_MESSAGE msg) (pl_transport p))
                      (\<lambda>(rc, st). Inr (rc, set_transport st p, h))))))"
| "forwardMessageToItcServer E adminMsg toWorldId p h =
     and_then (read_field F_size adminMsg h) (\<lambda>sz.
     and_then (allocateMessage ITC_SYSTEM_MESSAGE_FORWARD_MESSAGE_TO_ITC_SERVER_REQUEST
                 (12 + ucast (ITC_ADMIN_MESSAGE_PREAMBLE_SIZE + sz + ucast ITC_ADMIN_MESSAGE_ENDPOINT_SIZE)) h)
       (\<lambda>(req, h).
     and_then (write_user 4 req toWorldId h) (\<lambda>h.
     and_then (write_user 8 req
                 (ITC_ADMIN_MESSAGE_PREAMBLE_SIZE + sz + ucast ITC_ADMIN_MESSAGE_ENDPOINT_SIZE) h) (\<lambda>h.
     and_then (copy_out adminMsg
                 (unat (ITC_ADMIN_MESSAGE_PREAMBLE_SIZE + sz + ucast ITC_ADMIN_MESSAGE_ENDPOINT_SIZE)) h) (\<lambda>bs.
     and_then (copy_user req 12 bs h) (\<lambda>h.
     and_then (platform_send E req (to_server p) p h) (\<lambda>(rc, p, h).
     and_then (deallocate adminMsg h) (\<lambda>(_, h). Inr (rc, p, h)))))))))"
  by pat_completeness auto
termination
  by (relation "measure (\<lambda>x. case x of Inl (_, _, to, _) \<Rightarrow> if mc_world to = 0 then 0 else 2
        | Inr _ \<Rightarrow> 1)") (auto simp: to_server_def)

declare platform_send.simps [simp del] forwardMessageToItcServer.simps [simp del]

definition platform_receive :: "u32 \<Rightarrow> platform \<Rightarrow> (ptr \<times> platform) res" where
  "platform_receive mode p =
     (if \<not> pl_initialised p then Inr (nullptr, p)
      else if pl_my p = nullptr then Inr (nullptr, p)
      else and_then (local_receive (pl_my p) mode (pl_mboxes p)) (\<lambda>(adminMsg, ct).
             Inr (CONVERT_TO_USER_MESSAGE adminMsg, p\<lparr>pl_mboxes := ct\<rparr>)))"

section \<open>Sending\<close>

definition my_mailbox :: "platform \<Rightarrow> nat \<Rightarrow> mailbox" where
  "my_mailbox p i = mbox_at i (pl_mboxes p)"

text \<open>A platform whose calling thread owns mailbox \<open>i\<close>.\<close>

definition owns :: "nat \<Rightarrow> platform \<Rightarrow> bool" where
  "owns i p \<longleftrightarrow> pl_initialised p \<and> list_ok (pl_mboxes p) \<and> i < 1024 \<and>
     pl_my p = ct_at (of_nat i) (pl_mboxes p)"

lemma owns_facts:
  assumes "owns i p"
  shows "pl_initialised p" "pl_my p \<noteq> nullptr" "read_entry (pl_my p) (pl_mboxes p) = Inr (mbox_at i (pl_mboxes p))"
  using assms list_entry [of "pl_mboxes p" i] by (simp_all add: owns_def read_entry_def mbox_at_def)

definition addressed :: "u32 \<Rightarrow> u32 \<Rightarrow> u8 list \<Rightarrow> u8 list" where
  "addressed sender dest bs = put32 0 sender (put32 4 dest bs)"

lemma addressed_simps [simp]:
  "length (addressed sender dest bs) = length bs"
  "8 \<le> length bs \<Longrightarrow> get32 0 (addressed sender dest bs) = sender"
  "8 \<le> length bs \<Longrightarrow> get32 4 (addressed sender dest bs) = dest"
  "8 \<le> off \<Longrightarrow> get32 off (addressed sender dest bs) = get32 off bs"
  "8 \<le> k \<Longrightarrow> addressed sender dest bs ! k = bs ! k"
  by (simp_all add: addressed_def)

lemma addressed_ok: "msg_bytes_ok bs \<Longrightarrow> msg_bytes_ok (addressed sender dest bs)"
  by (simp add: addressed_def msg_bytes_ok_put_header)

lemma platform_send_step:
  assumes "owns i p" "block h a = Some bs" "8 \<le> length bs"
    and "dest \<noteq> mb_id (mbox_at i (pl_mboxes p)) \<or> w \<noteq> 0"
    and "h' = set_block a (addressed (mb_id (mbox_at i (pl_mboxes p))) dest bs) h"
  shows "platform_send E (CONVERT_TO_USER_MESSAGE a) \<lparr>mc_mailbox = dest, mc_world = w\<rparr> p h =
    (if w \<noteq> 0 then forwardMessageToItcServer E a w p h'
     else if region_of dest \<noteq> pl_region p
     then and_then (sysv_send (pe_sys E) a (pl_sysv p, h')) (\<lambda>(rc, sv, h). Inr (rc, p\<lparr>pl_sysv := sv\<rparr>, h))
     else and_then (local_send h' a (pl_transport p)) (\<lambda>(rc, st). Inr (rc, set_transport st p, h')))"
  using owns_facts [OF assms(1)] assms(2-)
  by (subst platform_send.simps) (auto simp: write_field_def heap_simps addressed_def)

lemma can_alloc_set_block:
  "block h a \<noteq> None \<Longrightarrow> can_alloc (set_block a bs h) n \<longleftrightarrow> can_alloc h n"
  by (auto simp: can_alloc_def set_block_def)

text \<open>A message to another region becomes one message of that region's queue.\<close>

definition kernel_ok :: "plat_env \<Rightarrow> platform \<Rightarrow> u32 \<Rightarrow> bool" where
  "kernel_ok E p dest \<longleftrightarrow> sv_initialised (pl_sysv p) \<and> length (sv_contacts (pl_sysv p)) = 255 \<and>
     region_of dest \<noteq> pl_region p \<and> 0 < peer_region dest \<and> peer_region dest < 255"

lemma kernel_send:
  assumes "owns i p" "kernel_ok E p dest" "peer_queue (pe_sys E) T dest Q (pl_sysv p)"
    and "msg_ok h a" "block h a = Some bs" "length bs < 2 ^ 31" "can_alloc h (8 + length bs)"
    and "dest \<noteq> mb_id (mbox_at i (pl_mboxes p))"
  obtains s' h' where
    "platform_send E (CONVERT_TO_USER_MESSAGE a) \<lparr>mc_mailbox = dest, mc_world = 0\<rparr> p h =
       Inr (ITC_OK, p\<lparr>pl_sysv := s'\<rparr>, h')"
    "sv_sent s' = sv_sent (pl_sysv p) @ [(Q, addressed (mb_id (mbox_at i (pl_mboxes p))) dest bs)]"
    "blocks h' = (blocks h)(a := None)"
proof -
  let ?data = "addressed (mb_id (mbox_at i (pl_mboxes p))) dest bs" and ?s = "pl_sysv p"
  let ?h1 = "set_block a ?data h"
  from assms(4,5) have bs: "a \<noteq> nullptr" "msg_bytes_ok bs" "21 \<le> length bs"
    "get32 8 bs AND ITC_FLAG_MESSAGE_IN_RX_QUEUE = 0" by (auto simp: msg_ok_def msg_bytes_ok_def)
  then have msg: "msg_ok ?h1 a" "block ?h1 a = Some ?data" "read_field F_receiver a ?h1 = Inr dest"
    by (simp_all add: msg_ok_def heap_simps read_field_def read32_block addressed_ok)
  from assms(2) have k: "sv_initialised ?s" "length (sv_contacts ?s) = 255" "region_of dest \<noteq> pl_region p"
    "0 < peer_region dest" "peer_region dest < 255" by (simp_all add: kernel_ok_def)
  from msgsnd_loop_delivers [OF _ region_of_nonzero [OF k(4)] assms(3), of ?data]
  obtain s' where s': "msgsnd_loop (pe_sys E) (peer_region dest) dest ?data ?s = Some s'"
    "sv_sent s' = sv_sent ?s @ [(Q, ?data)]"
    using k(2,5) by auto
  have "can_alloc ?h1 (8 + length ?data)" using assms(5,7) by (simp add: can_alloc_set_block)
  from send_prepared [OF k(1) msg(1,2) _ msg(3) k(4,5) this, of "pe_sys E"] s'(1) assms(6)
  obtain h' where h': "sysv_send (pe_sys E) a (?s, ?h1) = Inr (ITC_OK, s', h')"
    "blocks h' = (blocks ?h1)(a := None)" by auto
  have "platform_send E (CONVERT_TO_USER_MESSAGE a) \<lparr>mc_mailbox = dest, mc_world = 0\<rparr> p h =
      Inr (ITC_OK, p\<lparr>pl_sysv := s'\<rparr>, h')"
    using platform_send_step [OF assms(1,5) _ _ refl, of dest 0 E] bs(3) assms(8) k(3) h'(1) by simp
  with that s'(2) h'(2) show ?thesis by (simp add: heap_simps)
qed

lemma platform_send_self:
  assumes "owns i p"
  shows "platform_send E msg \<lparr>mc_mailbox = mb_id (mbox_at i (pl_mboxes p)), mc_world = 0\<rparr> p h =
    Inr (ITC_FAILED, p, h)"
  using owns_facts [OF assms] by (subst platform_send.simps) simp

text \<open>A machine on which every call succeeds, with the directories and the queue file there: the server
  answers the question with region 2 and acknowledges the connection.\<close>

definition demo_sockets :: ls_env where
  "demo_sockets = (demo_server 0)\<lparr>le_recv :=
     (\<lambda>t. if t = 3 then Inr (locate_reply 0x200000 0x100001) else Inr ack)\<rparr>"

definition demo_files :: fsys where
  "demo_files = [ITC_PATH_SOCK_FOLDER_NAME \<mapsto> \<lparr>fn_kind = FDir, fn_mode = 511\<rparr>,
     ITC_PATH_SYSVMQ_FILE_NAME \<mapsto> \<lparr>fn_kind = FReg, fn_mode = 511\<rparr>]"

definition demo_plat_env :: plat_env where
  "demo_plat_env = \<lparr>pe_sys = demo_env, pe_lsock = demo_sockets,
     pe_tm = \<lparr>te_call = (\<lambda>_. 0), te_tid = (\<lambda>k. of_nat k + 1), te_prio_max = (\<lambda>_. 99), te_prio_min = (\<lambda>_. 1)\<rparr>,
     pe_fork = 4711, pe_key = (0, 0), pe_rx_thread = 0x5000, pe_clear = (\<lambda>ct. ct)\<rparr>"

text \<open>A platform as a client would have it in region 1, whose calling thread owns mailbox 2.\<close>

definition demo_platform :: "mbox_list \<Rightarrow> platform" where
  "demo_platform ct = \<lparr>pl_region = 0x100000, pl_server_mbox = 0x200001, pl_initialised = True,
     pl_my = ct_at 2 ct, pl_mboxes = ct, pl_local = True, pl_lsock = lsock_new demo_fs,
     pl_sysv = demo_sysv, pl_threads = manager_new\<rparr>"

lemma demo_platform_owns: "list_ok ct \<Longrightarrow> owns 2 (demo_platform ct)"
  by (simp add: owns_def demo_platform_def)

lemma demo_msg_block:
  "msg_ok (demo_msg_heap k) 0x1000" "block (demo_msg_heap k) 0x1000 = Some (demo_msg k)"
  by (simp_all add: msg_ok_def demo_msg_heap_def demo_msg_ok itc_const)

section \<open>The initialised flag\<close>

lemma initialise_transports_frame:
  assumes "initialise_transports E p = Inr (ok, p')"
  shows "pl_initialised p' = pl_initialised p" "\<not> ls_running (pl_lsock p) \<Longrightarrow> \<not> ok"
proof -
  let ?lsock = "initialise_lsock (pe_lsock E) (pl_region p) (pl_lsock p)"
  from assms obtain ok2 ls where ls: "?lsock = Inr (ok2, ls)"
    by (auto simp: initialise_transports_def initialise_local_def and_then_Inr_iff)
  obtain ok3 sv fs where "initialise_sysv (pe_sys E) (le_fs (pe_lsock E)) (pl_region p)
      (pl_sysv p, ls_files ls) = (ok3, sv, fs)" by (rule prod_cases3)
  with assms ls have "pl_initialised p' = pl_initialised p \<and> (ok \<longrightarrow> ok2)"
    by (auto simp: initialise_transports_def initialise_local_def Let_def and_then_Inr_iff split: if_splits)
  moreover have "\<not> ls_running (pl_lsock p) \<Longrightarrow> \<not> ok2" using ls by (simp add: initialise_lsock_def)
  ultimately show "pl_initialised p' = pl_initialised p" "\<not> ls_running (pl_lsock p) \<Longrightarrow> \<not> ok" by auto
qed

lemma initialise_region_frame:
  "initialise_region E flags p = (ok, p') \<Longrightarrow> pl_initialised p' = pl_initialised p"
  by (auto simp: initialise_region_def Let_def split: if_splits prod.splits)

lemma initialise_keeps_flag:
  assumes "platform_initialise E flags p = Inr (rc, p')"
  shows "pl_initialised p' = pl_initialised p"
proof -
  obtain ok p1 where "initialise_region E flags p = (ok, p1)" by (rule prod.exhaust)
  with assms show ?thesis
    by (auto simp: platform_initialise_def and_then_Inr_iff
        dest!: initialise_region_frame initialise_transports_frame(1) split: if_splits)
qed

lemma uninitialised_refuses:
  assumes "\<not> pl_initialised p"
  shows "platform_send E msg to p h = Inr (ITC_FAILED, p, h)"
    "platform_receive mode p = Inr (nullptr, p)" "platform_release E p = Inr (ITC_OK, p)"
  using assms by (simp_all add: platform_send.simps platform_receive_def platform_release_def)

lemma demo_locates:
  "locateItcServer demo_sockets (lsock_new demo_files) = (\<lparr>lr_region = 0x200000, lr_mbox = 0x100001\<rparr>,
     (lsock_new demo_files)\<lparr>ls_running := True, ls_now := 5\<rparr>)"
  by (simp add: locateItcServer_def Let_def demo_sockets_def demo_server_def lsock_new_def ls_tick_def
      locate_reply_size_def get32_locate_reply(1-3) [where rest = "[]", simplified] get32_locate_reply(4) itc_const)

lemma demo_connects:
  "\<exists>ls. initialise_lsock demo_sockets r ((lsock_new demo_files)\<lparr>ls_running := True, ls_now := 5\<rparr>) =
     Inr (True, ls) \<and> ls_files ls = demo_files"
  by (simp add: initialise_lsock_def connect_and_ack_def createPath_def fs_exists_def demo_files_def
      recv_ack.simps Let_def demo_sockets_def demo_server_def demo_fs_env_def lsock_new_def ls_tick_def)

lemma demo_queue:
  "\<exists>sv. initialise_sysv demo_env demo_fs_env r (sysv_new, demo_files) = (True, sv, demo_files)"
  by (simp add: initialise_sysv_def createPath_def fs_exists_def demo_files_def demo_fs_env_def
      Let_def demo_env_def sysv_new_def)

lemma demo_initialise:
  assumes "pl_initialised p = False" "pl_lsock p = lsock_new demo_files" "pl_sysv p = sysv_new"
    and "pl_threads p = manager_new"
  shows "\<exists>p'. platform_initialise demo_plat_env 0 p = Inr (ITC_OK, p')"
proof -
  have env: "pe_sys demo_plat_env = demo_env" "pe_lsock demo_plat_env = demo_sockets"
    "pe_key demo_plat_env = (0, 0)" "le_fs demo_sockets = demo_fs_env"
    "calls_ok (pe_tm demo_plat_env)"
    by (simp_all add: demo_plat_env_def demo_sockets_def demo_server_def calls_ok_def)
  have check: "checkAndStartItcServer demo_plat_env p"
    using assms(2) by (simp add: checkAndStartItcServer_def fs_exists_def startDaemon_def env
        demo_fs_env_def lsock_new_def demo_files_def ITC_SERVER_SOCKET_def
        ITC_PATH_SOCK_FOLDER_NAME_def ITC_PATH_SYSVMQ_FILE_NAME_def demo_plat_env_def)
  let ?p1 = "p\<lparr>pl_region := 0x200000, pl_server_mbox := 0x100001,
    pl_lsock := (lsock_new demo_files)\<lparr>ls_running := True, ls_now := 5\<rparr>\<rparr>"
  have region: "initialise_region demo_plat_env 0 p = (True, ?p1)"
    using assms(2) by (simp add: initialise_region_def Let_def env demo_locates itc_const)
  obtain ls where ls: "initialise_lsock demo_sockets 0x200000 (pl_lsock ?p1) = Inr (True, ls)"
    "ls_files ls = demo_files" using demo_connects by auto
  obtain sv where sv: "initialise_sysv demo_env demo_fs_env 0x200000 (sysv_new, demo_files) =
    (True, sv, demo_files)" using demo_queue by blast
  let ?tm = "manager_new\<lparr>tm_threads := [thread_new \<lparr>taskFunc = 0x5000, taskArgs = nullptr\<rparr> 0 False]\<rparr>"
  obtain p2 where p2: "initialise_transports demo_plat_env ?p1 = Inr (True, p2)" "pl_threads p2 = ?tm"
    using ls sv assms(3,4)
    by (simp add: initialise_transports_def initialise_local_def Let_def env addThread_def with_list_def
        manager_new_def) (simp add: demo_plat_env_def)
  obtain tm where "startAllThreads (pe_tm demo_plat_env) ?tm = Inr (TM_OK, tm)"
    by (simp add: startAllThreads_def with_list_def manager_new_def thread_new_def
        configure_ok [OF env(5)] sys_ok [OF env(5)] Let_def)
  with check region p2 assms(1) env(3) show ?thesis by (simp add: platform_initialise_def)
qed

text \<open>The server cannot initialise at all: it never locates itself, so its socket transport refuses.\<close>

lemma server_initialise_fails:
  assumes "flags AND ITC_FLAG_I_AM_ITC_SERVER \<noteq> 0" "\<not> ls_running (pl_lsock p)" "\<not> pl_initialised p"
    and "platform_initialise E flags p = Inr (rc, p')"
  shows "rc = ITC_FAILED"
  using assms
  by (auto simp: platform_initialise_def initialise_region_def Let_def and_then_Inr_iff
      dest!: initialise_transports_frame(2) split: if_splits)

section \<open>Forwarding to another world\<close>

text \<open>The request to the server: the destination world, the length and the whole message in it.\<close>

definition forward_request :: "u32 \<Rightarrow> u8 list \<Rightarrow> (nat \<Rightarrow> u8) \<Rightarrow> u8 list" where
  "forward_request w bs g =
     (let b = put32 24 (of_nat (length bs)) (put32 20 w
                (fresh_bytes ITC_SYSTEM_MESSAGE_FORWARD_MESSAGE_TO_ITC_SERVER_REQUEST (12 + length bs) g))
      in take 28 b @ bs @ drop (28 + length bs) b)"

lemma forward_request_holds:
  "take (length bs) (drop 28 (forward_request w bs g)) = bs"
  "get32 20 (forward_request w bs g) = w" "get32 24 (forward_request w bs g) = of_nat (length bs)"
  "length (forward_request w bs g) = 29 + length bs"
  by (simp_all add: forward_request_def Let_def get32_append get32_take_head)

lemma forward_sends:
  assumes "msg_ok h a" "block h a = Some bs" "length bs < 2 ^ 31" "can_alloc h (29 + length bs)"
  shows "\<exists>h'. blocks h' = (blocks h)(addr_at h (allocs h) \<mapsto> forward_request w bs (junk h)) \<and>
    forwardMessageToItcServer E a w p h =
      and_then (platform_send E (CONVERT_TO_USER_MESSAGE (addr_at h (allocs h))) (to_server p) p h')
        (\<lambda>(rc, p, h). and_then (deallocate a h) (\<lambda>(_, h). Inr (rc, p, h)))"
proof -
  let ?b = "addr_at h (allocs h)" and ?sz = "get32 12 bs"
  from assms(1,2) have bs: "21 \<le> length bs" "length bs = 17 + unat ?sz"
    by (auto simp: msg_ok_def msg_bytes_ok_def)
  have whole: "ITC_ADMIN_MESSAGE_PREAMBLE_SIZE + ?sz + ucast ITC_ADMIN_MESSAGE_ENDPOINT_SIZE = of_nat (length bs)"
    by (simp add: bs(2) itc_const)
  have n32: "unat (of_nat (length bs) :: u32) = length bs"
    using assms(3) by (intro unat_of_nat_less) simp
  then have n64: "12 + (ucast (of_nat (length bs) :: u32) :: u64) = of_nat (12 + length bs)"
    by (metis of_nat_add of_nat_numeral of_nat_unat)
  have b: "?b \<noteq> a" "block h ?b = None" using assms(2,4) by (auto simp: can_alloc_def)
  have al: "allocate no (of_nat (12 + length bs)) h = Inr (?b,
     h\<lparr>blocks := (blocks h)(?b := Some (fresh_bytes no (12 + length bs) (junk h))), allocs := allocs h + 1\<rparr>)" for no
    using assms(4) by (intro allocate_bytes) simp_all
  have "forwardMessageToItcServer E a w p h =
      and_then (platform_send E (CONVERT_TO_USER_MESSAGE ?b) (to_server p) p
          (set_block ?b (forward_request w bs (junk h)) (h\<lparr>allocs := allocs h + 1\<rparr>)))
        (\<lambda>(rc, p, h). and_then (deallocate a h) (\<lambda>(_, h). Inr (rc, p, h)))"
    using b assms(2) bs(1) n32
    by (subst forwardMessageToItcServer.simps)
       (simp add: read_field_def read32_block allocateMessage_def whole n64 al write_user_def
         write32_block copy_out_def copy_user_def with_block_def forward_request_def set_block_def
         Let_def del: of_nat_add)
  then show ?thesis by (intro exI conjI) (simp_all add: heap_simps)
qed

text \<open>Forwarding consumes the message even when it fails: when the request for the server is
  refused because the caller's own mailbox is the server's, send returns FAILED but has freed
  the message, so the caller that still owns it by the convention of a failed send, and frees
  it, touches a dead block; the request, which holds the whole message, is never freed.\<close>

theorem refused_forward_frees_message:
  assumes "owns i p" "pl_server_mbox p = mb_id (mbox_at i (pl_mboxes p))" "w \<noteq> 0"
    and "msg_ok h a" "block h a = Some bs" "length bs < 2 ^ 31" "can_alloc h (29 + length bs)"
  shows "\<exists>h' r. platform_send E (CONVERT_TO_USER_MESSAGE a) \<lparr>mc_mailbox = dest, mc_world = w\<rparr> p h =
      Inr (ITC_FAILED, p, h') \<and>
    deallocateMessage (CONVERT_TO_USER_MESSAGE a) h' = Inl WildAccess \<and>
    block h' (addr_at h (allocs h)) = Some r \<and> get32 20 r = w \<and>
    take (length bs) (drop 28 r) = addressed (pl_server_mbox p) dest bs"
proof -
  let ?b = "addr_at h (allocs h)" and ?bs = "addressed (pl_server_mbox p) dest bs"
  let ?h1 = "set_block a ?bs h"
  from assms(4,5) have bs: "21 \<le> length bs" "a \<noteq> nullptr" "msg_bytes_ok bs"
    "get32 8 bs AND ITC_FLAG_MESSAGE_IN_RX_QUEUE = 0"
    by (auto simp: msg_ok_def msg_bytes_ok_def)
  then have ok: "msg_ok ?h1 a" "block ?h1 a = Some ?bs"
    by (simp_all add: msg_ok_def heap_simps addressed_ok)
  have same: "addr_at ?h1 (allocs ?h1) = ?b" "junk ?h1 = junk h" "?b \<noteq> a"
    using assms(5,7) by (auto simp: set_block_def can_alloc_def)
  have "can_alloc ?h1 (29 + length ?bs)" using assms(5,7) by (simp add: can_alloc_set_block)
  from forward_sends [OF ok _ this, of w E p] assms(6) same obtain h2 where
    h2: "blocks h2 = (blocks ?h1)(?b \<mapsto> forward_request w ?bs (junk h))"
    "forwardMessageToItcServer E a w p ?h1 =
      and_then (platform_send E (CONVERT_TO_USER_MESSAGE ?b) (to_server p) p h2)
        (\<lambda>(rc, p, h). and_then (deallocate a h) (\<lambda>(_, h). Inr (rc, p, h)))"
    by auto
  have "platform_send E (CONVERT_TO_USER_MESSAGE ?b) (to_server p) p h2 = Inr (ITC_FAILED, p, h2)"
    using platform_send_self [OF assms(1)] assms(2) by (simp add: to_server_def)
  moreover have "msg_ok h2 a" using ok same h2(1) by (simp add: msg_ok_def)
  then have "deallocate a h2 = Inr (True, freed a h2)" by (rule deallocate_msg_ok)
  ultimately have "forwardMessageToItcServer E a w p ?h1 = Inr (ITC_FAILED, p, freed a h2)"
    using h2(2) by simp
  moreover have "deallocateMessage (CONVERT_TO_USER_MESSAGE a) (freed a h2) = Inl WildAccess"
    using bs(2) by (simp add: deallocateMessage_def deallocate_def read_field_def freed_def heap_simps)
  moreover have "block (freed a h2) ?b = Some (forward_request w ?bs (junk h))"
    using h2(1) same(3) by (simp add: freed_def)
  ultimately show ?thesis
    using platform_send_step [OF assms(1,5) _ _ refl, of dest w E] bs(1) assms(2,3)
      forward_request_holds [where bs = ?bs and w = w and g = "junk h"]
    by (intro exI conjI) simp_all
qed

theorem refused_forward_frees_message_witness:
  "\<exists>p h'. platform_send demo_plat_env 0x1010 \<lparr>mc_mailbox = 0x300001, mc_world = 5\<rparr> p (demo_msg_heap 0) =
      Inr (ITC_FAILED, p, h') \<and> deallocateMessage 0x1010 h' = Inl WildAccess"
proof -
  from demo_process obtain ct where ct: "list_ok ct" by blast
  let ?p = "(demo_platform ct)\<lparr>pl_server_mbox := mb_id (mbox_at 2 ct)\<rparr>"
  have p: "owns 2 ?p" "pl_server_mbox ?p = mb_id (mbox_at 2 (pl_mboxes ?p))"
    using demo_platform_owns [OF ct] by (simp_all add: owns_def demo_platform_def)
  have "can_alloc (demo_msg_heap 0) (29 + length (demo_msg 0))" "length (demo_msg 0) < 2 ^ 31"
    by (simp_all add: demo_msg_ok demo_msg_heap_def demo_heap_def can_alloc_def)
  moreover have "CONVERT_TO_USER_MESSAGE 0x1000 = 0x1010" by code_simp
  ultimately show ?thesis
    using refused_forward_frees_message [OF p _ demo_msg_block [where k = 0], where w = 5 and
      E = demo_plat_env and dest = "0x300001"] by auto
qed

text \<open>Null messages do not survive the conversion of addresses.\<close>

lemma null_messages_not_null:
  "sz < 4 \<Longrightarrow> allocateMessage no sz h = Inr (0x10, h)"
  "block h (- 16) = None \<Longrightarrow> deallocateMessage nullptr h = Inl WildAccess"
  "owns i p \<Longrightarrow> \<not> mb_active (mbox_at i (pl_mboxes p)) \<Longrightarrow> platform_receive mode p = Inr (0x10, p)"
proof -
  show "allocateMessage no sz h = Inr (0x10, h)" if "sz < 4"
    using that by (simp add: allocateMessage_def allocate_def CONVERT_TO_USER_MESSAGE_def itc_const)
  show "deallocateMessage nullptr h = Inl WildAccess" if "block h (- 16) = None"
    using that by (simp add: deallocateMessage_def deallocate_def CONVERT_TO_ADMIN_MESSAGE_def
        itc_const read_field_def heap_simps)
  show "platform_receive mode p = Inr (0x10, p)" if "owns i p" "\<not> mb_active (mbox_at i (pl_mboxes p))"
    using that owns_facts [OF that(1)] local_receive_pop [of "pl_mboxes p" i mode]
    by (simp add: platform_receive_def owns_def mailbox_inactive CONVERT_TO_USER_MESSAGE_def)
qed

end
