(* ===== verification/Platform_Mailboxes.thy ===== *)
theory Platform_Mailboxes
  imports Platform
begin

text \<open>
  Creating, deleting and locating mailboxes (\<open>itcPlatform.cc\<close>). These operations call members of
  the container and of the mailbox that this revision does not have; they are the parameter
  \<open>mbox_api\<close>. Requests to the itc-server are built in the heap field by field, with the layouts
  of \<open>itcSystemProto.h\<close>.
\<close>

section \<open>Parameters and layouts\<close>

record mbox_api =
  ma_emplace :: "string \<Rightarrow> u32 \<Rightarrow> mbox_list \<Rightarrow> u32 option \<times> mbox_list"
  ma_data :: "u32 \<Rightarrow> mbox_list \<Rightarrow> ptr"
  ma_find :: "string \<Rightarrow> mbox_list \<Rightarrow> ptr option"      \<comment> \<open>\<open>at\<close> with a name\<close>
  ma_remove :: "u32 \<Rightarrow> mbox_list \<Rightarrow> mbox_list"
  ma_exist :: "string \<Rightarrow> mbox_list \<Rightarrow> bool"
  ma_name :: "mailbox \<Rightarrow> string"
  ma_fd :: "mailbox \<Rightarrow> i32"                         \<comment> \<open>\<open>getMboxFd\<close>\<close>
  ma_mask_timeout :: u32                          \<comment> \<open>\<open>ITC_MASK_TIMEOUT\<close>\<close>
  ma_setspecific :: i32

definition NOTIFY_MBOX_REQUEST :: u32 where "NOTIFY_MBOX_REQUEST = 0x11"
definition LOCATE_MBOX_SYNC_REQUEST :: u32 where "LOCATE_MBOX_SYNC_REQUEST = 0x13"
definition LOCATE_MBOX_ASYNC_REQUEST :: u32 where "LOCATE_MBOX_ASYNC_REQUEST = 0x14"
definition LOCATE_MBOX_REPLY :: u32 where "LOCATE_MBOX_REPLY = 0x15"

datatype notify_field = NF_isCreation | NF_mboxId | NF_isExternal | NF_mboxName

fun notify_off :: "notify_field \<Rightarrow> nat" where
  "notify_off NF_isCreation = 4"
| "notify_off NF_mboxId = 8"
| "notify_off NF_isExternal = 12"
| "notify_off NF_mboxName = 16"

datatype sync_field = SF_mode | SF_name

fun sync_off :: "sync_field \<Rightarrow> nat" where
  "sync_off SF_mode = 4"
| "sync_off SF_name = 8"

datatype async_field = AF_mode | AF_replyImmediately | AF_mailboxId | AF_name

fun async_off :: "async_field \<Rightarrow> nat" where
  "async_off AF_mode = 4"
| "async_off AF_replyImmediately = 8"
| "async_off AF_mailboxId = 12"
| "async_off AF_name = 16"

datatype reply_field = RF_msgno | RF_mailboxId | RF_worldId

fun reply_off :: "reply_field \<Rightarrow> nat" where
  "reply_off RF_msgno = 0"
| "reply_off RF_mailboxId = 4"
| "reply_off RF_worldId = 8"

definition read_user :: "nat \<Rightarrow> ptr \<Rightarrow> heap \<Rightarrow> u32 res" where
  "read_user off msg = read32 (CONVERT_TO_ADMIN_MESSAGE msg) (field_off F_msgno + off)"

text \<open>\<open>strcpy\<close> from a string's \<open>c_str\<close>: up to and with the first zero byte.\<close>

definition c_str :: "string \<Rightarrow> u8 list" where
  "c_str name = takeWhile (\<lambda>b. b \<noteq> 0) (map of_char name) @ [0]"

definition cStrcpy :: "nat \<Rightarrow> ptr \<Rightarrow> string \<Rightarrow> heap \<Rightarrow> heap res" where
  "cStrcpy off msg name = copy_user msg off (c_str name)"

definition request_size :: "nat \<Rightarrow> string \<Rightarrow> u64" where
  "request_size off name = of_nat off + of_nat (length name) + 1"

definition contact_default :: contact_info where
  "contact_default = \<lparr>mc_mailbox = ITC_MAILBOX_ID_DEFAULT, mc_world = 0\<rparr>"

section \<open>Creating and deleting\<close>

text \<open>The request that tells the server of a creation (1) or a deletion (2).\<close>

definition notify_server ::
    "plat_env \<Rightarrow> u32 \<Rightarrow> u32 \<Rightarrow> u32 option \<Rightarrow> string \<Rightarrow> platform \<times> heap \<Rightarrow> (itc_code \<times> platform \<times> heap) res" where
  "notify_server E isCreation mboxId isExternal name = (\<lambda>(p, h).
     and_then (allocateMessage NOTIFY_MBOX_REQUEST (request_size (notify_off NF_mboxName) name) h) (\<lambda>(req, h).
     and_then (write_user (notify_off NF_isCreation) req isCreation h) (\<lambda>h.
     and_then (write_user (notify_off NF_mboxId) req mboxId h) (\<lambda>h.
     and_then (case isExternal of None \<Rightarrow> Inr h | Some b \<Rightarrow> write_user (notify_off NF_isExternal) req b h) (\<lambda>h.
     and_then (cStrcpy (notify_off NF_mboxName) req name h) (\<lambda>h.
     and_then (platform_send E req (to_server p) p h) (\<lambda>(rc, p, h).
       if rc \<noteq> ITC_OK
       then and_then (deallocateMessage req h) (\<lambda>(_, h). Inr (ITC_FAILED, p, h))
       else Inr (ITC_OK, p, h))))))))"

definition createMailbox ::
    "plat_env \<Rightarrow> mbox_api \<Rightarrow> string \<Rightarrow> u32 \<Rightarrow> platform \<times> heap \<Rightarrow> (u32 \<times> platform \<times> heap) res" where
  "createMailbox E A name flags = (\<lambda>(p, h).
     if \<not> pl_initialised p then Inr (ITC_MAILBOX_ID_DEFAULT, p, h)
     else if pl_my p \<noteq> nullptr
     then and_then (read_entry (pl_my p) (pl_mboxes p)) (\<lambda>me. Inr (mb_id me, p, h))
     else case ma_emplace A name flags (pl_mboxes p) of
            (None, ct) \<Rightarrow> Inr (ITC_MAILBOX_ID_DEFAULT, p\<lparr>pl_mboxes := ct\<rparr>, h)
          | (Some index, ct) \<Rightarrow>
              let ct = (case entry_index ct (ct_at index ct) of
                          None \<Rightarrow> ct
                        | Some i \<Rightarrow> ct\<lparr>ct_entries := (ct_entries ct)[i := (ct_entries ct ! i)
                                        \<lparr>mb_id := pl_region p OR (index AND ITC_MASK_UNIT_ID)\<rparr>]\<rparr>);
                  p = p\<lparr>pl_mboxes := ct, pl_my := ma_data A index ct\<rparr>
              in if ma_setspecific A \<noteq> 0 then Inr (ITC_MAILBOX_ID_DEFAULT, p, h)
                 else and_then (read_entry (pl_my p) (pl_mboxes p)) (\<lambda>me.
                   if pl_region p \<noteq> pl_server_mbox p OR ITC_MASK_REGION_ID
                   then and_then (notify_server E 1 (mb_id me)
                                    (Some (if flags AND ITC_FLAG_EXTERNAL_COMMUNICATION_NEEDED \<noteq> 0 then 1 else 0))
                                    name (p, h)) (\<lambda>(rc, p, h).
                          Inr (if rc \<noteq> ITC_OK then ITC_MAILBOX_ID_DEFAULT else mb_id me, p, h))
                   else Inr (mb_id me, p, h)))"

definition deleteMailbox ::
    "plat_env \<Rightarrow> mbox_api \<Rightarrow> u32 \<Rightarrow> platform \<times> heap \<Rightarrow> (itc_code \<times> platform \<times> heap) res" where
  "deleteMailbox E A mboxId = (\<lambda>(p, h).
     if \<not> pl_initialised p then Inr (ITC_FAILED, p, h)
     else and_then (read_entry (pl_my p) (pl_mboxes p)) (\<lambda>me.
       if mboxId \<noteq> mb_id me then Inr (ITC_FAILED, p, h)
       else let mboxName = ma_name A me;
                p = p\<lparr>pl_mboxes := ma_remove A (mboxId AND ITC_MASK_UNIT_ID) (pl_mboxes p)\<rparr>
            in if pl_region p \<noteq> pl_server_mbox p OR ITC_MASK_REGION_ID
               then and_then (read_entry (pl_my p) (pl_mboxes p)) (\<lambda>me.
                    and_then (notify_server E 2 (mb_id me) None mboxName (p, h)) (\<lambda>(rc, p, h).
                      if rc \<noteq> ITC_OK then Inr (ITC_FAILED, p, h)
                      else Inr (ITC_OK, p\<lparr>pl_my := nullptr\<rparr>, h)))
               else Inr (ITC_OK, p\<lparr>pl_my := nullptr\<rparr>, h)))"

definition destructMailboxAtThreadExit ::
    "plat_env \<Rightarrow> mbox_api \<Rightarrow> ptr \<Rightarrow> platform \<times> heap \<Rightarrow> (platform \<times> heap) res" where
  "destructMailboxAtThreadExit E A myMbox = (\<lambda>(p, h).
     and_then (read_entry myMbox (pl_mboxes p)) (\<lambda>m.
       if ma_exist A (ma_name A m) (pl_mboxes p)
       then and_then (deleteMailbox E A (mb_id m) (p, h)) (\<lambda>(_, p, h). Inr (p, h))
       else Inr (p, h)))"

definition myMailboxFd :: "mbox_api \<Rightarrow> platform \<Rightarrow> i32 res" where
  "myMailboxFd A p =
     (if pl_my p \<noteq> nullptr then and_then (read_entry (pl_my p) (pl_mboxes p)) (\<lambda>me. Inr (ma_fd A me))
      else Inr (- 1))"

definition getMailboxName :: "mbox_api \<Rightarrow> u32 \<Rightarrow> platform \<Rightarrow> string res" where
  "getMailboxName A mboxId p =
     (if pl_my p \<noteq> nullptr then and_then (read_entry (pl_my p) (pl_mboxes p)) (\<lambda>me. Inr (ma_name A me))
      else Inr [])"

section \<open>Locating\<close>

definition read_reply :: "ptr \<Rightarrow> heap \<Rightarrow> contact_info res" where
  "read_reply rep h =
     and_then (read_user (reply_off RF_msgno) rep h) (\<lambda>no.
       if no \<noteq> LOCATE_MBOX_REPLY then Inr contact_default
       else and_then (read_user (reply_off RF_mailboxId) rep h) (\<lambda>mid.
            and_then (read_user (reply_off RF_worldId) rep h) (\<lambda>wid.
              Inr \<lparr>mc_mailbox = mid, mc_world = wid\<rparr>)))"

definition ask_server ::
    "plat_env \<Rightarrow> mbox_api \<Rightarrow> string \<Rightarrow> u32 \<Rightarrow> u32 \<Rightarrow> platform \<times> heap \<Rightarrow> (contact_info \<times> platform \<times> heap) res" where
  "ask_server E A mboxName mode locateMode = (\<lambda>(p, h).
     and_then (allocateMessage LOCATE_MBOX_SYNC_REQUEST (request_size (sync_off SF_name) mboxName) h) (\<lambda>(req, h).
     and_then (write_user (sync_off SF_mode) req locateMode h) (\<lambda>h.
     and_then (cStrcpy (sync_off SF_name) req mboxName h) (\<lambda>h.
     and_then (platform_send E req (to_server p) p h) (\<lambda>(rc, p, h).
     and_then (deallocateMessage req h) (\<lambda>(_, h).
       if rc \<noteq> ITC_OK then Inr (contact_default, p, h)
       else and_then (platform_receive (mode AND ma_mask_timeout A) p) (\<lambda>(rep, p).
              if rep = nullptr then Inr (contact_default, p, h)
              else and_then (read_reply rep h) (\<lambda>info. Inr (info, p, h)))))))))"

definition locateMailboxSync ::
    "plat_env \<Rightarrow> mbox_api \<Rightarrow> string \<Rightarrow> u32 \<Rightarrow> platform \<times> heap \<Rightarrow> (contact_info \<times> platform \<times> heap) res" where
  "locateMailboxSync E A mboxName mode = (\<lambda>(p, h).
     if \<not> pl_initialised p \<or> pl_my p = nullptr then Inr (contact_default, p, h)
     else let locateMode = mode AND ITC_MASK_LOCATE
          in case (if locateMode AND ITC_MODE_LOCATE_IN_REGION \<noteq> 0 then ma_find A mboxName (pl_mboxes p) else None) of
               Some m \<Rightarrow> and_then (read_entry m (pl_mboxes p)) (\<lambda>m.
                           Inr (contact_default\<lparr>mc_mailbox := mb_id m\<rparr>, p, h))
             | None \<Rightarrow>
                 if locateMode AND ITC_MODE_LOCATE_IN_WORLD = 0 \<and> locateMode AND ITC_MODE_LOCATE_IN_UNIVERSE = 0
                 then Inr (contact_default, p, h)
                 else ask_server E A mboxName mode locateMode (p, h))"

definition locateMailboxAsync ::
    "plat_env \<Rightarrow> mbox_api \<Rightarrow> string \<Rightarrow> u32 \<Rightarrow> platform \<times> heap \<Rightarrow> (itc_code \<times> platform \<times> heap) res" where
  "locateMailboxAsync E A mboxName mode = (\<lambda>(p, h).
     if \<not> pl_initialised p \<or> pl_my p = nullptr then Inr (ITC_FAILED, p, h)
     else let locateMode = mode AND ITC_MASK_LOCATE
          in and_then (allocateMessage LOCATE_MBOX_ASYNC_REQUEST (request_size (async_off AF_name) mboxName) h) (\<lambda>(req, h).
             and_then (write_user (async_off AF_mode) req locateMode h) (\<lambda>h.
             and_then (cStrcpy (async_off AF_name) req mboxName h) (\<lambda>h.
             and_then (case ma_find A mboxName (pl_mboxes p) of
                         None \<Rightarrow> Inr h
                       | Some m \<Rightarrow> and_then (read_entry m (pl_mboxes p)) (\<lambda>m.
                                   and_then (write_user (async_off AF_replyImmediately) req 1 h) (\<lambda>h.
                                     write_user (async_off AF_mailboxId) req (mb_id m) h))) (\<lambda>h.
             and_then (platform_send E req (to_server p) p h) (\<lambda>(rc, p, h).
             and_then (deallocateMessage req h) (\<lambda>(_, h). Inr (rc, p, h))))))))"

section \<open>Requests to the server\<close>

lemma length_c_str: "length (c_str name) \<le> length name + 1"
  by (simp add: c_str_def) (metis length_map length_takeWhile_le)

text \<open>A string in the request overwrites the bytes from \<open>off\<close> on; what is before stays, the endpoint too.\<close>

definition with_string :: "nat \<Rightarrow> string \<Rightarrow> u8 list \<Rightarrow> u8 list" where
  "with_string off name b = take off b @ c_str name @ drop (off + length (c_str name)) b"

lemma with_string_simps [simp]:
  assumes "off + length (c_str name) \<le> length b"
  shows "length (with_string off name b) = length b"
    "k + 4 \<le> off \<Longrightarrow> get32 k (with_string off name b) = get32 k b"
    "take (length (c_str name)) (drop off (with_string off name b)) = c_str name"
  using assms by (simp_all add: with_string_def get32_append get32_take_head)

lemma with_string_ok:
  assumes "msg_bytes_ok b" "16 \<le> off" "off + length (c_str name) < length b"
  shows "msg_bytes_ok (with_string off name b)"
proof -
  have "last (with_string off name b) = last b"
    using assms(3) by (simp add: with_string_def last_append last_drop)
  with assms show ?thesis by (simp add: msg_bytes_ok_def)
qed

lemma cStrcpy_block:
  assumes "block h b = Some bs" "16 + off + length (c_str name) \<le> length bs"
  shows "cStrcpy off (CONVERT_TO_USER_MESSAGE b) name h = Inr (set_block b (with_string (16 + off) name bs) h)"
  using assms by (simp add: cStrcpy_def copy_user_def Let_def with_block_def with_string_def)

lemma msg_bytes_ok_put_payload:
  assumes "msg_bytes_ok bs" "16 \<le> off" "off + 4 < length bs"
  shows "msg_bytes_ok (put32 off w bs)"
proof -
  have "bs \<noteq> []" "put32 off w bs \<noteq> []" using assms(1) by (auto simp: msg_bytes_ok_def simp flip: length_greater_0_conv)
  moreover have "put32 off w bs ! (length bs - 1) = bs ! (length bs - 1)"
    using assms(3) by (intro nth_put32_other) auto
  ultimately have "last (put32 off w bs) = last bs" by (simp add: last_conv_nth)
  with assms show ?thesis by (simp add: msg_bytes_ok_def)
qed

text \<open>The bytes of the three requests.\<close>

definition notify_request :: "u32 \<Rightarrow> u32 \<Rightarrow> u32 option \<Rightarrow> string \<Rightarrow> (nat \<Rightarrow> u8) \<Rightarrow> u8 list" where
  "notify_request c mid ext name g =
     (let b = put32 24 mid (put32 20 c (fresh_bytes NOTIFY_MBOX_REQUEST (17 + length name) g));
          b = (case ext of None \<Rightarrow> b | Some e \<Rightarrow> put32 28 e b)
      in with_string 32 name b)"

lemma notify_request_holds:
  "length (notify_request c mid ext name g) = 34 + length name"
  "get32 16 (notify_request c mid ext name g) = NOTIFY_MBOX_REQUEST"
  "get32 20 (notify_request c mid ext name g) = c" "get32 24 (notify_request c mid ext name g) = mid"
  "get32 28 (notify_request c mid (Some e) name g) = e"
  "take (length (c_str name)) (drop 32 (notify_request c mid ext name g)) = c_str name"
  "length name < 2 ^ 30 \<Longrightarrow> msg_bytes_ok (notify_request c mid ext name g)"
  "get32 8 (notify_request c mid ext name g) = 0"
  using length_c_str [of name]
  by (auto simp: notify_request_def Let_def itc_const msg_bytes_ok_fresh msg_bytes_ok_put_payload
      intro!: with_string_ok split: option.splits)

text \<open>Room for a block of \<open>m\<close> bytes and then for another of \<open>n\<close>.\<close>

definition two_blocks :: "heap \<Rightarrow> nat \<Rightarrow> nat \<Rightarrow> bool" where
  "two_blocks h m n \<longleftrightarrow> can_alloc h m \<and> can_alloc (h\<lparr>allocs := allocs h + 1\<rparr>) n \<and>
     addr_at h (allocs h + 1) \<noteq> addr_at h (allocs h)"

lemma two_blocks_next:
  assumes "two_blocks h m n" "blocks h' = (blocks h)(addr_at h (allocs h) \<mapsto> bs)"
    "allocs h' = allocs h + 1" "addr_at h' = addr_at h"
  shows "can_alloc h' n"
  using assms by (auto simp: two_blocks_def can_alloc_def)

lemma alasync_request:
  assumes "4 \<le> off" "can_alloc h (18 + off + length name)" "b = addr_at h (allocs h)"
  shows "allocateMessage no (request_size off name) h = Inr (CONVERT_TO_USER_MESSAGE b,
     set_block b (fresh_bytes no (off + length name + 1) (junk h)) (h\<lparr>allocs := allocs h + 1\<rparr>))"
proof -
  have sz: "request_size off name = of_nat (off + length name + 1)" by (simp add: request_size_def)
  have "can_alloc h (17 + (off + length name + 1))" using assms(2) by (simp add: ac_simps)
  from allocate_bytes [OF _ this] assms(1,3) show ?thesis
    unfolding sz by (simp add: allocateMessage_def set_block_def del: of_nat_add of_nat_Suc)
qed

lemma write_user_block:
  assumes "block h a = Some bs" "20 + off \<le> length bs"
  shows "write_user off (CONVERT_TO_USER_MESSAGE a) w h = Inr (set_block a (put32 (16 + off) w bs) h)"
  using assms by (simp add: write_user_def write32_block)

lemmas user_writes = alasync_request write_user_block cStrcpy_block blocks_set_block set_block_set_block

lemma addressed_drop: "8 \<le> n \<Longrightarrow> drop n (addressed sender dest bs) = drop n bs"
  by (simp add: addressed_def put32_def)

lemma notify_sends:
  assumes "can_alloc h (34 + length name)" "b = addr_at h (allocs h)"
    and "h' = set_block b (notify_request c mid ext name (junk h)) (h\<lparr>allocs := allocs h + 1\<rparr>)"
  shows "notify_server E c mid ext name (p, h) =
      and_then (platform_send E (CONVERT_TO_USER_MESSAGE b) (to_server p) p h') (\<lambda>(rc, p, h).
        if rc \<noteq> ITC_OK
        then and_then (deallocateMessage (CONVERT_TO_USER_MESSAGE b) h) (\<lambda>(_, h). Inr (ITC_FAILED, p, h))
        else Inr (ITC_OK, p, h))"
  using assms(1) length_c_str [of name] unfolding assms(2,3)
  by (cases ext) (simp_all add: notify_server_def user_writes notify_request_def Let_def)

section \<open>What creating and deleting do\<close>

text \<open>A new mailbox at index \<open>i\<close>: the emplace succeeds and \<open>data\<close> gives the address of the entry.\<close>

definition emplaces :: "mbox_api \<Rightarrow> string \<Rightarrow> u32 \<Rightarrow> mbox_list \<Rightarrow> nat \<Rightarrow> mbox_list \<Rightarrow> bool" where
  "emplaces A name flags ct0 i ct \<longleftrightarrow> ma_emplace A name flags ct0 = (Some (of_nat i), ct) \<and>
     list_ok ct \<and> i < 1024 \<and> (\<forall>ct. ma_data A (of_nat i) ct = ct_at (of_nat i) ct)"

definition with_new :: "u32 \<Rightarrow> nat \<Rightarrow> mbox_list \<Rightarrow> platform \<Rightarrow> platform" where
  "with_new mid i ct p = p\<lparr>pl_mboxes := set_mbox i ((mbox_at i ct)\<lparr>mb_id := mid\<rparr>) ct,
     pl_my := ct_at (of_nat i) ct\<rparr>"

lemma with_new_simps [simp]:
  "pl_region (with_new mid i ct p) = pl_region p" "pl_server_mbox (with_new mid i ct p) = pl_server_mbox p"
  "pl_sysv (with_new mid i ct p) = pl_sysv p" "pl_my (with_new mid i ct p) = ct_at (of_nat i) ct"
  "kernel_ok E (with_new mid i ct p) dest \<longleftrightarrow> kernel_ok E p dest"
  by (simp_all add: with_new_def kernel_ok_def)

lemma owns_with_new:
  assumes "pl_initialised p" "list_ok ct" "i < 1024"
  shows "owns i (with_new mid i ct p)" "mb_id (mbox_at i (pl_mboxes (with_new mid i ct p))) = mid"
  using assms by (simp_all add: owns_def with_new_def)

text \<open>The comparison meant to spare the server a request to itself joins the masks where it should cut
  the region out: it holds for every process, the server too.\<close>

definition ids_ok :: "platform \<Rightarrow> bool" where
  "ids_ok p \<longleftrightarrow> unit_of (pl_region p) = 0 \<and> unit_of (pl_server_mbox p) \<noteq> 0"

lemma region_guard:
  assumes "ids_ok p"
  shows "pl_region p \<noteq> pl_server_mbox p OR ITC_MASK_REGION_ID"
proof
  assume r: "pl_region p = pl_server_mbox p OR ITC_MASK_REGION_ID"
  have "unit_of (pl_server_mbox p OR ITC_MASK_REGION_ID) = unit_of (pl_server_mbox p) OR unit_of ITC_MASK_REGION_ID"
    by (rule bit.conj_disj_distrib2)
  moreover have "unit_of ITC_MASK_REGION_ID = 0" by (simp add: itc_const)
  ultimately show False using assms r by (simp add: ids_ok_def)
qed

lemma create_mailbox_step:
  assumes "pl_initialised p" "pl_my p = nullptr" "emplaces A name flags (pl_mboxes p) i ct"
    and "ma_setspecific A = 0" "mid = pl_region p OR of_nat i"
    and "ids_ok p"
  shows "createMailbox E A name flags (p, h) =
    and_then (notify_server E 1 mid (Some (flags AND ITC_FLAG_EXTERNAL_COMMUNICATION_NEEDED)) name
        (with_new mid i ct p, h))
      (\<lambda>(rc, p, h). Inr (if rc \<noteq> ITC_OK then ITC_MAILBOX_ID_DEFAULT else mid, p, h))"
proof -
  from assms(3) have e: "ma_emplace A name flags (pl_mboxes p) = (Some (of_nat i), ct)" "list_ok ct"
    "i < 1024" "\<And>ct. ma_data A (of_nat i) ct = ct_at (of_nat i) ct" by (simp_all add: emplaces_def)
  have ext: "(if flags AND ITC_FLAG_EXTERNAL_COMMUNICATION_NEEDED \<noteq> 0 then 1 else 0) =
      flags AND ITC_FLAG_EXTERNAL_COMMUNICATION_NEEDED"
    by (simp add: itc_const and_one_eq) 
  have set: "ct\<lparr>ct_entries := (ct_entries ct)[i := (ct_entries ct ! i)\<lparr>mb_id := mid\<rparr>]\<rparr> =
      set_mbox i ((mbox_at i ct)\<lparr>mb_id := mid\<rparr>) ct"
    by (simp add: set_mbox_def mbox_at_def)
  have new: "p\<lparr>pl_mboxes := set_mbox i ((mbox_at i ct)\<lparr>mb_id := mid\<rparr>) ct,
      pl_my := ct_at (of_nat i) ct\<rparr> = with_new mid i ct p"
    by (simp add: with_new_def)
  have entry: "read_entry (ct_at (of_nat i) ct) (set_mbox i ((mbox_at i ct)\<lparr>mb_id := mid\<rparr>) ct) =
      Inr ((mbox_at i ct)\<lparr>mb_id := mid\<rparr>)"
    using owns_facts(3) [OF owns_with_new(1) [OF assms(1) e(2,3), of mid]] e(2,3)
    by (simp add: with_new_def)
  show ?thesis
    using list_entry(1) [OF e(2,3)] assms(1,2,4) region_guard [OF assms(6)]
    by (simp add: createMailbox_def e(1,4) Let_def ext unit_of_index [OF e(3)] assms(5) [symmetric] set new entry
        cong: if_cong)
qed

text \<open>A container that gives out entry 3 next and knows no names.\<close>

definition demo_api :: mbox_api where
  "demo_api = \<lparr>ma_emplace = (\<lambda>_ _ ct. (Some 3, ct)), ma_data = ct_at, ma_find = (\<lambda>_ _. None),
     ma_remove = (\<lambda>_ ct. ct), ma_exist = (\<lambda>_ _. True), ma_name = (\<lambda>_. ''m''), ma_fd = (\<lambda>_. 5),
     ma_mask_timeout = 0, ma_setspecific = 0\<rparr>"

lemma demo_two_blocks: "m < 2 ^ 32 \<Longrightarrow> n < 2 ^ 32 \<Longrightarrow> two_blocks demo_heap m n"
  by (simp add: two_blocks_def demo_heap_def can_alloc_def)

lemma demo_kernel:
  assumes "pl_sysv p = demo_sysv" "pl_region p = 0x100000"
  shows "kernel_ok demo_plat_env p 0x200001" "peer_queue (pe_sys demo_plat_env) 1 0x200001 5 (pl_sysv p)"
proof -
  have "region_of 0x200001 \<noteq> (0x100000 :: u32)" "peer_region 0x200001 = 2" by code_simp+
  then show "kernel_ok demo_plat_env p 0x200001" using assms by (simp add: kernel_ok_def)
  have "pe_sys demo_plat_env = demo_env" by (simp add: demo_plat_env_def)
  with \<open>peer_region 0x200001 = 2\<close> assms(1) show "peer_queue (pe_sys demo_plat_env) 1 0x200001 5 (pl_sysv p)"
    by (auto intro: demo_peer_queue simp del: One_nat_def)
qed

text \<open>The server cannot create its own mailbox: as the comparison with its region never holds, it
  sends the request to itself, which send refuses, so createMailbox returns the default id and
  no request is left; yet the mailbox stays in the container and the thread owns it, and
  asking again returns the id.\<close>

lemma server_creation_fails:
  assumes "pl_initialised p" "pl_my p = nullptr" "emplaces A name flags (pl_mboxes p) i ct"
    and "ma_setspecific A = 0" "pl_server_mbox p = pl_region p OR of_nat i" "ids_ok p"
    and "length name < 2 ^ 30" "can_alloc h (34 + length name)"
  shows "\<exists>p' h'. createMailbox E A name flags (p, h) = Inr (ITC_MAILBOX_ID_DEFAULT, p', h') \<and>
    pl_my p' = ct_at (of_nat i) ct \<and> blocks h' = blocks h \<and>
    createMailbox E A name flags (p', h') = Inr (pl_server_mbox p, p', h')"
proof -
  let ?p = "with_new (pl_server_mbox p) i ct p" and ?b = "addr_at h (allocs h)"
  let ?r = "notify_request 1 (pl_server_mbox p) (Some (flags AND ITC_FLAG_EXTERNAL_COMMUNICATION_NEEDED)) name (junk h)"
  let ?h = "set_block ?b ?r (h\<lparr>allocs := allocs h + 1\<rparr>)"
  from assms(3) have e: "list_ok ct" "i < 1024" by (simp_all add: emplaces_def)
  note own = owns_with_new [OF assms(1) e, of "pl_server_mbox p"]
  have b: "?b \<noteq> nullptr" "block h ?b = None" using assms(8) by (simp_all add: can_alloc_def)
  have "msg_ok ?h ?b"
    using b assms(7) by (simp add: msg_ok_def heap_simps notify_request_holds itc_const)
  then have "deallocateMessage (CONVERT_TO_USER_MESSAGE ?b) ?h = Inr (ITC_OK, freed ?b ?h)"
    by (simp add: deallocateMessage_def deallocate_msg_ok)
  moreover have "platform_send E (CONVERT_TO_USER_MESSAGE ?b) (to_server ?p) ?p ?h = Inr (ITC_FAILED, ?p, ?h)"
    using platform_send_self [OF own(1)] own(2) by (simp add: to_server_def)
  moreover have "blocks (freed ?b ?h) = blocks h" using b by (auto simp: freed_def heap_simps)
  moreover have "createMailbox E A name flags (?p, freed ?b ?h) = Inr (pl_server_mbox p, ?p, freed ?b ?h)"
    using owns_facts [OF own(1)] own(2) by (simp add: createMailbox_def)
  ultimately show ?thesis
    using create_mailbox_step [OF assms(1-6), of E h]
      notify_sends [OF assms(8) refl refl, of E 1 "pl_server_mbox p" _ ?p]
    by (intro exI [of _ ?p] exI [of _ "freed ?b ?h"]) simp
qed

lemma server_creation_fails_witness:
  "\<exists>p p' h'. createMailbox demo_plat_env demo_api ''server'' 0 (p, demo_heap) =
     Inr (ITC_MAILBOX_ID_DEFAULT, p', h') \<and> pl_my p' \<noteq> nullptr"
proof -
  from demo_process obtain ct where ct: "list_ok ct" by blast
  let ?p = "(demo_platform ct)\<lparr>pl_my := nullptr, pl_server_mbox := 0x100003\<rparr>"
  have p: "pl_initialised ?p" "pl_my ?p = nullptr" "pl_region ?p = 0x100000"
    "pl_server_mbox ?p = 0x100003" "pl_mboxes ?p = ct" by (simp_all add: demo_platform_def)
  have e: "emplaces demo_api ''server'' 0 (pl_mboxes ?p) 3 ct" "ma_setspecific demo_api = 0"
    using ct p(5) by (simp_all add: emplaces_def demo_api_def)
  have "ids_ok ?p" "pl_server_mbox ?p = pl_region ?p OR of_nat 3"
    using p(3,4) by (simp_all add: ids_ok_def itc_const)
  from server_creation_fails [OF p(1,2) e this(2,1) _ demo_can_alloc, of demo_plat_env]
  obtain p' h' where "createMailbox demo_plat_env demo_api ''server'' 0 (?p, demo_heap) =
      Inr (ITC_MAILBOX_ID_DEFAULT, p', h')" "pl_my p' = ct_at (of_nat 3) ct" by auto
  then show ?thesis using list_entry(2) [OF ct, of 3]
    by (intro exI [of _ ?p] exI [of _ p'] exI [of _ h']) simp
qed

section \<open>What locating does\<close>

lemma locate_mask:
  "(mode AND ITC_MASK_LOCATE) AND ITC_MODE_LOCATE_IN_REGION = 0"
  "(mode AND ITC_MASK_LOCATE) AND ITC_MODE_LOCATE_IN_WORLD = 0"
  "(mode AND ITC_MASK_LOCATE) AND ITC_MODE_LOCATE_IN_UNIVERSE = 0"
  by (simp_all add: itc_const and.assoc)

text \<open>Locating a mailbox synchronously finds nothing, whatever the name, the mode and the mailboxes
  there are: the mask for the mode is written 0x1110 where the modes are the bits of binary
  1110, so none of the three modes is ever seen; the result is the default contact, and
  neither the platform nor the heap changes.\<close>

theorem locate_finds_nothing:
  "locateMailboxSync E A mboxName mode (p, h) = Inr (contact_default, p, h)"
  by (simp add: locateMailboxSync_def Let_def locate_mask)

text \<open>The asynchronous request, when the name is not known in the process.\<close>

definition async_request :: "u32 \<Rightarrow> string \<Rightarrow> (nat \<Rightarrow> u8) \<Rightarrow> u8 list" where
  "async_request mode name g =
     with_string 32 name (put32 20 (mode AND ITC_MASK_LOCATE) (fresh_bytes LOCATE_MBOX_ASYNC_REQUEST (17 + length name) g))"

lemma async_request_holds:
  "length (async_request mode name g) = 34 + length name"
  "get32 16 (async_request mode name g) = LOCATE_MBOX_ASYNC_REQUEST"
  "get32 28 (async_request mode name g) = get32 28 (fresh_bytes LOCATE_MBOX_ASYNC_REQUEST (17 + length name) g)"
  "take (length (c_str name)) (drop 32 (async_request mode name g)) = c_str name"
  "length name < 2 ^ 30 \<Longrightarrow> msg_bytes_ok (async_request mode name g)"
  "get32 8 (async_request mode name g) = 0"
  using length_c_str [of name]
  by (auto simp: async_request_def itc_const msg_bytes_ok_fresh msg_bytes_ok_put_payload intro!: with_string_ok)

text \<open>Locating asynchronously uses a message after it is freed: when the server's queue takes the
  request, sending has freed it, and locateMailboxAsync frees it again, reading its header in
  a dead block. The request has gone to the server by then.\<close>

lemma locate_async_uses_freed_message:
  assumes "owns i p" "ma_find A name (pl_mboxes p) = None" "pl_server_mbox p \<noteq> mb_id (mbox_at i (pl_mboxes p))"
    and "kernel_ok E p (pl_server_mbox p)" "peer_queue (pe_sys E) T (pl_server_mbox p) Q (pl_sysv p)"
    and "length name < 2 ^ 30" "two_blocks h (34 + length name) (42 + length name)"
  shows "locateMailboxAsync E A name mode (p, h) = Inl WildAccess"
proof -
  let ?b = "addr_at h (allocs h)" and ?r = "async_request mode name (junk h)"
  let ?h = "set_block ?b ?r (h\<lparr>allocs := allocs h + 1\<rparr>)"
  have room: "can_alloc h (34 + length name)" using assms(7) by (simp add: two_blocks_def)
  then have b: "?b \<noteq> nullptr" "block h ?b = None" by (simp_all add: can_alloc_def)
  have "can_alloc ?h (8 + length ?r)"
    using two_blocks_next [OF assms(7), of ?h ?r]
    by (simp add: heap_simps async_request_holds) (simp add: set_block_def)
  moreover have "msg_ok ?h ?b"
    using b assms(6) by (simp add: msg_ok_def heap_simps async_request_holds itc_const)
  ultimately obtain s' h' where
    "platform_send E (CONVERT_TO_USER_MESSAGE ?b) (to_server p) p ?h = Inr (ITC_OK, p\<lparr>pl_sysv := s'\<rparr>, h')"
    "sv_sent s' = sv_sent (pl_sysv p) @ [(Q, addressed (mb_id (mbox_at i (pl_mboxes p))) (pl_server_mbox p) ?r)]"
    "blocks h' = (blocks ?h)(?b := None)"
    using kernel_send [OF assms(1,4,5), of ?h ?b ?r] assms(3,6)
    by (auto simp: heap_simps async_request_holds to_server_def)
  moreover from this(3) b(1) have "deallocateMessage (CONVERT_TO_USER_MESSAGE ?b) h' = Inl WildAccess"
    by (simp add: deallocateMessage_def deallocate_def read_field_def heap_simps)
  ultimately show ?thesis
    using owns_facts [OF assms(1)] assms(2) room length_c_str [of name]
    by (simp add: locateMailboxAsync_def Let_def user_writes async_request_def)
qed

lemma locate_async_uses_freed_message_witness:
  "\<exists>p. locateMailboxAsync demo_plat_env demo_api ''peer'' ITC_MODE_LOCATE_IN_ALL (p, demo_heap) = Inl WildAccess"
proof -
  from demo_process obtain ct where ct: "list_ok ct" "mb_id (mbox_at 2 ct) = ITC_MAILBOX_ID_DEFAULT" by blast
  let ?p = "demo_platform ct"
  have p: "pl_sysv ?p = demo_sysv" "pl_region ?p = 0x100000" "pl_server_mbox ?p = 0x200001" "pl_mboxes ?p = ct"
    by (simp_all add: demo_platform_def)
  have "kernel_ok demo_plat_env ?p (pl_server_mbox ?p)" using demo_kernel(1) [OF p(1,2)] p(3) by simp
  moreover have "pl_server_mbox ?p \<noteq> mb_id (mbox_at 2 (pl_mboxes ?p))" using ct(2) p(3,4) by (simp add: itc_const)
  moreover have "ma_find demo_api ''peer'' (pl_mboxes ?p) = None" by (simp add: demo_api_def)
  moreover have "two_blocks demo_heap (34 + length ''peer'') (42 + length ''peer'')" by (rule demo_two_blocks) simp_all
  ultimately have "locateMailboxAsync demo_plat_env demo_api ''peer'' ITC_MODE_LOCATE_IN_ALL (?p, demo_heap) = Inl WildAccess"
    using demo_kernel(2) [OF p(1,2)] p(3)
    by (intro locate_async_uses_freed_message [OF demo_platform_owns [OF ct(1)]]) simp_all
  then show ?thesis by blast
qed

section \<open>The initialised flag\<close>

text \<open>What the threads of a process do with the platform, in any order: the operations of the API that
  change something, the destructor of a thread's mailbox, and \<open>other\<close>: another thread takes over,
  with whatever mailbox pointer it has, or a component that the platform owns (the mailboxes, a
  transport, the threads) or the heap has been changed by other code.\<close>

inductive platform_step ::
    "plat_env \<Rightarrow> mbox_api \<Rightarrow> platform \<times> heap \<Rightarrow> platform \<times> heap \<Rightarrow> bool" for E A where
  init: "platform_initialise E flags p = Inr (rc, p') \<Longrightarrow> platform_step E A (p, h) (p', h)"
| release: "platform_release E p = Inr (rc, p') \<Longrightarrow> platform_step E A (p, h) (p', h)"
| send: "platform_send E msg to p h = Inr (rc, p', h') \<Longrightarrow> platform_step E A (p, h) (p', h')"
| receive: "platform_receive mode p = Inr (msg, p') \<Longrightarrow> platform_step E A (p, h) (p', h)"
| create: "createMailbox E A name flags (p, h) = Inr (mid, p', h') \<Longrightarrow> platform_step E A (p, h) (p', h')"
| delete: "deleteMailbox E A mid (p, h) = Inr (rc, p', h') \<Longrightarrow> platform_step E A (p, h) (p', h')"
| thread_exit: "destructMailboxAtThreadExit E A m (p, h) = Inr (p', h') \<Longrightarrow> platform_step E A (p, h) (p', h')"
| locate_sync: "locateMailboxSync E A name mode (p, h) = Inr (info, p', h') \<Longrightarrow>
    platform_step E A (p, h) (p', h')"
| locate_async: "locateMailboxAsync E A name mode (p, h) = Inr (rc, p', h') \<Longrightarrow>
    platform_step E A (p, h) (p', h')"
| other: "platform_step E A (p, h)
    (p\<lparr>pl_my := m, pl_mboxes := ct, pl_lsock := ls, pl_sysv := sv, pl_threads := tm\<rparr>, h')"

inductive_cases platform_stepE: "platform_step E A s s'"

lemma uninitialised_mailboxes:
  assumes "\<not> pl_initialised p"
  shows "createMailbox E A name flags (p, h) = Inr (ITC_MAILBOX_ID_DEFAULT, p, h)"
    "deleteMailbox E A mid (p, h) = Inr (ITC_FAILED, p, h)"
    "locateMailboxSync E A name mode (p, h) = Inr (contact_default, p, h)"
    "locateMailboxAsync E A name mode (p, h) = Inr (ITC_FAILED, p, h)"
    "destructMailboxAtThreadExit E A m (p, h) = Inr (p', h') \<Longrightarrow> \<not> pl_initialised p'"
  using assms
  by (auto simp: createMailbox_def deleteMailbox_def locateMailboxSync_def locateMailboxAsync_def
      destructMailboxAtThreadExit_def and_then_Inr_iff split: if_splits)

text \<open>C23: The platform never becomes usable: no operation sets the initialised flag, so from a new
  platform, whatever is called in whatever order, by whatever threads, and whatever initialise
  returned, every operation refuses and changes nothing: sending and both ways of locating
  fail, receiving returns null, no mailbox can be created or deleted, and release reports
  success without releasing anything.\<close>

theorem platform_never_initialised:
  assumes "platform_new base fs = Inr p" "(platform_step E A)\<^sup>*\<^sup>* (p, h) (p', h')"
  shows "platform_send E msg to p' h' = Inr (ITC_FAILED, p', h') \<and>
    platform_receive mode p' = Inr (nullptr, p') \<and> platform_release E p' = Inr (ITC_OK, p') \<and>
    createMailbox E A name flags (p', h') = Inr (ITC_MAILBOX_ID_DEFAULT, p', h') \<and>
    deleteMailbox E A mid (p', h') = Inr (ITC_FAILED, p', h') \<and>
    locateMailboxSync E A name mode (p', h') = Inr (contact_default, p', h') \<and>
    locateMailboxAsync E A name mode (p', h') = Inr (ITC_FAILED, p', h')"
proof -
  have "\<not> pl_initialised (fst s')" if "(platform_step E A)\<^sup>*\<^sup>* s s'" "\<not> pl_initialised (fst s)" for s s'
    using that
  proof (induction rule: rtranclp_induct)
    case (step s s')
    then show ?case
      by (auto elim!: platform_stepE simp: uninitialised_refuses uninitialised_mailboxes(1-4)
          dest: initialise_keeps_flag uninitialised_mailboxes(5))
  qed
  moreover have "\<not> pl_initialised p" using assms(1) by (auto simp: platform_new_def and_then_Inr_iff)
  ultimately have "\<not> pl_initialised p'" using assms(2) by fastforce
  then show ?thesis by (simp add: uninitialised_refuses uninitialised_mailboxes)
qed

theorem platform_never_initialised_witness:
  "\<exists>p p'. platform_new 0x100000 demo_files = Inr p \<and>
     platform_initialise demo_plat_env 0 p = Inr (ITC_OK, p') \<and>
     platform_send demo_plat_env 0x1010 \<lparr>mc_mailbox = 0x100001, mc_world = 0\<rparr> p' demo_heap =
       Inr (ITC_FAILED, p', demo_heap)"
proof -
  have "place_ok 1024 0x100000" by (simp add: place_ok_def)
  from container_new_inv [OF this, of "\<lambda>index. (mbox_new ITC_FLAG_DEFAULT)
       \<lparr>mb_id := push_bit ITC_REGION_ID_SHIFT ITC_MAILBOX_ID_DEFAULT OR unit_of index\<rparr>"]
  obtain ct where "container_new 1024 0x100000 (\<lambda>index. (mbox_new ITC_FLAG_DEFAULT)
       \<lparr>mb_id := push_bit ITC_REGION_ID_SHIFT ITC_MAILBOX_ID_DEFAULT OR unit_of index\<rparr>) = Inr ct"
    by blast
  then obtain p where p: "platform_new 0x100000 demo_files = Inr p" "pl_initialised p = False"
    "pl_lsock p = lsock_new demo_files" "pl_sysv p = sysv_new" "pl_threads p = manager_new"
    by (simp add: platform_new_def ITC_MAX_SUPPORTED_MAILBOXES_def)
  from demo_initialise [OF p(2-5)] obtain p' where
    i: "platform_initialise demo_plat_env 0 p = Inr (ITC_OK, p')" by blast
  then have "(platform_step demo_plat_env demo_api)\<^sup>*\<^sup>* (p, demo_heap) (p', demo_heap)"
    by (intro r_into_rtranclp platform_step.init)
  from platform_never_initialised [OF p(1) this] show ?thesis using p(1) i by blast
qed

section \<open>The daemon\<close>

text \<open>The child's side of \<open>startDaemon\<close>: how the forked process ends.\<close>

datatype child_end = ExitFailure | ExitSuccess | Executed

definition daemon_child :: "i32 \<Rightarrow> i32 \<Rightarrow> bool \<Rightarrow> child_end" where
  "daemon_child sid pid execOk =
     (if sint sid < 0 then ExitFailure
      else if \<not> sint pid < 0 \<and> sint pid > 0 then ExitSuccess
      else if execOk then Executed else ExitFailure)"

end
