(* ===== verification/Mutex_Timing.thy ===== *)
theory Mutex_Timing
  imports Sync_Object
begin

text \<open>
  The macros of \<open>itcMutex.h\<close> that every critical section uses, in the three ways they can be
  built: measuring, printing, plain. A mutex that is held blocks the caller; what is printed is
  kept in a log. \<open>TPT_TRACE\<close> is empty in this revision.
\<close>

section \<open>Locking and unlocking\<close>

datatype mutex_op = LOCK | UNLOCK

text \<open>A printed line: the operation, the mutex, file and line, and the microseconds, if measured.\<close>

record mutex_line =
  ml_op :: mutex_op
  ml_mutex :: ptr
  ml_at :: "string \<times> nat"
  ml_elapsed :: "u64 option"

record mutexes =
  mx_held :: "ptr list"
  mx_reads :: nat                 \<comment> \<open>readings of the clock so far\<close>
  mx_log :: "mutex_line list"

type_synonym clock = "nat \<Rightarrow> timespec"   \<comment> \<open>\<open>CLOCK_MONOTONIC\<close>, by the number of the reading\<close>

definition mutex_lock :: "ptr \<Rightarrow> mutexes \<Rightarrow> mutexes res" where
  "mutex_lock mtx s = (if mtx \<in> set (mx_held s) then Inl Blocked else Inr (s\<lparr>mx_held := mtx # mx_held s\<rparr>))"

definition mutex_unlock :: "ptr \<Rightarrow> mutexes \<Rightarrow> mutexes res" where
  "mutex_unlock mtx s = Inr (s\<lparr>mx_held := removeAll mtx (mx_held s)\<rparr>)"

definition read_clock :: "clock \<Rightarrow> mutexes \<Rightarrow> timespec \<times> mutexes" where
  "read_clock C s = (C (mx_reads s), s\<lparr>mx_reads := mx_reads s + 1\<rparr>)"

definition print_line :: "mutex_op \<Rightarrow> ptr \<Rightarrow> string \<times> nat \<Rightarrow> u64 option \<Rightarrow> mutexes \<Rightarrow> mutexes" where
  "print_line op mtx at t s =
     s\<lparr>mx_log := mx_log s @ [\<lparr>ml_op = op, ml_mutex = mtx, ml_at = at, ml_elapsed = t\<rparr>]\<rparr>"

definition MUTEX_LOCK_measured :: "clock \<Rightarrow> string \<times> nat \<Rightarrow> ptr \<Rightarrow> mutexes \<Rightarrow> mutexes res" where
  "MUTEX_LOCK_measured C at mtx s =
     (let (tStart, s) = read_clock C s
      in and_then (mutex_lock mtx s) (\<lambda>s.
           let (tEnd, s) = read_clock C s; difftime = getTimeDiffInNanoSec tStart tEnd
           in Inr (if difftime div 1000000 > 5 then print_line LOCK mtx at (Some (difftime div 1000)) s else s)))"

definition MUTEX_UNLOCK_measured :: "clock \<Rightarrow> string \<times> nat \<Rightarrow> ptr \<Rightarrow> mutexes \<Rightarrow> mutexes res" where
  "MUTEX_UNLOCK_measured C at mtx s =
     (let (tStart, s) = read_clock C s
      in and_then (mutex_unlock mtx s) (\<lambda>s.
           let (tEnd, s) = read_clock C s; difftime = getTimeDiffInNanoSec tStart tEnd
           in Inr (if difftime div 1000000 > 5 then print_line UNLOCK mtx at (Some (difftime div 1000)) s else s)))"

definition MUTEX_LOCK_printed :: "string \<times> nat \<Rightarrow> ptr \<Rightarrow> mutexes \<Rightarrow> mutexes res" where
  "MUTEX_LOCK_printed at mtx s = mutex_lock mtx (print_line LOCK mtx at None s)"

definition MUTEX_UNLOCK_printed :: "string \<times> nat \<Rightarrow> ptr \<Rightarrow> mutexes \<Rightarrow> mutexes res" where
  "MUTEX_UNLOCK_printed at mtx s = mutex_unlock mtx (print_line UNLOCK mtx at None s)"

definition MUTEX_LOCK_plain :: "ptr \<Rightarrow> mutexes \<Rightarrow> mutexes res" where
  "MUTEX_LOCK_plain mtx s = mutex_lock mtx s"

definition MUTEX_UNLOCK_plain :: "ptr \<Rightarrow> mutexes \<Rightarrow> mutexes res" where
  "MUTEX_UNLOCK_plain mtx s = mutex_unlock mtx s"

datatype build = Measured | Printed | Plain

fun mutex_call :: "build \<Rightarrow> clock \<Rightarrow> mutex_op \<Rightarrow> string \<times> nat \<Rightarrow> ptr \<Rightarrow> mutexes \<Rightarrow> mutexes res" where
  "mutex_call Measured C LOCK at mtx s = MUTEX_LOCK_measured C at mtx s"
| "mutex_call Measured C UNLOCK at mtx s = MUTEX_UNLOCK_measured C at mtx s"
| "mutex_call Printed C LOCK at mtx s = MUTEX_LOCK_printed at mtx s"
| "mutex_call Printed C UNLOCK at mtx s = MUTEX_UNLOCK_printed at mtx s"
| "mutex_call Plain C LOCK at mtx s = MUTEX_LOCK_plain mtx s"
| "mutex_call Plain C UNLOCK at mtx s = MUTEX_UNLOCK_plain mtx s"

fun run_mutex :: "build \<Rightarrow> clock \<Rightarrow> (mutex_op \<times> (string \<times> nat) \<times> ptr) list \<Rightarrow> mutexes \<Rightarrow> mutexes res" where
  "run_mutex b C [] s = Inr s"
| "run_mutex b C ((op, at, mtx) # ops) s = and_then (mutex_call b C op at mtx s) (run_mutex b C ops)"

section \<open>What the builds have in common\<close>

definition same_locks :: "mutexes res \<Rightarrow> mutexes res \<Rightarrow> bool" where
  "same_locks r r' \<longleftrightarrow> map_sum id mx_held r = map_sum id mx_held r'"

lemma same_locks_simps [simp]:
  "same_locks (Inl e) (Inl e') \<longleftrightarrow> e = e'" "same_locks (Inr s) (Inr s') \<longleftrightarrow> mx_held s = mx_held s'"
  "\<not> same_locks (Inl e) (Inr s)" "\<not> same_locks (Inr s) (Inl e)"
  by (simp_all add: same_locks_def)

lemma call_same_locks:
  assumes "mx_held s = mx_held s'"
  shows "same_locks (mutex_call b C op at mtx s) (mutex_call b' C' op at' mtx s')"
  using assms
  by (cases b; cases b'; cases op)
    (simp_all add: MUTEX_LOCK_measured_def MUTEX_UNLOCK_measured_def MUTEX_LOCK_printed_def
      MUTEX_UNLOCK_printed_def MUTEX_LOCK_plain_def MUTEX_UNLOCK_plain_def mutex_lock_def
      mutex_unlock_def read_clock_def print_line_def Let_def)

lemma run_same_locks:
  "mx_held s = mx_held s' \<Longrightarrow> same_locks (run_mutex b C ops s) (run_mutex b' C' ops s')"
proof (induction ops arbitrary: s s')
  case (Cons x ops)
  obtain op at mtx where x: "x = (op, at, mtx)" by (rule prod_cases3)
  from call_same_locks [OF Cons.prems, of b C op at mtx b' C' at]
  show ?case unfolding x
    by (cases "mutex_call b C op at mtx s"; cases "mutex_call b' C' op at mtx s'")
      (auto intro: Cons.IH)
qed simp

text \<open>The three builds of the mutex macros lock alike: whatever the clock shows and whatever is
  printed, any sequence of lock and unlock calls blocks at the same call in all of them, or
  ends with the same mutexes held.\<close>

theorem mutex_builds_agree:
  "same_locks (run_mutex b C ops s) (run_mutex b' C' ops s)"
  by (rule run_same_locks) simp

text \<open>The measured build prints a call from 6 milliseconds on: the comment says longer than 5, but the
  nanoseconds are first divided down to whole milliseconds.\<close>

lemma whole_milliseconds:
  fixes d :: u64
  shows "d div 1000000 > 5 \<longleftrightarrow> 6000000 \<le> unat d"
proof -
  have "d div 1000000 > 5 \<longleftrightarrow> 5 < unat d div 1000000" by (simp add: word_less_nat_alt unat_div)
  also have "\<dots> \<longleftrightarrow> 6 \<le> unat d div 1000000" by linarith
  also have "\<dots> \<longleftrightarrow> 6000000 \<le> unat d" by (simp add: less_eq_div_iff_mult_less_eq)
  finally show ?thesis .
qed

lemma slow_lock_logged:
  assumes "C (mx_reads s) = t0" "C (mx_reads s + 1) = t1" "time_ok t0" "time_ok t1"
    and "nanoseconds t0 \<le> nanoseconds t1" "mtx \<notin> set (mx_held s)"
  shows "\<exists>s'. MUTEX_LOCK_measured C at mtx s = Inr s' \<and> mx_held s' = mtx # mx_held s \<and>
    (mx_log s' = mx_log s \<longleftrightarrow> nanoseconds t1 - nanoseconds t0 < 6000000)"
proof -
  have "unat (getTimeDiffInNanoSec t0 t1) = nanoseconds t1 - nanoseconds t0"
    using assms(3-5) by (intro time_diff_exact) (simp_all add: time_ok_def)
  then show ?thesis
    using assms(1,2,6) whole_milliseconds [of "getTimeDiffInNanoSec t0 t1"]
    by (simp add: MUTEX_LOCK_measured_def read_clock_def mutex_lock_def print_line_def Let_def)
qed

end
