(* ===== verification/Memory_Allocator.thy ===== *)
theory Memory_Allocator
  imports Memory Itc_Constants "HOL-Library.Multiset"
begin

text \<open>
  The allocator of \<open>itcMemoryManager.h\<close>: four ways to get a region of bytes, their parameters in
  a union, and the release of what was acquired. What a process holds of the operating system
  (mappings, descriptors, attached segments) and what exists by name is part of the state, so
  that leaks can be stated. Results the kernel is free to choose are the environment \<open>mm_env\<close>,
  functions of the number of the call.
\<close>

section \<open>Rounding\<close>

definition MEMORY_POOL_PAGE_SIZE :: u32 where
  "MEMORY_POOL_PAGE_SIZE = 4096"

definition ROUND_UP_TO_PAGE_SIZES :: "u32 \<Rightarrow> u32" where
  "ROUND_UP_TO_PAGE_SIZES x = (x + MEMORY_POOL_PAGE_SIZE - 1) AND NOT (MEMORY_POOL_PAGE_SIZE - 1)"

definition ROUND_UP_TO_64_BYTES :: "u64 \<Rightarrow> u64" where
  "ROUND_UP_TO_64_BYTES x = (x + 63) AND NOT 63"

section \<open>Operating system\<close>

record mem_sys =
  ms_heap :: heap
  ms_maps :: "(ptr \<times> u32) list"       \<comment> \<open>live mappings: address, length\<close>
  ms_fds :: "i32 list"                \<comment> \<open>open descriptors\<close>
  ms_objects :: "string list"         \<comment> \<open>names of shared memory objects\<close>
  ms_attached :: "ptr list"           \<comment> \<open>attached segments\<close>
  ms_segments :: "(i32 \<times> i32) list"   \<comment> \<open>existing segments: key, identifier\<close>
  ms_now :: nat

record mm_env =
  me_fd :: "nat \<Rightarrow> i32"               \<comment> \<open>\<open>shm_open\<close>, when it may succeed\<close>
  me_chmod :: "nat \<Rightarrow> i32"
  me_truncate :: "nat \<Rightarrow> i32"
  me_mmap :: "nat \<Rightarrow> ptr"             \<comment> \<open>\<open>MAP_FAILED\<close> is \<open>- 1\<close>\<close>
  me_key :: "string \<Rightarrow> i32 \<Rightarrow> i32"    \<comment> \<open>\<open>ftok\<close>\<close>
  me_shmid :: "nat \<Rightarrow> i32"            \<comment> \<open>\<open>shmget\<close>, when it may succeed\<close>
  me_shmat :: "nat \<Rightarrow> ptr"            \<comment> \<open>\<open>- 1\<close> on failure\<close>

definition MAP_FAILED :: ptr where
  "MAP_FAILED = - 1"

definition ms_tick :: "mem_sys \<Rightarrow> mem_sys" where
  "ms_tick s = s\<lparr>ms_now := ms_now s + 1\<rparr>"

text \<open>\<open>shm_open\<close>: with \<open>O_CREAT | O_EXCL\<close> it fails with \<open>EEXIST\<close> (the flag in the result) if the object
  exists, without it fails if it does not.\<close>

definition shm_open :: "mm_env \<Rightarrow> bool \<Rightarrow> string \<Rightarrow> mem_sys \<Rightarrow> i32 \<times> bool \<times> mem_sys" where
  "shm_open E create nm s =
     (if create \<longleftrightarrow> nm \<in> set (ms_objects s) then (- 1, create, ms_tick s)
      else let fd = me_fd E (ms_now s); s = ms_tick s
           in if sint fd < 0 then (fd, False, s)
              else (fd, False, s\<lparr>ms_fds := ms_fds s @ [fd],
                     ms_objects := (if create then nm # ms_objects s else ms_objects s)\<rparr>))"

definition fchmod :: "mm_env \<Rightarrow> i32 \<Rightarrow> mem_sys \<Rightarrow> i32 \<times> mem_sys" where
  "fchmod E fd s = (if fd \<in> set (ms_fds s) then me_chmod E (ms_now s) else - 1, ms_tick s)"

definition ftruncate :: "mm_env \<Rightarrow> i32 \<Rightarrow> mem_sys \<Rightarrow> i32 \<times> mem_sys" where
  "ftruncate E fd s = (if fd \<in> set (ms_fds s) then me_truncate E (ms_now s) else - 1, ms_tick s)"

text \<open>\<open>mmap\<close> of length 0 fails.\<close>

definition mmap :: "mm_env \<Rightarrow> u32 \<Rightarrow> mem_sys \<Rightarrow> ptr \<times> mem_sys" where
  "mmap E len s =
     (let a = me_mmap E (ms_now s); s = ms_tick s
      in if len = 0 \<or> a = MAP_FAILED then (MAP_FAILED, s)
         else (a, s\<lparr>ms_maps := ms_maps s @ [(a, len)]\<rparr>))"

definition munmap :: "ptr \<Rightarrow> u32 \<Rightarrow> mem_sys \<Rightarrow> mem_sys" where
  "munmap a len s = s\<lparr>ms_maps := remove1 (a, len) (ms_maps s)\<rparr>"

definition close_fd :: "i32 \<Rightarrow> mem_sys \<Rightarrow> mem_sys" where
  "close_fd fd s = s\<lparr>ms_fds := remove1 fd (ms_fds s)\<rparr>"

definition shm_unlink :: "string \<Rightarrow> mem_sys \<Rightarrow> mem_sys" where
  "shm_unlink nm s = s\<lparr>ms_objects := remove1 nm (ms_objects s)\<rparr>"

definition shmget :: "mm_env \<Rightarrow> bool \<Rightarrow> i32 \<Rightarrow> mem_sys \<Rightarrow> i32 \<times> bool \<times> mem_sys" where
  "shmget E create key s =
     (case map_of (ms_segments s) key of
        Some shmId \<Rightarrow> if create then (- 1, True, ms_tick s) else (shmId, False, ms_tick s)
      | None \<Rightarrow>
          if \<not> create then (- 1, False, ms_tick s)
          else let shmId = me_shmid E (ms_now s); s = ms_tick s
               in if sint shmId < 0 then (shmId, False, s)
                  else (shmId, False, s\<lparr>ms_segments := (key, shmId) # ms_segments s\<rparr>))"

definition shmat :: "mm_env \<Rightarrow> mem_sys \<Rightarrow> ptr \<times> mem_sys" where
  "shmat E s =
     (let a = me_shmat E (ms_now s); s = ms_tick s
      in if a = - 1 then (a, s) else (a, s\<lparr>ms_attached := ms_attached s @ [a]\<rparr>))"

definition shmdt :: "ptr \<Rightarrow> mem_sys \<Rightarrow> mem_sys" where
  "shmdt a s = s\<lparr>ms_attached := remove1 a (ms_attached s)\<rparr>"

definition shm_rmid :: "i32 \<Rightarrow> mem_sys \<Rightarrow> mem_sys" where
  "shm_rmid shmId s = s\<lparr>ms_segments := filter (\<lambda>(_, i). i \<noteq> shmId) (ms_segments s)\<rparr>"

section \<open>Parameters\<close>

record mode1_attributes =
  m1_base :: ptr

record mode2_attributes =
  m2_base :: ptr
  m2_size :: u32

record mode3_attributes =
  m3_base :: ptr
  m3_size :: u32
  m3_appended :: ptr
  m3_appended_size :: u32
  m3_shmId :: i32
  m3_owner :: u32
  m3_name :: string

record mode4_attributes =
  m4_base :: ptr
  m4_size :: u32
  m4_shmId :: i32
  m4_projId :: i32
  m4_owner :: u32
  m4_name :: string

definition mode1_reset :: mode1_attributes where
  "mode1_reset = \<lparr>m1_base = nullptr\<rparr>"

definition mode2_reset :: mode2_attributes where
  "mode2_reset = \<lparr>m2_base = nullptr, m2_size = 0\<rparr>"

definition mode3_reset :: mode3_attributes where
  "mode3_reset = \<lparr>m3_base = nullptr, m3_size = 0, m3_appended = nullptr, m3_appended_size = 0,
     m3_shmId = - 1, m3_owner = 0, m3_name = []\<rparr>"

definition mode4_reset :: mode4_attributes where
  "mode4_reset = \<lparr>m4_base = nullptr, m4_size = 0, m4_shmId = - 1, m4_projId = - 1, m4_owner = 0,
     m4_name = []\<rparr>"

text \<open>The union: the constructor is the active member; the mode is a field of its own.\<close>

datatype attrs = Mode1 mode1_attributes | Mode2 mode2_attributes | Mode3 mode3_attributes
  | Mode4 mode4_attributes

record alloc_params =
  ap_mode :: u32
  ap_attrs :: attrs

definition MEMORY_ALLOCATOR_MODE_1 :: u32 where [itc_const]: "MEMORY_ALLOCATOR_MODE_1 = 1"
definition MEMORY_ALLOCATOR_MODE_2 :: u32 where [itc_const]: "MEMORY_ALLOCATOR_MODE_2 = 2"
definition MEMORY_ALLOCATOR_MODE_3 :: u32 where [itc_const]: "MEMORY_ALLOCATOR_MODE_3 = 3"
definition MEMORY_ALLOCATOR_MODE_4 :: u32 where [itc_const]: "MEMORY_ALLOCATOR_MODE_4 = 4"

section \<open>Allocation\<close>

definition posix_open :: "mm_env \<Rightarrow> string \<Rightarrow> mem_sys \<Rightarrow> (i32 \<times> u32) option \<times> mem_sys" where
  "posix_open E nm s =
     (let (shmId, eexist, s) = shm_open E True nm s
      in if sint shmId < 0
         then if \<not> eexist then (None, s)
              else let (shmId, _, s) = shm_open E False nm s
                   in if sint shmId < 0 then (None, s) else (Some (shmId, 0), s)
         else (Some (shmId, 1), s))"

text \<open>Giving up: only the owner closes and unlinks.\<close>

definition posix_give_up :: "u32 \<Rightarrow> i32 \<Rightarrow> string \<Rightarrow> mem_sys \<Rightarrow> mem_sys" where
  "posix_give_up isOwner shmId nm s =
     (if isOwner \<noteq> 0 then shm_unlink nm (close_fd shmId s) else s)"

definition allocate_mode3 ::
    "mm_env \<Rightarrow> u32 \<Rightarrow> mode3_attributes \<times> mem_sys \<Rightarrow> ptr \<times> mode3_attributes \<times> mem_sys" where
  "allocate_mode3 E sz = (\<lambda>(m, s).
     case posix_open E (m3_name m) s of
       (None, s) \<Rightarrow> (nullptr, m, s)
     | (Some (shmId, isOwner), s) \<Rightarrow>
         let (ret, s) = fchmod E shmId s
         in if sint ret < 0 then (nullptr, m, posix_give_up isOwner shmId (m3_name m) s)
            else let (ret, s) = ftruncate E shmId s
                 in if sint ret < 0 then (nullptr, m, posix_give_up isOwner shmId (m3_name m) s)
                    else let (a, s) = mmap E (ROUND_UP_TO_PAGE_SIZES sz) s
                         in (a, m\<lparr>m3_base := a, m3_size := ROUND_UP_TO_PAGE_SIZES sz, m3_shmId := shmId,
                                  m3_owner := isOwner\<rparr>, s))"

definition sysv_open :: "mm_env \<Rightarrow> i32 \<Rightarrow> mem_sys \<Rightarrow> (i32 \<times> u32) option \<times> mem_sys" where
  "sysv_open E key s =
     (let (shmId, eexist, s) = shmget E True key s
      in if sint shmId < 0
         then if \<not> eexist then (None, s)
              else let (shmId, _, s) = shmget E False key s
                   in if sint shmId < 0 then (None, s) else (Some (shmId, 0), s)
         else (Some (shmId, 1), s))"

definition allocate_mode4 ::
    "mm_env \<Rightarrow> u32 \<Rightarrow> mode4_attributes \<times> mem_sys \<Rightarrow> ptr \<times> mode4_attributes \<times> mem_sys" where
  "allocate_mode4 E sz = (\<lambda>(m, s).
     let key = me_key E (m4_name m) (m4_projId m)
     in if sint key < 0 then (nullptr, m, s)
        else case sysv_open E key s of
               (None, s) \<Rightarrow> (nullptr, m, s)
             | (Some (shmId, isOwner), s) \<Rightarrow>
                 let (a, s) = shmat E s
                 in (a, m\<lparr>m4_base := a, m4_size := ROUND_UP_TO_PAGE_SIZES sz, m4_shmId := shmId,
                          m4_owner := isOwner\<rparr>, s))"

text \<open>A member that is not the active one is not there: reading or writing it is a wild access.\<close>

definition allocate_mem ::
    "mm_env \<Rightarrow> u32 \<Rightarrow> alloc_params \<times> mem_sys \<Rightarrow> (ptr \<times> alloc_params \<times> mem_sys) res" where
  "allocate_mem E sz = (\<lambda>(p, s).
     if ap_mode p = MEMORY_ALLOCATOR_MODE_1
     then case ap_attrs p of
            Mode1 m \<Rightarrow> and_then (heap_new (unat sz) (ms_heap s)) (\<lambda>(a, h).
                         Inr (a, p\<lparr>ap_attrs := Mode1 (m\<lparr>m1_base := a\<rparr>)\<rparr>, s\<lparr>ms_heap := h\<rparr>))
          | _ \<Rightarrow> Inl WildAccess
     else if ap_mode p = MEMORY_ALLOCATOR_MODE_2
     then case ap_attrs p of
            Mode2 m \<Rightarrow> let (a, s) = mmap E (ROUND_UP_TO_PAGE_SIZES sz) s
                       in Inr (a, p\<lparr>ap_attrs := Mode2 (m\<lparr>m2_base := a, m2_size := ROUND_UP_TO_PAGE_SIZES sz\<rparr>)\<rparr>, s)
          | _ \<Rightarrow> Inl WildAccess
     else if ap_mode p = MEMORY_ALLOCATOR_MODE_3
     then case ap_attrs p of
            Mode3 m \<Rightarrow> let (a, m, s) = allocate_mode3 E sz (m, s) in Inr (a, p\<lparr>ap_attrs := Mode3 m\<rparr>, s)
          | _ \<Rightarrow> Inl WildAccess
     else if ap_mode p = MEMORY_ALLOCATOR_MODE_4
     then case ap_attrs p of
            Mode4 m \<Rightarrow> let (a, m, s) = allocate_mode4 E sz (m, s) in Inr (a, p\<lparr>ap_attrs := Mode4 m\<rparr>, s)
          | _ \<Rightarrow> Inl WildAccess
     else Inr (nullptr, p, s))"

text \<open>\<open>append\<close> falls through to the final \<open>return nullptr\<close> also when it has appended.\<close>

definition append_mode3 ::
    "mm_env \<Rightarrow> u32 \<Rightarrow> mode3_attributes \<times> mem_sys \<Rightarrow> mode3_attributes \<times> mem_sys" where
  "append_mode3 E sz = (\<lambda>(m, s).
     if m3_appended m \<noteq> nullptr then (m, s)
     else let (ret, s) = ftruncate E (m3_shmId m) s
          in if sint ret < 0 then (m, posix_give_up (m3_owner m) (m3_shmId m) (m3_name m) s)
             else let (a, s) = mmap E (ROUND_UP_TO_PAGE_SIZES sz) s
                  in (m\<lparr>m3_appended := a, m3_appended_size := ROUND_UP_TO_PAGE_SIZES sz\<rparr>, s))"

definition append_mem ::
    "mm_env \<Rightarrow> u32 \<Rightarrow> alloc_params \<times> mem_sys \<Rightarrow> (ptr \<times> alloc_params \<times> mem_sys) res" where
  "append_mem E sz = (\<lambda>(p, s).
     if ap_mode p = MEMORY_ALLOCATOR_MODE_3
     then case ap_attrs p of
            Mode3 m \<Rightarrow> let (m, s) = append_mode3 E sz (m, s) in Inr (nullptr, p\<lparr>ap_attrs := Mode3 m\<rparr>, s)
          | _ \<Rightarrow> Inl WildAccess
     else if ap_mode p = MEMORY_ALLOCATOR_MODE_1 \<or> ap_mode p = MEMORY_ALLOCATOR_MODE_2 \<or>
             ap_mode p = MEMORY_ALLOCATOR_MODE_4
     then allocate_mem E sz (p, s)
     else Inr (nullptr, p, s))"

section \<open>Release\<close>

definition deallocate_mode3 :: "mode3_attributes \<times> mem_sys \<Rightarrow> mode3_attributes \<times> mem_sys" where
  "deallocate_mode3 = (\<lambda>(m, s).
     let s = (if m3_base m \<noteq> nullptr then munmap (m3_base m) (m3_size m) s else s);
         s = (if m3_appended m \<noteq> nullptr then munmap (m3_appended m) (m3_appended_size m) s else s);
         s = (if sint (m3_shmId m) > 0 then close_fd (m3_shmId m) s else s)
     in (mode3_reset, shm_unlink (m3_name m) s))"

definition deallocate_mode4 :: "mode4_attributes \<times> mem_sys \<Rightarrow> mode4_attributes \<times> mem_sys" where
  "deallocate_mode4 = (\<lambda>(m, s).
     let s = (if m4_base m \<noteq> nullptr then shmdt (m4_base m) s else s);
         s = (if sint (m4_shmId m) > 0 then shm_rmid (m4_shmId m) s else s)
     in (mode4_reset, s))"

definition deallocate_mem :: "alloc_params \<times> mem_sys \<Rightarrow> (alloc_params \<times> mem_sys) res" where
  "deallocate_mem = (\<lambda>(p, s).
     if ap_mode p = MEMORY_ALLOCATOR_MODE_1
     then case ap_attrs p of
            Mode1 m \<Rightarrow> if m1_base m \<noteq> nullptr
                       then and_then (heap_delete (m1_base m) (ms_heap s)) (\<lambda>h.
                              Inr (p\<lparr>ap_attrs := Mode1 mode1_reset\<rparr>, s\<lparr>ms_heap := h\<rparr>))
                       else Inr (p, s)
          | _ \<Rightarrow> Inl WildAccess
     else if ap_mode p = MEMORY_ALLOCATOR_MODE_2
     then case ap_attrs p of
            Mode2 m \<Rightarrow> if m2_base m \<noteq> nullptr
                       then Inr (p\<lparr>ap_attrs := Mode2 mode2_reset\<rparr>, munmap (m2_base m) (m2_size m) s)
                       else Inr (p, s)
          | _ \<Rightarrow> Inl WildAccess
     else if ap_mode p = MEMORY_ALLOCATOR_MODE_3
     then case ap_attrs p of
            Mode3 m \<Rightarrow> if m3_owner m \<noteq> 0
                       then let (m, s) = deallocate_mode3 (m, s) in Inr (p\<lparr>ap_attrs := Mode3 m\<rparr>, s)
                       else Inr (p, s)
          | _ \<Rightarrow> Inl WildAccess
     else if ap_mode p = MEMORY_ALLOCATOR_MODE_4
     then case ap_attrs p of
            Mode4 m \<Rightarrow> if m4_owner m \<noteq> 0
                       then let (m, s) = deallocate_mode4 (m, s) in Inr (p\<lparr>ap_attrs := Mode4 m\<rparr>, s)
                       else Inr (p, s)
          | _ \<Rightarrow> Inl WildAccess
     else Inr (p, s))"

section \<open>Rounding to pages\<close>

lemma and_split: "(x AND m) + (x AND NOT m) = x" for x m :: u32
proof -
  have "(x AND m) + (x AND NOT m) = (x AND m) OR (x AND NOT m)"
    by (rule disjunctive_add) (auto simp: bit_and_iff bit_not_iff)
  also have "\<dots> = x" by (rule bit_word_eqI) (auto simp: bit_and_iff bit_or_iff bit_not_iff)
  finally show ?thesis .
qed

lemma page_mask: "x AND NOT 4095 = x - x mod 4096" for x :: u32
proof -
  have m: "(4095 :: u32) = mask 12" "(4096 :: u32) = 2 ^ 12" by (simp_all add: mask_eq_exp_minus_1)
  have "x AND 4095 = x mod 4096" by (simp only: m take_bit_eq_mask [symmetric] take_bit_eq_mod)
  with and_split [of x 4095] show ?thesis by (metis add_diff_cancel_left')
qed

lemma round_up_nat:
  "unat (ROUND_UP_TO_PAGE_SIZES x) = (unat x + 4095) mod 2 ^ 32 div 4096 * 4096"
proof -
  let ?y = "x + 4095"
  have y: "unat ?y = (unat x + 4095) mod 2 ^ 32" by (simp add: unat_word_ariths)
  have "ROUND_UP_TO_PAGE_SIZES x = ?y AND NOT 4095"
    by (simp add: ROUND_UP_TO_PAGE_SIZES_def MEMORY_POOL_PAGE_SIZE_def add.commute)
  also have "\<dots> = ?y - ?y mod 4096" by (rule page_mask)
  finally have "unat (ROUND_UP_TO_PAGE_SIZES x) = unat (?y - ?y mod 4096)" by simp
  also have "\<dots> = unat ?y - unat ?y mod 4096"
    by (subst unat_sub) (simp_all add: word_le_nat_alt unat_mod)
  also have "\<dots> = unat ?y div 4096 * 4096" by (simp add: minus_mod_eq_div_mult)
  finally show ?thesis by (simp only: y)
qed

text \<open>Rounding a size up to pages gives the least multiple of 4096 that is at least the size, for
  every size up to \<open>2 ^ 32 - 4096\<close>; a greater size wraps and gives 0.\<close>

theorem page_rounding:
  "if unat sz \<le> 2 ^ 32 - 4096
   then 4096 dvd unat (ROUND_UP_TO_PAGE_SIZES sz) \<and> unat sz \<le> unat (ROUND_UP_TO_PAGE_SIZES sz) \<and>
     unat (ROUND_UP_TO_PAGE_SIZES sz) < unat sz + 4096
   else ROUND_UP_TO_PAGE_SIZES sz = 0"
proof (cases "unat sz \<le> 2 ^ 32 - 4096")
  case True
  then have "unat (ROUND_UP_TO_PAGE_SIZES sz) = (unat sz + 4095) div 4096 * 4096"
    by (simp add: round_up_nat)
  with True show ?thesis by simp linarith
next
  case False
  have "unat sz < 2 ^ 32" using unsigned_less [of sz] by simp
  with False have "(unat sz + 4095) mod 2 ^ 32 < 4096"
    by (subst le_mod_geq) auto
  then have "unat (ROUND_UP_TO_PAGE_SIZES sz) = 0" by (simp only: round_up_nat div_less mult_0)
  with False show ?thesis by (simp add: unat_eq_zero)
qed

section \<open>The union\<close>

definition params_ok :: "alloc_params \<times> mem_sys \<Rightarrow> bool" where
  "params_ok = (\<lambda>(p, s). case ap_attrs p of
     Mode1 m \<Rightarrow> ap_mode p = MEMORY_ALLOCATOR_MODE_1 \<and>
                (m1_base m = nullptr \<or> block (ms_heap s) (m1_base m) \<noteq> None)
   | Mode2 m \<Rightarrow> ap_mode p = MEMORY_ALLOCATOR_MODE_2
   | Mode3 m \<Rightarrow> ap_mode p = MEMORY_ALLOCATOR_MODE_3
   | Mode4 m \<Rightarrow> ap_mode p = MEMORY_ALLOCATOR_MODE_4)"

datatype alloc_op = Allocate u32 | Append u32 | Deallocate

fun alloc_do :: "mm_env \<Rightarrow> alloc_op \<Rightarrow> alloc_params \<times> mem_sys \<Rightarrow> (alloc_params \<times> mem_sys) res" where
  "alloc_do E (Allocate sz) x = and_then (allocate_mem E sz x) (\<lambda>(_, x). Inr x)"
| "alloc_do E (Append sz) x = and_then (append_mem E sz x) (\<lambda>(_, x). Inr x)"
| "alloc_do E Deallocate x = deallocate_mem x"

fun alloc_run :: "mm_env \<Rightarrow> alloc_op list \<Rightarrow> alloc_params \<times> mem_sys \<Rightarrow> (alloc_params \<times> mem_sys) res" where
  "alloc_run E [] x = Inr x"
| "alloc_run E (op # ops) x = and_then (alloc_do E op x) (alloc_run E ops)"

definition keeps_union :: "u32 \<Rightarrow> (alloc_params \<times> mem_sys) res \<Rightarrow> bool" where
  "keeps_union m r \<longleftrightarrow> (case r of Inl e \<Rightarrow> e = BadAlloc | Inr y \<Rightarrow> params_ok y \<and> ap_mode (fst y) = m)"

lemma allocate_keeps_union:
  assumes "params_ok (p, s)"
  shows "keeps_union (ap_mode p) (and_then (allocate_mem E sz (p, s)) (\<lambda>(_, x). Inr x))"
proof (cases "ap_attrs p")
  case (Mode1 m)
  with assms show ?thesis
    by (cases rule: heap_new_cases [of "ms_heap s" "unat sz"])
       (auto simp: allocate_mem_def params_ok_def keeps_union_def itc_const)
qed (use assms in \<open>auto simp: allocate_mem_def params_ok_def keeps_union_def itc_const split: prod.splits\<close>)

lemma alloc_do_keeps_union:
  assumes "params_ok x"
  shows "keeps_union (ap_mode (fst x)) (alloc_do E op x)"
proof -
  obtain p s where x: "x = (p, s)" by fastforce
  show ?thesis
  proof (cases op)
    case (Allocate sz)
    with x assms allocate_keeps_union show ?thesis by simp
  next
    case (Append sz)
    with x assms allocate_keeps_union [of p s E sz] show ?thesis
      by (cases "ap_attrs p")
         (auto simp: append_mem_def params_ok_def keeps_union_def itc_const split: prod.splits)
  next
    case Deallocate
    with x assms show ?thesis
      by (cases "ap_attrs p")
         (auto simp: deallocate_mem_def params_ok_def keeps_union_def itc_const mode1_reset_def
           heap_delete_def split: prod.splits)
  qed
qed

text \<open>C17: The allocator only ever touches the active member of the union: from parameters whose mode
  agrees with the active member, any sequence of allocate, append and deallocate keeps them in
  agreement and the mode unchanged, and can end early in no other way than by a failed
  \<open>new[]\<close>; no inactive member is accessed and no dead block is freed.\<close>

theorem allocator_union_safe:
  assumes "params_ok x"
  shows "case alloc_run E ops x of Inl e \<Rightarrow> e = BadAlloc
    | Inr y \<Rightarrow> params_ok y \<and> ap_mode (fst y) = ap_mode (fst x)"
proof -
  have "keeps_union (ap_mode (fst x)) (alloc_run E ops x)"
    using assms
  proof (induction ops arbitrary: x)
    case (Cons op ops)
    show ?case
    proof (cases "alloc_do E op x")
      case (Inl e)
      with alloc_do_keeps_union [OF Cons.prems, of E op] show ?thesis by (simp add: keeps_union_def)
    next
      case (Inr y)
      with alloc_do_keeps_union [OF Cons.prems, of E op] Cons.IH [of y] show ?thesis
        by (simp add: keeps_union_def)
    qed
  qed (simp add: keeps_union_def)
  then show ?thesis by (simp add: keeps_union_def)
qed

section \<open>What is held\<close>

record held_view =
  hv_blocks :: "ptr \<Rightarrow> u8 list option"
  hv_maps :: "(ptr \<times> u32) multiset"
  hv_fds :: "i32 multiset"
  hv_objects :: "string list"
  hv_attached :: "ptr multiset"
  hv_segments :: "(i32 \<times> i32) list"

definition held :: "mem_sys \<Rightarrow> held_view" where
  "held s = \<lparr>hv_blocks = blocks (ms_heap s), hv_maps = mset (ms_maps s), hv_fds = mset (ms_fds s),
     hv_objects = ms_objects s, hv_attached = mset (ms_attached s), hv_segments = ms_segments s\<rparr>"

text \<open>The names under which modes 3 and 4 share.\<close>

definition first_opener :: "mm_env \<Rightarrow> alloc_params \<times> mem_sys \<Rightarrow> bool" where
  "first_opener E = (\<lambda>(p, s). case ap_attrs p of
     Mode1 m \<Rightarrow> True | Mode2 m \<Rightarrow> True
   | Mode3 m \<Rightarrow> m3_name m \<notin> set (ms_objects s)
   | Mode4 m \<Rightarrow> map_of (ms_segments s) (me_key E (m4_name m) (m4_projId m)) = None)"

definition not_appended :: "alloc_params \<Rightarrow> bool" where
  "not_appended p = (case ap_attrs p of Mode3 m \<Rightarrow> m3_appended m = nullptr | _ \<Rightarrow> True)"

text \<open>A segment that \<open>shmget\<close> creates gets an identifier that no existing segment has; it may be 0, as
  may a descriptor.\<close>

definition fresh_ids :: "mm_env \<Rightarrow> mem_sys \<Rightarrow> bool" where
  "fresh_ids E s \<longleftrightarrow> (\<forall>t. me_shmid E t \<notin> snd ` set (ms_segments s))"

text \<open>What the tests \<open>shmId > 0\<close> leave behind: the descriptor or the segment whose identifier is 0.\<close>

definition with_id_0 :: "mm_env \<Rightarrow> alloc_params \<Rightarrow> held_view \<Rightarrow> held_view" where
  "with_id_0 E p v = (case ap_attrs p of
     Mode3 m \<Rightarrow> if m3_shmId m = 0 then v\<lparr>hv_fds := hv_fds v + {#0#}\<rparr> else v
   | Mode4 m \<Rightarrow> if m4_shmId m = 0
       then v\<lparr>hv_segments := (me_key E (m4_name m) (m4_projId m), 0) # hv_segments v\<rparr> else v
   | _ \<Rightarrow> v)"

lemmas mem_calls = shm_open_def fchmod_def ftruncate_def mmap_def munmap_def close_fd_def shm_unlink_def
  shmget_def shmat_def shmdt_def shm_rmid_def ms_tick_def Let_def

lemma sint_pos: "(x :: i32) \<noteq> 0 \<Longrightarrow> \<not> sint x < 0 \<Longrightarrow> 0 < sint x"
  by (metis linorder_neqE_linordered_idom signed_eq_0_iff)

lemma roundtrip_mode3:
  assumes "allocate_mode3 E sz (m, s) = (a, m', s')" "a \<noteq> nullptr" "a \<noteq> MAP_FAILED"
    and "m3_name m \<notin> set (ms_objects s)" "m3_appended m = nullptr"
  shows "m3_owner m' \<noteq> 0 \<and> held (snd (deallocate_mode3 (m', s'))) =
    (if m3_shmId m' = 0 then (held s)\<lparr>hv_fds := hv_fds (held s) + {#0#}\<rparr> else held s)"
proof -
  let ?fd = "me_fd E (ms_now s)"
  have fd: "\<not> sint ?fd < 0" using assms(1,2,4) by (auto simp: allocate_mode3_def posix_open_def mem_calls)
  let ?s1 = "s\<lparr>ms_fds := ms_fds s @ [?fd], ms_objects := m3_name m # ms_objects s, ms_now := ms_now s + 1\<rparr>"
  have "posix_open E (m3_name m) s = (Some (?fd, 1), ?s1)"
    using assms(4) fd by (simp add: posix_open_def mem_calls)
  with assms(1-3) have "m' = m\<lparr>m3_base := a, m3_size := ROUND_UP_TO_PAGE_SIZES sz, m3_shmId := ?fd, m3_owner := 1\<rparr>"
    "held s' = (held s)\<lparr>hv_maps := hv_maps (held s) + {#(a, ROUND_UP_TO_PAGE_SIZES sz)#},
       hv_fds := hv_fds (held s) + {#?fd#}, hv_objects := m3_name m # hv_objects (held s)\<rparr>"
    by (auto simp: allocate_mode3_def mem_calls held_def split: if_splits)
  with assms(2,5) fd sint_pos [of ?fd] show ?thesis
    by (cases "?fd = 0") (simp_all add: deallocate_mode3_def mem_calls held_def)
qed

lemma roundtrip_mode4:
  assumes "allocate_mode4 E sz (m, s) = (a, m', s')" "a \<noteq> nullptr" "a \<noteq> MAP_FAILED"
    and "map_of (ms_segments s) (me_key E (m4_name m) (m4_projId m)) = None" "fresh_ids E s"
  shows "m4_owner m' \<noteq> 0 \<and> held (snd (deallocate_mode4 (m', s'))) =
    (if m4_shmId m' = 0 then (held s)\<lparr>hv_segments := (me_key E (m4_name m') (m4_projId m'), 0) # hv_segments (held s)\<rparr>
     else held s)"
proof -
  let ?key = "me_key E (m4_name m) (m4_projId m)" and ?id = "me_shmid E (ms_now s)"
  have key: "\<not> sint ?key < 0" using assms(1,2) by (auto simp: allocate_mode4_def Let_def)
  have ok: "\<not> sint ?id < 0"
    using assms(1,2,4) key by (auto simp: allocate_mode4_def sysv_open_def mem_calls)
  have fresh: "?id \<notin> snd ` set (ms_segments s)" using assms(5) by (simp add: fresh_ids_def)
  let ?s1 = "s\<lparr>ms_segments := (?key, ?id) # ms_segments s, ms_now := ms_now s + 1\<rparr>"
  have "sysv_open E ?key s = (Some (?id, 1), ?s1)"
    using assms(4) ok by (simp add: sysv_open_def mem_calls)
  with assms(1-3) key have
    "m' = m\<lparr>m4_base := a, m4_size := ROUND_UP_TO_PAGE_SIZES sz, m4_shmId := ?id, m4_owner := 1\<rparr>"
    "held s' = (held s)\<lparr>hv_attached := hv_attached (held s) + {#a#},
       hv_segments := (?key, ?id) # hv_segments (held s)\<rparr>"
    by (auto simp: allocate_mode4_def mem_calls held_def MAP_FAILED_def split: if_splits)
  moreover have "filter (\<lambda>(_, i). i \<noteq> ?id) (ms_segments s) = ms_segments s"
    using fresh by (intro filter_True) force
  ultimately show ?thesis using assms(2) ok sint_pos [of ?id]
    by (cases "?id = 0") (simp_all add: deallocate_mode4_def mem_calls held_def)
qed

text \<open>C18: Allocating and deallocating is a round trip in every mode, but for the identifier 0: if the
  allocation succeeds, no one else had created the shared object or segment, and no region has
  been appended, then deallocating succeeds, the region's address is forgotten, and the blocks,
  mappings, descriptors, attachments, names and segments are those held before; except that,
  when the kernel gave the shared object the descriptor 0 or the new segment the identifier 0,
  which the code takes for none, this descriptor or segment is kept for ever.\<close>

theorem allocator_roundtrip:
  assumes "params_ok (p, s)" "allocate_mem E sz (p, s) = Inr (a, p', s')" "a \<noteq> nullptr" "a \<noteq> MAP_FAILED"
    and "first_opener E (p, s)" "not_appended p" "fresh_ids E s"
  shows "\<exists>p'' s''. deallocate_mem (p', s') = Inr (p'', s'') \<and> held s'' = with_id_0 E p' (held s) \<and>
    (case ap_attrs p'' of Mode1 m \<Rightarrow> m1_base m = nullptr | Mode2 m \<Rightarrow> m2_base m = nullptr
     | Mode3 m \<Rightarrow> m3_base m = nullptr | Mode4 m \<Rightarrow> m4_base m = nullptr)"
proof (cases "ap_attrs p")
  case (Mode1 m)
  then have mode: "ap_mode p = MEMORY_ALLOCATOR_MODE_1" using assms(1) by (simp add: params_ok_def)
  with assms(2) Mode1 obtain h where h: "heap_new (unat sz) (ms_heap s) = Inr (a, h)"
    "p' = p\<lparr>ap_attrs := Mode1 (m\<lparr>m1_base := a\<rparr>)\<rparr>" "s' = s\<lparr>ms_heap := h\<rparr>"
    by (auto simp: allocate_mem_def and_then_Inr_iff)
  then have "block (ms_heap s) a = None" "block h a \<noteq> None" "(blocks h)(a := None) = blocks (ms_heap s)"
    by (auto simp: heap_new_def can_alloc_def Let_def split: if_splits)
  with h mode assms(3) show ?thesis
    by (auto simp: deallocate_mem_def heap_delete_def held_def mode1_reset_def with_id_0_def)
next
  case (Mode2 m)
  then have mode: "ap_mode p = MEMORY_ALLOCATOR_MODE_2" using assms(1) by (simp add: params_ok_def)
  with assms(2,3,4) Mode2 show ?thesis
    by (auto simp: allocate_mem_def deallocate_mem_def mem_calls held_def mode2_reset_def itc_const
        with_id_0_def split: if_splits)
next
  case (Mode3 m)
  then have mode: "ap_mode p = MEMORY_ALLOCATOR_MODE_3" using assms(1) by (simp add: params_ok_def)
  obtain a1 m1 s1 where r: "allocate_mode3 E sz (m, s) = (a1, m1, s1)" by (rule prod_cases3)
  with assms(2) Mode3 mode have e: "a1 = a" "p' = p\<lparr>ap_attrs := Mode3 m1\<rparr>" "s' = s1"
    by (simp_all add: allocate_mem_def itc_const)
  with roundtrip_mode3 [of E sz m s a m1 s1] r assms(3-7) Mode3 have
    "m3_owner m1 \<noteq> 0" "held (snd (deallocate_mode3 (m1, s1))) = with_id_0 E p' (held s)"
    by (simp_all add: first_opener_def not_appended_def with_id_0_def)
  moreover have "fst (deallocate_mode3 (m1, s1)) = mode3_reset" by (simp add: deallocate_mode3_def Let_def)
  ultimately show ?thesis
    using e mode by (cases "deallocate_mode3 (m1, s1)") (simp add: deallocate_mem_def itc_const mode3_reset_def)
next
  case (Mode4 m)
  then have mode: "ap_mode p = MEMORY_ALLOCATOR_MODE_4" using assms(1) by (simp add: params_ok_def)
  obtain a1 m1 s1 where r: "allocate_mode4 E sz (m, s) = (a1, m1, s1)" by (rule prod_cases3)
  with assms(2) Mode4 mode have e: "a1 = a" "p' = p\<lparr>ap_attrs := Mode4 m1\<rparr>" "s' = s1"
    by (simp_all add: allocate_mem_def itc_const)
  with roundtrip_mode4 [of E sz m s a m1 s1] r assms(3-7) Mode4 have
    "m4_owner m1 \<noteq> 0" "held (snd (deallocate_mode4 (m1, s1))) = with_id_0 E p' (held s)"
    by (simp_all add: first_opener_def with_id_0_def)
  moreover have "fst (deallocate_mode4 (m1, s1)) = mode4_reset" by (simp add: deallocate_mode4_def Let_def)
  ultimately show ?thesis
    using e mode by (cases "deallocate_mode4 (m1, s1)") (simp add: deallocate_mem_def itc_const mode4_reset_def)
qed

text \<open>A process that opens a shared object another one has created never gives anything back, and
  appending hides what it maps: deallocating after a successful POSIX allocation of an existing
  object changes nothing, so the mapping and the descriptor stay; a successful append returns
  null to its caller although it has mapped the new region.\<close>

lemma opener_never_releases:
  assumes "ap_attrs p = Mode3 m" "ap_mode p = MEMORY_ALLOCATOR_MODE_3" "m3_name m \<in> set (ms_objects s)"
    and "allocate_mem E sz (p, s) = Inr (a, p', s')" "a \<noteq> nullptr" "a \<noteq> MAP_FAILED" "m3_appended m = nullptr"
  shows "deallocate_mem (p', s') = Inr (p', s') \<and>
    held s' = (held s)\<lparr>hv_maps := hv_maps (held s) + {#(a, ROUND_UP_TO_PAGE_SIZES sz)#},
      hv_fds := hv_fds (held s) + {#me_fd E (ms_now s + 1)#}\<rparr> \<and>
    (\<exists>p'' s''. append_mem E sz' (p', s') = Inr (nullptr, p'', s'') \<and>
       (\<not> sint (me_truncate E (ms_now s')) < 0 \<and> me_mmap E (ms_now s' + 1) \<noteq> MAP_FAILED \<and>
        ROUND_UP_TO_PAGE_SIZES sz' \<noteq> 0 \<longrightarrow>
        hv_maps (held s'') = hv_maps (held s') +
          {#(me_mmap E (ms_now s' + 1), ROUND_UP_TO_PAGE_SIZES sz')#}))"
proof -
  let ?fd = "me_fd E (ms_now s + 1)"
  obtain a1 m1 s1 where "allocate_mode3 E sz (m, s) = (a1, m1, s1)" by (rule prod_cases3)
  with assms(1,2,4) have r: "allocate_mode3 E sz (m, s) = (a, m1, s1)"
    and e: "p' = p\<lparr>ap_attrs := Mode3 m1\<rparr>" "s' = s1" by (simp_all add: allocate_mem_def itc_const)
  have "\<not> sint ?fd < 0"
    using r assms(3,5) by (auto simp: allocate_mode3_def posix_open_def mem_calls split: if_splits)
  then have "posix_open E (m3_name m) s =
      (Some (?fd, 0), s\<lparr>ms_fds := ms_fds s @ [?fd], ms_now := ms_now s + 2\<rparr>)"
    using assms(3) by (simp add: posix_open_def mem_calls)
  with r assms(5,6) have *: "m1 = m\<lparr>m3_base := a, m3_size := ROUND_UP_TO_PAGE_SIZES sz, m3_shmId := ?fd, m3_owner := 0\<rparr>"
    "held s1 = (held s)\<lparr>hv_maps := hv_maps (held s) + {#(a, ROUND_UP_TO_PAGE_SIZES sz)#},
      hv_fds := hv_fds (held s) + {#?fd#}\<rparr>" "?fd \<in> set (ms_fds s1)"
    by (auto simp: allocate_mode3_def mem_calls held_def split: if_splits)
  have "append_mem E sz' (p', s') = Inr (nullptr, p\<lparr>ap_attrs := Mode3 (fst (append_mode3 E sz' (m1, s1)))\<rparr>,
      snd (append_mode3 E sz' (m1, s1)))"
    using e assms(2) by (simp add: append_mem_def split: prod.splits)
  moreover have "hv_maps (held (snd (append_mode3 E sz' (m1, s1)))) =
      hv_maps (held s1) + {#(me_mmap E (ms_now s1 + 1), ROUND_UP_TO_PAGE_SIZES sz')#}"
    if "\<not> sint (me_truncate E (ms_now s1)) < 0" "me_mmap E (ms_now s1 + 1) \<noteq> MAP_FAILED"
      "ROUND_UP_TO_PAGE_SIZES sz' \<noteq> 0"
    using that *(1,3) assms(7) by (simp add: append_mode3_def mem_calls held_def)
  moreover have "deallocate_mem (p', s') = Inr (p', s')"
    using e *(1) assms(2) by (simp add: deallocate_mem_def itc_const)
  ultimately show ?thesis using *(2) e(2) by simp
qed

text \<open>A kernel on which every call succeeds, and parameters of each mode.\<close>

definition demo_mm_env :: mm_env where
  "demo_mm_env = \<lparr>me_fd = (\<lambda>_. 7), me_chmod = (\<lambda>_. 0), me_truncate = (\<lambda>_. 0), me_mmap = (\<lambda>_. 0x70000000),
     me_key = (\<lambda>_ _. 5), me_shmid = (\<lambda>_. 9), me_shmat = (\<lambda>_. 0x60000000)\<rparr>"

definition demo_mem :: mem_sys where
  "demo_mem = \<lparr>ms_heap = demo_heap, ms_maps = [], ms_fds = [], ms_objects = [''other''], ms_attached = [],
     ms_segments = [], ms_now = 0\<rparr>"

definition demo_mode3 :: "string \<Rightarrow> alloc_params" where
  "demo_mode3 nm = \<lparr>ap_mode = 3, ap_attrs = Mode3 (mode3_reset\<lparr>m3_name := nm\<rparr>)\<rparr>"

lemma demo_mode3_allocates:
  "\<exists>p' s'. allocate_mem demo_mm_env 5000 (demo_mode3 nm, demo_mem) = Inr (0x70000000, p', s') \<and>
     with_id_0 demo_mm_env p' v = v"
proof -
  have "ROUND_UP_TO_PAGE_SIZES 5000 \<noteq> 0" by code_simp
  then show ?thesis
    by (simp add: with_id_0_def allocate_mem_def demo_mode3_def allocate_mode3_def posix_open_def mem_calls demo_mem_def
        demo_mm_env_def itc_const mode3_reset_def MAP_FAILED_def)
qed

theorem allocator_union_safe_witness:
  "\<exists>y. alloc_run demo_mm_env [Allocate 5000, Append 100, Deallocate] (demo_mode3 ''pool'', demo_mem) = Inr y \<and>
     params_ok y"
proof -
  have "\<exists>y. alloc_run demo_mm_env [Allocate 5000, Append 100, Deallocate] (demo_mode3 ''pool'', demo_mem) = Inr y"
    by (simp add: allocate_mem_def append_mem_def deallocate_mem_def demo_mode3_def itc_const split: prod.splits)
  moreover have "params_ok (demo_mode3 ''pool'', demo_mem)"
    by (simp add: params_ok_def demo_mode3_def itc_const)
  ultimately show ?thesis
    using allocator_union_safe [of "(demo_mode3 ''pool'', demo_mem)" demo_mm_env "[Allocate 5000, Append 100, Deallocate]"]
    by fastforce
qed

theorem allocator_roundtrip_witness:
  "\<exists>p' s' p'' s''. allocate_mem demo_mm_env 5000 (demo_mode3 ''pool'', demo_mem) = Inr (0x70000000, p', s') \<and>
     deallocate_mem (p', s') = Inr (p'', s'') \<and> held s'' = held demo_mem"
proof -
  from demo_mode3_allocates obtain p' s' where
    a: "allocate_mem demo_mm_env 5000 (demo_mode3 ''pool'', demo_mem) = Inr (0x70000000, p', s')"
      "with_id_0 demo_mm_env p' (held demo_mem) = held demo_mem" by blast
  have "params_ok (demo_mode3 ''pool'', demo_mem)" "first_opener demo_mm_env (demo_mode3 ''pool'', demo_mem)"
    "not_appended (demo_mode3 ''pool'')" "fresh_ids demo_mm_env demo_mem"
    by (simp_all add: params_ok_def demo_mode3_def first_opener_def not_appended_def fresh_ids_def
        mode3_reset_def demo_mem_def demo_mm_env_def itc_const)
  from allocator_roundtrip [OF this(1) a(1) _ _ this(2-4)] a show ?thesis by (auto simp: MAP_FAILED_def)
qed

lemma opener_never_releases_witness:
  "\<exists>p' s'. allocate_mem demo_mm_env 5000 (demo_mode3 ''other'', demo_mem) = Inr (0x70000000, p', s') \<and>
     deallocate_mem (p', s') = Inr (p', s') \<and> hv_fds (held s') = {#7#}"
proof -
  from demo_mode3_allocates obtain p' s' where
    a: "allocate_mem demo_mm_env 5000 (demo_mode3 ''other'', demo_mem) = Inr (0x70000000, p', s')" by blast
  from opener_never_releases [OF _ _ _ a, of "mode3_reset\<lparr>m3_name := ''other''\<rparr>" 1] a show ?thesis
    by (simp add: demo_mode3_def demo_mem_def mode3_reset_def MAP_FAILED_def held_def demo_mm_env_def itc_const)
qed

end
