(* ===== verification/Shared_Memory.thy ===== *)
theory Shared_Memory
  imports Memory_Allocator
begin

text \<open>
  The classes \<open>SYSVSharedMemory\<close>, \<open>POSIXSharedMemory\<close> and \<open>ThreadSharedMemory\<close> of
  \<open>itcMemoryManager.h\<close>: regions acquired by a constructor and given back by the destructor. The
  POSIX constructor keeps the descriptor in a local variable: \<open>m_shmId\<close> stays -1. The thread class declares members that hide those of its base class.
\<close>

section \<open>System V\<close>

record sysv_shm =
  sy_size :: u32
  sy_base :: ptr
  sy_shmId :: i32

definition sysv_shm_new :: "mm_env \<Rightarrow> string \<Rightarrow> i32 \<Rightarrow> u32 \<Rightarrow> mem_sys \<Rightarrow> sysv_shm \<times> mem_sys" where
  "sysv_shm_new E shmName projId sz s =
     (let o0 = \<lparr>sy_size = ROUND_UP_TO_PAGE_SIZES sz, sy_base = nullptr, sy_shmId = - 1\<rparr>;
          shmKey = me_key E shmName projId
      in if sint shmKey < 0 then (o0, s)
         else let (shmId, _, s) = shmget E True shmKey s; o1 = o0\<lparr>sy_shmId := shmId\<rparr>
              in if sint shmId < 0 then (o1, s)
                 else let (a, s) = shmat E s in (o1\<lparr>sy_base := a\<rparr>, s))"

definition sysv_shm_destroy :: "sysv_shm \<Rightarrow> mem_sys \<Rightarrow> mem_sys" where
  "sysv_shm_destroy m s =
     (let s = (if sy_base m \<noteq> nullptr then shmdt (sy_base m) s else s)
      in if sint (sy_shmId m) > 0 then shm_rmid (sy_shmId m) s else s)"

section \<open>POSIX\<close>

record posix_shm =
  px_name :: string
  px_size :: u32
  px_base :: ptr
  px_shmId :: i32

definition posix_shm_new :: "mm_env \<Rightarrow> string \<Rightarrow> u32 \<Rightarrow> mem_sys \<Rightarrow> posix_shm \<times> mem_sys" where
  "posix_shm_new E shmName sz s =
     (let o0 = \<lparr>px_name = shmName, px_size = ROUND_UP_TO_PAGE_SIZES sz, px_base = nullptr, px_shmId = - 1\<rparr>;
          (shmId, eexist, s) = shm_open E True shmName s
      in if sint shmId < 0 \<and> \<not> eexist then (o0, s)
         else let (ret, s) = fchmod E shmId s
              in if sint ret < 0 then (o0, shm_unlink shmName (close_fd shmId s))
                 else let (ret, s) = ftruncate E shmId s
                      in if sint ret < 0 then (o0, shm_unlink shmName (close_fd shmId s))
                         else let (a, s) = mmap E (px_size o0) s in (o0\<lparr>px_base := a\<rparr>, s))"

definition posix_shm_destroy :: "posix_shm \<Rightarrow> mem_sys \<Rightarrow> mem_sys" where
  "posix_shm_destroy m s =
     (let s = (if px_base m \<noteq> nullptr then munmap (px_base m) (px_size m) s else s);
          s = (if sint (px_shmId m) > 0 then close_fd (px_shmId m) s else s)
      in shm_unlink (px_name m) s)"

section \<open>Threads\<close>

record thread_shm =
  tb_base :: ptr      \<comment> \<open>\<open>SharedMemoryIf::m_basePtr\<close>\<close>
  tb_size :: u32      \<comment> \<open>\<open>SharedMemoryIf::m_size\<close>\<close>
  ts_base :: ptr      \<comment> \<open>\<open>ThreadSharedMemory::m_basePtr\<close>\<close>
  ts_size :: u32      \<comment> \<open>\<open>ThreadSharedMemory::m_size\<close>\<close>

definition thread_shm_new :: "mm_env \<Rightarrow> u32 \<Rightarrow> mem_sys \<Rightarrow> thread_shm \<times> mem_sys" where
  "thread_shm_new E sz s =
     (let o0 = \<lparr>tb_base = nullptr, tb_size = ROUND_UP_TO_PAGE_SIZES sz, ts_base = nullptr, ts_size = 0\<rparr>;
          (a, s) = mmap E (ts_size o0) s
      in (o0\<lparr>ts_base := a\<rparr>, s))"

definition thread_shm_destroy :: "thread_shm \<Rightarrow> mem_sys \<Rightarrow> mem_sys" where
  "thread_shm_destroy m s = (if ts_base m \<noteq> nullptr then munmap (ts_base m) (ts_size m) s else s)"

section \<open>What a life leaves behind\<close>

lemma thread_shm_never_maps:
  "ts_base (fst (thread_shm_new E sz s)) = MAP_FAILED"
  "ms_maps (snd (thread_shm_new E sz s)) = ms_maps s"
  by (simp_all add: thread_shm_new_def mem_calls)

lemma sysv_shm_life:
  assumes "sysv_shm_new E nm proj sz s = (m, s')" "sy_base m \<noteq> nullptr" "sy_base m \<noteq> MAP_FAILED"
    and "fresh_ids E s"
  shows "held (sysv_shm_destroy m s') = (if sy_shmId m = 0
    then (held s)\<lparr>hv_segments := (me_key E nm proj, 0) # hv_segments (held s)\<rparr> else held s)"
proof -
  let ?key = "me_key E nm proj" and ?id = "me_shmid E (ms_now s)"
  have ok: "\<not> sint ?key < 0" "map_of (ms_segments s) ?key = None" "\<not> sint ?id < 0"
    using assms(1,2) by (auto simp: sysv_shm_new_def mem_calls split: if_splits option.splits)
  have fresh: "?id \<notin> snd ` set (ms_segments s)" using assms(4) by (simp add: fresh_ids_def)
  have "filter (\<lambda>(_, i). i \<noteq> ?id) (ms_segments s) = ms_segments s"
    using fresh by (intro filter_True) force
  with assms(1-3) ok sint_pos [of ?id] show ?thesis
    by (auto simp: sysv_shm_new_def sysv_shm_destroy_def mem_calls held_def MAP_FAILED_def split: if_splits)
qed

text \<open>A POSIX shared memory object does not clean up after itself, and destroys others': if the
  construction succeeds, its destruction gives back the mapping and the name but never the
  descriptor; if the name was already there, the construction fails and removes the name of the
  object that someone else is using.\<close>

lemma posix_shm_life:
  assumes "posix_shm_new E nm sz s = (m, s')" "distinct (ms_objects s)" "- 1 \<notin> set (ms_fds s)"
  shows "if nm \<in> set (ms_objects s)
    then px_base m = nullptr \<and> nm \<notin> set (ms_objects s') \<and> hv_fds (held s') = hv_fds (held s)
    else px_base m \<noteq> nullptr \<and> px_base m \<noteq> MAP_FAILED \<longrightarrow>
      held (posix_shm_destroy m s') = (held s)\<lparr>hv_fds := hv_fds (held s) + {#me_fd E (ms_now s)#}\<rparr>"
proof (cases "nm \<in> set (ms_objects s)")
  case True
  with assms show ?thesis
    by (auto simp: posix_shm_new_def mem_calls held_def remove1_idem)
next
  case False
  with assms show ?thesis
    by (auto simp: posix_shm_new_def posix_shm_destroy_def mem_calls held_def split: if_splits)
qed

lemma posix_shm_life_witness:
  "\<exists>m s' m2 s2. posix_shm_new demo_mm_env ''pool'' 5000 demo_mem = (m, s') \<and>
     hv_fds (held (posix_shm_destroy m s')) = {#7#} \<and>
     posix_shm_new demo_mm_env ''other'' 5000 demo_mem = (m2, s2) \<and> ''other'' \<notin> set (ms_objects s2)"
proof -
  have d: "distinct (ms_objects demo_mem)" "- 1 \<notin> set (ms_fds demo_mem)" by (simp_all add: demo_mem_def)
  obtain m s' where n: "posix_shm_new demo_mm_env ''pool'' 5000 demo_mem = (m, s')" by fastforce
  have "ROUND_UP_TO_PAGE_SIZES 5000 \<noteq> 0" by code_simp
  then have "px_base m = 0x70000000"
    using n by (auto simp: posix_shm_new_def mem_calls demo_mem_def demo_mm_env_def MAP_FAILED_def)
  with posix_shm_life [OF n d] have "hv_fds (held (posix_shm_destroy m s')) = {#7#}"
    by (simp add: demo_mem_def demo_mm_env_def held_def MAP_FAILED_def)
  moreover obtain m2 s2 where n2: "posix_shm_new demo_mm_env ''other'' 5000 demo_mem = (m2, s2)" by fastforce
  with posix_shm_life [OF n2 d] have "''other'' \<notin> set (ms_objects s2)" by (simp add: demo_mem_def)
  ultimately show ?thesis using n n2 by blast
qed

end
