(* ===== verification/Memory_Pool.thy ===== *)
theory Memory_Pool
  imports LockFree_Queue Memory_Allocator
begin

text \<open>
  \<open>MemoryPool\<close> of \<open>itcMemoryManager.h\<close>: a region whose start holds three queues of free slots and
  a lock, and whose rest is the slots of 64, 256 and 512 bytes. The constructor places the queues
  with pointer arithmetic, so that an offset counts objects, not bytes. Constructing an object
  outside the region is a wild access.
\<close>

section \<open>Layout\<close>

named_theorems pool_const "constants of the pool layout"

definition MEMORY_POOL_64_SLOT_SIZE :: u32 where [pool_const]: "MEMORY_POOL_64_SLOT_SIZE = 64"
definition MEMORY_POOL_256_SLOT_SIZE :: u32 where [pool_const]: "MEMORY_POOL_256_SLOT_SIZE = 256"
definition MEMORY_POOL_512_SLOT_SIZE :: u32 where [pool_const]: "MEMORY_POOL_512_SLOT_SIZE = 512"
definition MEMORY_POOL_64_SLOTS :: u32 where [pool_const]: "MEMORY_POOL_64_SLOTS = 51"
definition MEMORY_POOL_256_SLOTS :: u32 where [pool_const]: "MEMORY_POOL_256_SLOTS = 16"
definition MEMORY_POOL_512_SLOTS :: u32 where [pool_const]: "MEMORY_POOL_512_SLOTS = 16"

definition MEMORY_POOL_64_METADATA_SIZE :: u32 where
  [pool_const]: "MEMORY_POOL_64_METADATA_SIZE = ucast (ROUND_UP_TO_64_BYTES (4 * ucast MEMORY_POOL_64_SLOTS + 128))"

definition MEMORY_POOL_256_METADATA_SIZE :: u32 where
  [pool_const]: "MEMORY_POOL_256_METADATA_SIZE = 4 * MEMORY_POOL_256_SLOTS + 128"

definition MEMORY_POOL_512_METADATA_SIZE :: u32 where
  [pool_const]: "MEMORY_POOL_512_METADATA_SIZE = 4 * MEMORY_POOL_512_SLOTS + 128"

definition MEMORY_POOL_UNLIMITED_METADATA_SIZE :: u32 where
  [pool_const]: "MEMORY_POOL_UNLIMITED_METADATA_SIZE = ucast (ROUND_UP_TO_64_BYTES 4)"

definition MEMORY_POOL_METADATA_SIZE :: u32 where
  [pool_const]: "MEMORY_POOL_METADATA_SIZE = MEMORY_POOL_64_METADATA_SIZE + MEMORY_POOL_256_METADATA_SIZE +
     MEMORY_POOL_512_METADATA_SIZE + MEMORY_POOL_UNLIMITED_METADATA_SIZE"

definition MEMORY_POOL_TOTAL_SIZE :: u32 where
  [pool_const]: "MEMORY_POOL_TOTAL_SIZE = MEMORY_POOL_METADATA_SIZE +
     MEMORY_POOL_64_SLOTS * MEMORY_POOL_64_SLOT_SIZE + MEMORY_POOL_256_SLOTS * MEMORY_POOL_256_SLOT_SIZE +
     MEMORY_POOL_512_SLOTS * MEMORY_POOL_512_SLOT_SIZE"

definition MEMORY_POOL_64_START_OFFSET :: u32 where
  [pool_const]: "MEMORY_POOL_64_START_OFFSET = MEMORY_POOL_METADATA_SIZE"

definition MEMORY_POOL_256_START_OFFSET :: u32 where
  [pool_const]: "MEMORY_POOL_256_START_OFFSET =
     MEMORY_POOL_64_START_OFFSET + MEMORY_POOL_64_SLOTS * MEMORY_POOL_64_SLOT_SIZE"

definition MEMORY_POOL_512_START_OFFSET :: u32 where
  [pool_const]: "MEMORY_POOL_512_START_OFFSET =
     MEMORY_POOL_256_START_OFFSET + MEMORY_POOL_256_SLOTS * MEMORY_POOL_256_SLOT_SIZE"

text \<open>\<open>sizeof(LockFreeQueue<int32_t, n>)\<close>: head and tail on a cache line each, then the slots.\<close>

definition sizeof_pool_queue :: "u32 \<Rightarrow> u32" where
  "sizeof_pool_queue n = 128 + ucast (ROUND_UP_TO_64_BYTES (4 * ucast (queue_size 1 n)))"

section \<open>Operations\<close>

definition pool_cfg :: "u32 \<Rightarrow> i32 lfq_cfg" where
  "pool_cfg n = lfq_template 1 n (- 1) 4"

record mem_pool =
  mp_base :: ptr
  mp_64 :: "i32 lfq option"
  mp_256 :: "i32 lfq option"
  mp_512 :: "i32 lfq option"

definition placed :: "u32 \<Rightarrow> u32 \<Rightarrow> u32 \<Rightarrow> bool" where
  "placed sz off len \<longleftrightarrow> unat off + unat len \<le> unat sz"

fun push_slots :: "u32 \<Rightarrow> u32 \<Rightarrow> u32 \<Rightarrow> nat list \<Rightarrow> i32 lfq \<Rightarrow> i32 lfq res" where
  "push_slots slots start slotSize [] q = Inr q"
| "push_slots slots start slotSize (i # is) q =
     and_then (lfq_push (pool_cfg slots) (start + of_nat i * slotSize) q) (push_slots slots start slotSize is)"

definition new_queue :: "u32 \<Rightarrow> u32 \<Rightarrow> u32 \<Rightarrow> i32 lfq res" where
  "new_queue slots start slotSize =
     push_slots slots start slotSize [0..<unat slots] (lfq_new (pool_cfg slots))"

definition mem_pool_new :: "ptr \<Rightarrow> u32 \<Rightarrow> mem_pool res" where
  "mem_pool_new base sz =
     (let p0 = \<lparr>mp_base = base, mp_64 = None, mp_256 = None, mp_512 = None\<rparr>;
          o64 = 0;
          o256 = o64 + MEMORY_POOL_64_METADATA_SIZE * sizeof_pool_queue MEMORY_POOL_64_SLOTS;
          o512 = o256 + MEMORY_POOL_256_METADATA_SIZE * sizeof_pool_queue MEMORY_POOL_256_SLOTS;
          oUnlimited = o512 + MEMORY_POOL_UNLIMITED_METADATA_SIZE * sizeof_pool_queue MEMORY_POOL_512_SLOTS
      in if sz < MEMORY_POOL_TOTAL_SIZE then Inr p0
         else if \<not> placed sz o64 (sizeof_pool_queue MEMORY_POOL_64_SLOTS) then Inl WildAccess
         else if \<not> placed sz o256 (sizeof_pool_queue MEMORY_POOL_256_SLOTS) then Inl WildAccess
         else if \<not> placed sz o512 (sizeof_pool_queue MEMORY_POOL_512_SLOTS) then Inl WildAccess
         else if \<not> placed sz oUnlimited 4 then Inl WildAccess
         else and_then (new_queue MEMORY_POOL_64_SLOTS MEMORY_POOL_64_START_OFFSET MEMORY_POOL_64_SLOT_SIZE) (\<lambda>q64.
              and_then (new_queue MEMORY_POOL_256_SLOTS MEMORY_POOL_256_START_OFFSET MEMORY_POOL_256_SLOT_SIZE) (\<lambda>q256.
              and_then (new_queue MEMORY_POOL_512_SLOTS MEMORY_POOL_512_START_OFFSET MEMORY_POOL_512_SLOT_SIZE) (\<lambda>q512.
                Inr \<lparr>mp_base = base, mp_64 = Some q64, mp_256 = Some q256, mp_512 = Some q512\<rparr>))))"

definition pop_slot :: "u32 \<Rightarrow> i32 lfq option \<Rightarrow> (i32 \<times> i32 lfq) res" where
  "pop_slot slots q = (case q of None \<Rightarrow> Inl WildAccess | Some q \<Rightarrow> lfq_pop (pool_cfg slots) q)"

text \<open>The address of a slot: the sum is the pointer's, the product has 32 bits.\<close>

definition slot_address :: "ptr \<Rightarrow> u32 \<Rightarrow> i32 \<Rightarrow> u32 \<Rightarrow> ptr" where
  "slot_address base start index slotSize = base + ucast start + ucast (index * slotSize)"

definition mem_pool_allocate :: "u32 \<Rightarrow> mem_pool \<Rightarrow> (ptr \<times> mem_pool) res" where
  "mem_pool_allocate sz p =
     (if sz \<le> MEMORY_POOL_64_SLOT_SIZE
      then and_then (pop_slot MEMORY_POOL_64_SLOTS (mp_64 p)) (\<lambda>(index, q).
             Inr (slot_address (mp_base p) MEMORY_POOL_64_START_OFFSET index MEMORY_POOL_64_SLOT_SIZE,
                  p\<lparr>mp_64 := Some q\<rparr>))
      else if sz \<le> MEMORY_POOL_256_SLOT_SIZE
      then and_then (pop_slot MEMORY_POOL_256_SLOTS (mp_256 p)) (\<lambda>(index, q).
             Inr (slot_address (mp_base p) MEMORY_POOL_256_START_OFFSET index MEMORY_POOL_256_SLOT_SIZE,
                  p\<lparr>mp_256 := Some q\<rparr>))
      else if sz \<le> MEMORY_POOL_512_SLOT_SIZE
      then and_then (pop_slot MEMORY_POOL_512_SLOTS (mp_512 p)) (\<lambda>(index, q).
             Inr (slot_address (mp_base p) MEMORY_POOL_512_START_OFFSET index MEMORY_POOL_512_SLOT_SIZE,
                  p\<lparr>mp_512 := Some q\<rparr>))
      else Inr (nullptr, p))"

lemma pool_sizes:
  "MEMORY_POOL_64_METADATA_SIZE = 384" "MEMORY_POOL_256_METADATA_SIZE = 192"
  "MEMORY_POOL_512_METADATA_SIZE = 192" "MEMORY_POOL_UNLIMITED_METADATA_SIZE = 64"
  "MEMORY_POOL_64_START_OFFSET = 832" "MEMORY_POOL_256_START_OFFSET = 4096"
  "MEMORY_POOL_512_START_OFFSET = 8192" "MEMORY_POOL_TOTAL_SIZE = 16384"
  "sizeof_pool_queue 51 = 384" "sizeof_pool_queue 16 = 192"
  by code_simp+

section \<open>The queues of free slots\<close>

lemma push_slots_list:
  assumes "lfq_ok (pool_cfg slots) q" "\<forall>i \<in> set is. start + of_nat i * slotSize \<noteq> - 1"
    and "length (lfq_list (pool_cfg slots) q) + length is \<le> unat (lq_size (pool_cfg slots))"
  shows "\<exists>q'. push_slots slots start slotSize is q = Inr q' \<and> lfq_ok (pool_cfg slots) q' \<and>
    lfq_list (pool_cfg slots) q' = lfq_list (pool_cfg slots) q @ map (\<lambda>i. start + of_nat i * slotSize) is"
  using assms
proof (induction "is" arbitrary: q)
  case (Cons i "is")
  let ?x = "start + of_nat i * slotSize"
  have "?x \<noteq> lq_nil (pool_cfg slots)" using Cons.prems(2) by (simp add: pool_cfg_def lfq_template_def)
  with lfq.push_room [OF Cons.prems(1), of ?x] Cons.prems(3) obtain q1 where
    "lfq_push (pool_cfg slots) ?x q = Inr q1" "lfq_ok (pool_cfg slots) q1"
    "lfq_list (pool_cfg slots) q1 = lfq_list (pool_cfg slots) q @ [?x]"
    by auto
  with Cons.IH [of q1] Cons.prems show ?case by auto
qed simp

lemma pool_64_cfg: "cfg_ok (pool_cfg 51)" "unat (lq_size (pool_cfg 51)) = 64" "lq_nil (pool_cfg 51) = - 1"
  by (code_simp, code_simp, simp add: pool_cfg_def lfq_template_def)

lemma pool_16_cfg: "cfg_ok (pool_cfg 16)" "unat (lq_size (pool_cfg 16)) = 16" "lq_nil (pool_cfg 16) = - 1"
  by (code_simp, code_simp, simp add: pool_cfg_def lfq_template_def)

lemma slot_offset:
  assumes "i < 51" "unat (start :: u32) \<le> 8192" "unat (slotSize :: u32) \<le> 512"
  shows "unat (start + of_nat i * slotSize) = unat start + i * unat slotSize"
    "start + of_nat i * slotSize \<noteq> - 1"
proof -
  have le: "i * unat slotSize \<le> 50 * 512" using assms(1,3) by (intro mult_le_mono) auto
  have i: "unat (of_nat i :: u32) = i" using assms(1) by (intro unat_of_nat_less) simp
  have m: "unat (of_nat i * slotSize) = i * unat slotSize"
    using le by (subst unat_mult_lem [THEN iffD1]) (simp_all add: i)
  show u: "unat (start + of_nat i * slotSize) = unat start + i * unat slotSize"
    using le assms(2) by (subst unat_add_lem [THEN iffD1]) (simp_all add: m)
  have "unat (- 1 :: u32) = 2 ^ 32 - 1" by (simp add: unsigned_minus_1_eq_mask mask_eq_exp_minus_1)
  moreover have "unat (start + of_nat i * slotSize) < 2 ^ 32 - 1"
    using le assms(2) u by simp
  ultimately show "start + of_nat i * slotSize \<noteq> - 1" by (metis less_irrefl)
qed

lemma new_queue_list:
  assumes "slots = 51 \<or> slots = 16" "unat start \<le> 8192" "unat slotSize \<le> 512"
  shows "\<exists>q. new_queue slots start slotSize = Inr q \<and> lfq_ok (pool_cfg slots) q \<and>
    lfq_list (pool_cfg slots) q = map (\<lambda>i. start + of_nat i * slotSize) [0..<unat slots]"
proof -
  have n: "unat slots \<le> 51" "unat slots \<le> unat (lq_size (pool_cfg slots))" "cfg_ok (pool_cfg slots)"
    using assms(1) pool_64_cfg pool_16_cfg by auto
  have "\<forall>i \<in> set [0..<unat slots]. start + of_nat i * slotSize \<noteq> - 1"
    using n(1) slot_offset(2) [OF _ assms(2,3)] by auto
  with push_slots_list [OF lfq_new_ok [OF n(3)], of "[0..<unat slots]" start slotSize] n(2)
  show ?thesis by (simp add: new_queue_def lfq_new_list)
qed

fun allocate_many :: "u32 \<Rightarrow> nat \<Rightarrow> mem_pool \<Rightarrow> (ptr list \<times> mem_pool) res" where
  "allocate_many sz 0 p = Inr ([], p)"
| "allocate_many sz (Suc n) p =
     and_then (mem_pool_allocate sz p) (\<lambda>(a, p). and_then (allocate_many sz n p) (\<lambda>(as, p). Inr (a # as, p)))"

lemma allocate_many_list:
  assumes "sz \<le> 64" "mp_64 p = Some q" "lfq_ok (pool_cfg 51) q" "lfq_list (pool_cfg 51) q = xs"
  shows "\<exists>p'. allocate_many sz (length xs) p = Inr (map (\<lambda>x. slot_address (mp_base p) 832 x 64) xs, p') \<and>
    mem_pool_allocate sz p' = Inl Blocked"
  using assms
proof (induction xs arbitrary: p q)
  case Nil
  then show ?case
    by (simp add: mem_pool_allocate_def pop_slot_def pool_sizes MEMORY_POOL_64_SLOT_SIZE_def
        MEMORY_POOL_64_SLOTS_def lfq.pop_none)
next
  case (Cons x xs)
  from lfq.pop_some [OF Cons.prems(3,4)] obtain q' where
    q': "lfq_pop (pool_cfg 51) q = Inr (x, q')" "lfq_ok (pool_cfg 51) q'" "lfq_list (pool_cfg 51) q' = xs" by blast
  let ?p = "p\<lparr>mp_64 := Some q'\<rparr>"
  have "mem_pool_allocate sz p = Inr (slot_address (mp_base p) 832 x 64, ?p)"
    using Cons.prems(1,2) q'(1)
    by (simp add: mem_pool_allocate_def pop_slot_def pool_sizes MEMORY_POOL_64_SLOT_SIZE_def
        MEMORY_POOL_64_SLOTS_def)
  moreover have "\<exists>p'. allocate_many sz (length xs) ?p = Inr (map (\<lambda>x. slot_address (mp_base ?p) 832 x 64) xs, p') \<and>
      mem_pool_allocate sz p' = Inl Blocked"
    using Cons.prems(1) q'(2,3) by (intro Cons.IH [of ?p q']) simp_all
  ultimately show ?case by auto
qed

text \<open>The memory pool does not work for any size of its region: below the 16384 bytes it needs, it
  stays without queues and allocating a small block dereferences null; from there up to 196611
  bytes, constructing its queues writes outside the region; above, the 51 small slots are given
  out once each, but at addresses behind the pool's own 16384 bytes, because the stored offsets
  are scaled again; the next small request waits for ever.\<close>

theorem memory_pool_misplaced:
  assumes "sz' \<le> 64"
  shows "if sz < 16384
    then \<exists>p. mem_pool_new base sz = Inr p \<and> mem_pool_allocate sz' p = Inl WildAccess
    else if sz < 196612 then mem_pool_new base sz = Inl WildAccess
    else \<exists>p p'. mem_pool_new base sz = Inr p \<and>
      allocate_many sz' 51 p = Inr (map (\<lambda>i. base + of_nat (832 + 64 * (832 + 64 * i))) [0..<51], p') \<and>
      mem_pool_allocate sz' p' = Inl Blocked"
proof -
  have c: "MEMORY_POOL_64_SLOTS = 51" "MEMORY_POOL_256_SLOTS = 16" "MEMORY_POOL_512_SLOTS = 16"
    "MEMORY_POOL_64_SLOT_SIZE = 64" "MEMORY_POOL_256_SLOT_SIZE = 256" "MEMORY_POOL_512_SLOT_SIZE = 512"
    by (simp_all add: pool_const)
  have lt: "sz < 196612 \<longleftrightarrow> \<not> placed sz 196608 4" by (simp add: placed_def word_less_nat_alt not_le)
  consider "sz < 16384" | "\<not> sz < 16384" "sz < 196612" | "\<not> sz < 196612" by blast
  then show ?thesis
  proof cases
    case 1
    with assms show ?thesis
      by (simp add: mem_pool_new_def mem_pool_allocate_def pool_sizes c pop_slot_def)
  next
    case 2
    with lt show ?thesis by (simp add: mem_pool_new_def pool_sizes c)
  next
    case 3
    then have big: "196612 \<le> unat sz" by (simp add: word_less_nat_alt)
    then have "\<not> sz < 16384" by (simp add: word_less_nat_alt)
    obtain q64 q256 q512 where q: "new_queue 51 832 64 = Inr q64" "new_queue 16 4096 256 = Inr q256"
      "new_queue 16 8192 512 = Inr q512" "lfq_ok (pool_cfg 51) q64"
      "lfq_list (pool_cfg 51) q64 = map (\<lambda>i. 832 + of_nat i * 64) [0..<51]"
      using new_queue_list [of 51 832 64] new_queue_list [of 16 4096 256] new_queue_list [of 16 8192 512]
      by (auto simp del: upt_rec_numeral)
    let ?p = "\<lparr>mp_base = base, mp_64 = Some q64, mp_256 = Some q256, mp_512 = Some q512\<rparr>"
    have "mem_pool_new base sz = Inr ?p"
      using big q \<open>\<not> sz < 16384\<close> by (simp add: mem_pool_new_def pool_sizes c placed_def)
    moreover have "slot_address base 832 (832 + of_nat i * 64) 64 = base + of_nat (832 + 64 * (832 + 64 * i))"
      if "i < 51" for i
    proof -
      have "(832 + of_nat i * 64 :: u32) * 64 = of_nat (64 * (832 + 64 * i))" by simp
      moreover have "unat (of_nat (64 * (832 + 64 * i)) :: u32) = 64 * (832 + 64 * i)"
        using that by (intro unat_of_nat_less) simp
      ultimately have "ucast ((832 + of_nat i * 64 :: u32) * 64) = (of_nat (64 * (832 + 64 * i)) :: ptr)"
        by (metis of_nat_unat)
      then show ?thesis by (simp add: slot_address_def)
    qed
    moreover obtain p' where "allocate_many sz' 51 ?p =
        Inr (map (\<lambda>x. slot_address base 832 x 64) (map (\<lambda>i. 832 + of_nat i * 64) [0..<51]), p')"
      "mem_pool_allocate sz' p' = Inl Blocked"
      using allocate_many_list [OF assms _ q(4,5), of ?p] by (auto simp del: upt_rec_numeral)
    moreover have "\<not> sz < 196612" using 3 .
    ultimately show ?thesis using \<open>\<not> sz < 16384\<close> by (auto simp: comp_def simp del: upt_rec_numeral)
  qed
qed

theorem memory_pool_misplaced_witness:
  "mem_pool_new 0x10000 16384 = Inl WildAccess \<and>
   (\<exists>p p' as. mem_pool_new 0x10000 0x40000 = Inr p \<and> allocate_many 20 51 p = Inr (as, p') \<and>
      hd as = 0x10000 + 54080 \<and> mem_pool_allocate 20 p' = Inl Blocked)"
proof -
  have "mem_pool_new 0x10000 16384 = Inl WildAccess"
    using memory_pool_misplaced [of 20 16384 "0x10000"] by simp
  moreover from memory_pool_misplaced [of 20 "0x40000" "0x10000"] obtain p p' where
    p: "mem_pool_new 0x10000 0x40000 = Inr p"
      "allocate_many 20 51 p = Inr (map (\<lambda>i. 0x10000 + of_nat (832 + 64 * (832 + 64 * i))) [0..<51], p')"
      "mem_pool_allocate 20 p' = Inl Blocked"
    by (auto simp del: upt_rec_numeral)
  moreover have "hd (map (\<lambda>i. 0x10000 + of_nat (832 + 64 * (832 + 64 * i)) :: ptr) [0..<51]) = 0x10000 + 54080"
    by (subst list.map_sel) (simp_all add: hd_upt del: upt_rec_numeral)
  ultimately show ?thesis by blast
qed

end
