(* ===== verification/Shm_Exchange.thy ===== *)
theory Shm_Exchange
  imports Memory_Allocator LockFree_Queue
begin

text \<open>
  The two programs that exchange messages between processes over a queue in shared memory
  (\<open>itcLockFreeQueueOnPOSIXSharedMemoryTest\<close>): the receiver creates the object and the queue in
  it, the sender writes 1000 numbered slots and pushes their numbers. The region is what both
  map: the queue at offset 0, the slots from the fifth page on.
\<close>

section \<open>Opening and closing\<close>

definition receiverName :: string where
  "receiverName = ''/receiver''"

definition SHM_BYTES :: u32 where
  "SHM_BYTES = 4096 * 8"

definition receiver_start :: "mm_env \<Rightarrow> mem_sys \<Rightarrow> (ptr \<times> i32) option \<times> mem_sys" where
  "receiver_start E s =
     (let s = shm_unlink receiverName s; (shmId, _, s) = shm_open E True receiverName s
      in if sint shmId < 0 then (None, s)
         else let (ret, s) = fchmod E shmId s
              in if sint ret < 0 then (None, shm_unlink receiverName (close_fd shmId s))
                 else let (ret, s) = ftruncate E shmId s
                      in if sint ret < 0 then (None, shm_unlink receiverName (close_fd shmId s))
                         else let (shmBasePtr, s) = mmap E SHM_BYTES s
                              in if shmBasePtr = nullptr then (None, shm_unlink receiverName (close_fd shmId s))
                                 else (Some (shmBasePtr, shmId), s))"

definition receiver_stop :: "ptr \<Rightarrow> i32 \<Rightarrow> mem_sys \<Rightarrow> mem_sys" where
  "receiver_stop shmBasePtr shmId s =
     shm_unlink receiverName (close_fd shmId (munmap shmBasePtr SHM_BYTES s))"

definition sender_start :: "mm_env \<Rightarrow> mem_sys \<Rightarrow> ptr option \<times> mem_sys" where
  "sender_start E s =
     (let (receiverShmId, _, s) = shm_open E False receiverName s
      in if sint receiverShmId < 0 then (None, s)
         else let (receiverShmBasePtr, s) = mmap E SHM_BYTES s
              in if receiverShmBasePtr = nullptr then (None, s) else (Some receiverShmBasePtr, s))"

definition sender_stop :: "ptr \<Rightarrow> mem_sys \<Rightarrow> mem_sys" where
  "sender_stop receiverShmBasePtr s = munmap receiverShmBasePtr SHM_BYTES s"

section \<open>The exchange\<close>

definition shm_cfg :: "u64 lfq_cfg" where
  "shm_cfg = lfq_template 1 1024 (- 1) 8"

text \<open>\<open>sizeof\<close> of the queue, and the slots that fit behind the fourth page.\<close>

definition SHM_QUEUE_BYTES :: nat where
  "SHM_QUEUE_BYTES = 128 + 8 * unat (lq_size shm_cfg)"

definition SHM_SLOTS :: nat where
  "SHM_SLOTS = (unat SHM_BYTES - 4096 * 4) div 8"

record shm_region =
  rg_queue :: "u64 lfq"
  rg_slots :: "u64 list"

definition region_new :: "u64 list \<Rightarrow> shm_region" where
  "region_new slots = \<lparr>rg_queue = lfq_new shm_cfg, rg_slots = slots\<rparr>"

definition NUMBER_OF_MESSAGES :: nat where
  "NUMBER_OF_MESSAGES = 1000"

definition slot_value :: "u64 \<Rightarrow> nat \<Rightarrow> u64" where
  "slot_value start cnt = (if cnt = 0 then start else of_nat cnt)"

function sender_loop :: "u64 \<Rightarrow> nat \<Rightarrow> shm_region \<Rightarrow> shm_region res" where
  "sender_loop start cnt r =
     (if \<not> cnt < NUMBER_OF_MESSAGES then Inr r
      else if \<not> cnt < length (rg_slots r) then Inl WildAccess
      else and_then (lfq_push shm_cfg (of_nat cnt) (rg_queue r)) (\<lambda>q.
             sender_loop start (cnt + 1) \<lparr>rg_queue = q, rg_slots = (rg_slots r)[cnt := slot_value start cnt]\<rparr>))"
  by auto
termination
  by (relation "measure (\<lambda>(_, cnt, _). NUMBER_OF_MESSAGES - cnt)") auto

declare sender_loop.simps [simp del]

text \<open>The receiver reads the slot before it looks at the number. The fuel counts the numbers it takes:
  \<open>None\<close> when it is used up.\<close>

fun receiver_loop :: "nat \<Rightarrow> nat \<Rightarrow> u64 \<Rightarrow> shm_region \<Rightarrow> (u64 \<times> shm_region) res option" where
  "receiver_loop fuel cnt start r =
     (if \<not> cnt < NUMBER_OF_MESSAGES then Some (Inr (start, r))
      else case fuel of
        0 \<Rightarrow> None
      | Suc fuel \<Rightarrow>
          (case lfq_pop shm_cfg (rg_queue r) of
             Inl e \<Rightarrow> Some (Inl e)
           | Inr (index, q) \<Rightarrow>
               let r = r\<lparr>rg_queue := q\<rparr>
               in if \<not> unat index < length (rg_slots r) then Some (Inl WildAccess)
                  else if index = 0 then receiver_loop fuel (cnt + 1) (rg_slots r ! 0) r
                  else if sint index \<ge> 0 \<and> rg_slots r ! unat index = index
                       then receiver_loop fuel (cnt + 1) start r
                       else receiver_loop fuel cnt start r))"

declare receiver_loop.simps [simp del]

lemma shm_layout:
  "cfg_ok shm_cfg" "unat (lq_size shm_cfg) = 1024" "lq_nil shm_cfg = - 1"
  "SHM_QUEUE_BYTES \<le> 4096 * 4" "NUMBER_OF_MESSAGES \<le> SHM_SLOTS"
proof -
  show u: "unat (lq_size shm_cfg) = 1024" by code_simp
  show "cfg_ok shm_cfg" by code_simp
  show "lq_nil shm_cfg = - 1" by (simp add: shm_cfg_def lfq_template_def)
  show "SHM_QUEUE_BYTES \<le> 4096 * 4" by (simp add: SHM_QUEUE_BYTES_def u)
  show "NUMBER_OF_MESSAGES \<le> SHM_SLOTS" by (simp add: SHM_SLOTS_def SHM_BYTES_def NUMBER_OF_MESSAGES_def)
qed

lemma number_word:
  assumes "k < 1000"
  shows "unat (of_nat k :: u64) = k" "(of_nat k :: u64) \<noteq> - 1" "0 \<le> sint (of_nat k :: u64)"
    "(of_nat k :: u64) = 0 \<longleftrightarrow> k = 0"
proof -
  show u: "unat (of_nat k :: u64) = k" using assms by (intro unat_of_nat_less) simp
  have "unat (- 1 :: u64) = 2 ^ 64 - 1" by (simp add: unsigned_minus_1_eq_mask mask_eq_exp_minus_1)
  moreover have "unat (of_nat k :: u64) < 2 ^ 64 - 1" unfolding u using assms by simp
  ultimately show "(of_nat k :: u64) \<noteq> - 1" by (metis less_irrefl)
  show "0 \<le> sint (of_nat k :: u64)"
    using u assms by (subst sint_u64_small) simp_all
  show "(of_nat k :: u64) = 0 \<longleftrightarrow> k = 0"
  proof
    assume "(of_nat k :: u64) = 0"
    then have "unat (of_nat k :: u64) = 0" by (simp only: unat_0)
    then show "k = 0" by (simp only: u)
  qed simp
qed

text \<open>One step of each loop on a queue that holds the numbers \<open>ns\<close>.\<close>

definition holds_numbers :: "nat list \<Rightarrow> u64 lfq \<Rightarrow> bool" where
  "holds_numbers ns q \<longleftrightarrow> lfq_ok shm_cfg q \<and> lfq_list shm_cfg q = map of_nat ns"

lemma push_number:
  assumes "holds_numbers ns q" "length ns < 1024" "k < 1000"
  shows "\<exists>q'. lfq_push shm_cfg (of_nat k) q = Inr q' \<and> holds_numbers (ns @ [k]) q'"
proof -
  have q: "lfq_ok shm_cfg q" "lfq_list shm_cfg q = map of_nat ns" using assms(1) by (simp_all add: holds_numbers_def)
  then have "length (lfq_list shm_cfg q) < unat (lq_size shm_cfg)" using assms(2) shm_layout(2) by (simp only: length_map)
  moreover have "of_nat k \<noteq> lq_nil shm_cfg" using number_word(2) [OF assms(3)] shm_layout(3) by simp
  ultimately show ?thesis using lfq.push_room [OF q(1), of "of_nat k"] q(2) by (auto simp: holds_numbers_def)
qed

lemma pop_number:
  assumes "holds_numbers (k # ns) q"
  shows "\<exists>q'. lfq_pop shm_cfg q = Inr (of_nat k, q') \<and> holds_numbers ns q'"
  using lfq.pop_some [of shm_cfg q "of_nat k" "map of_nat ns"] assms by (auto simp: holds_numbers_def)

lemma upt_from_0: "0 < n \<Longrightarrow> [0..<n] = 0 # [1..<n]"
  by (simp add: upt_conv_Cons)

declare upt_rec_numeral [simp del]

lemma sender_loop_sends:
  assumes "holds_numbers [0..<k] (rg_queue r)" "k \<le> 1000" "1000 \<le> length (rg_slots r)"
    and "\<forall>i < k. rg_slots r ! i = slot_value start i"
  shows "\<exists>r'. sender_loop start k r = Inr r' \<and> holds_numbers [0..<1000] (rg_queue r') \<and>
    length (rg_slots r') = length (rg_slots r) \<and> (\<forall>i < 1000. rg_slots r' ! i = slot_value start i)"
  using assms
proof (induction "1000 - k" arbitrary: k r)
  case 0
  then have "k = 1000" by simp
  with 0 show ?case by (subst sender_loop.simps) (simp add: NUMBER_OF_MESSAGES_def)
next
  case (Suc n)
  then have k: "k < 1000" by simp
  from push_number [OF Suc.prems(1) _ k] k obtain q where
    q: "lfq_push shm_cfg (of_nat k) (rg_queue r) = Inr q" "holds_numbers [0..<Suc k] q" by auto
  let ?r = "\<lparr>rg_queue = q, rg_slots = (rg_slots r)[k := slot_value start k]\<rparr>"
  have "\<forall>i < Suc k. rg_slots ?r ! i = slot_value start i"
    using Suc.prems(3,4) k by (auto simp: nth_list_update less_Suc_eq)
  with Suc.hyps(1) [of "Suc k" ?r] Suc.hyps(2) Suc.prems(3) k q show ?case
    by (subst sender_loop.simps) (simp add: NUMBER_OF_MESSAGES_def)
qed

lemma receiver_loop_receives:
  assumes "holds_numbers [k..<1000] (rg_queue r)" "0 < k" "k \<le> 1000" "1000 \<le> length (rg_slots r)"
    and "\<forall>i < 1000. rg_slots r ! i = slot_value v i"
  shows "\<exists>r'. receiver_loop (1000 - k) k start r = Some (Inr (start, r')) \<and> holds_numbers [] (rg_queue r')"
  using assms
proof (induction "1000 - k" arbitrary: k r)
  case 0
  then have "k = 1000" by simp
  with 0 show ?case by (subst receiver_loop.simps) (simp add: NUMBER_OF_MESSAGES_def)
next
  case (Suc n)
  then have k: "k < 1000" "1000 - k = Suc (1000 - Suc k)" by simp_all
  then have "[k..<1000] = k # [Suc k..<1000]" by (simp add: upt_conv_Cons)
  with Suc.prems(1) pop_number [of k "[Suc k..<1000]" "rg_queue r"] obtain q where
    q: "lfq_pop shm_cfg (rg_queue r) = Inr (of_nat k, q)" "holds_numbers [Suc k..<1000] q" by auto
  have "rg_slots r ! k = of_nat k" using Suc.prems(2,5) k by (simp add: slot_value_def)
  with number_word [OF k(1)] q(1) Suc.prems(2,4) k
  have "receiver_loop (1000 - k) k start r = receiver_loop (1000 - Suc k) (Suc k) start (r\<lparr>rg_queue := q\<rparr>)"
    by (subst receiver_loop.simps) (simp add: NUMBER_OF_MESSAGES_def)
  with Suc.hyps(1) [of "Suc k" "r\<lparr>rg_queue := q\<rparr>"] Suc.hyps(2) Suc.prems q(2) k show ?case by simp
qed

text \<open>C19: The exchange over shared memory loses nothing: in a region of the size the programs map the
  queue does not reach the slots and the slots of all messages fit; when the sender has run,
  the receiver takes 1000 numbers, finds each in its slot, returns the time stamp the sender
  wrote and leaves the queue empty, whatever was in the slots before.\<close>

theorem shm_exchange:
  assumes "length slots = SHM_SLOTS"
  shows "SHM_QUEUE_BYTES \<le> 4096 * 4 \<and>
    (\<exists>r r'. sender_loop start 0 (region_new slots) = Inr r \<and>
      receiver_loop NUMBER_OF_MESSAGES 0 t0 r = Some (Inr (start, r')) \<and> lfq_list shm_cfg (rg_queue r') = [])"
proof -
  have new: "holds_numbers [0..<0] (rg_queue (region_new slots))"
    using lfq_new_ok [OF shm_layout(1)] lfq_new_list [of shm_cfg] by (simp add: holds_numbers_def region_new_def)
  have len: "1000 \<le> length (rg_slots (region_new slots))"
    using assms shm_layout(5) by (simp add: region_new_def NUMBER_OF_MESSAGES_def)
  from sender_loop_sends [OF new _ len, of start] obtain r where
    r: "sender_loop start 0 (region_new slots) = Inr r" "holds_numbers [0..<1000] (rg_queue r)"
    "1000 \<le> length (rg_slots r)" "\<forall>i < 1000. rg_slots r ! i = slot_value start i"
    using len by auto
  have "[0..<1000] = 0 # [1..<1000]" by (rule upt_from_0) simp
  with r(2) pop_number [of 0 "[1..<1000]" "rg_queue r"] obtain q where
    q: "lfq_pop shm_cfg (rg_queue r) = Inr (0, q)" "holds_numbers [1..<1000] q" by auto
  from receiver_loop_receives [of 1 "r\<lparr>rg_queue := q\<rparr>" start start] q(2) r(3,4) obtain r' where
    r': "receiver_loop 999 1 start (r\<lparr>rg_queue := q\<rparr>) = Some (Inr (start, r'))" "holds_numbers [] (rg_queue r')"
    by auto
  have "rg_slots r ! 0 = start" using r(4) by (simp add: slot_value_def)
  with q(1) r(3) have "receiver_loop NUMBER_OF_MESSAGES 0 t0 r = receiver_loop 999 1 start (r\<lparr>rg_queue := q\<rparr>)"
    by (subst receiver_loop.simps) (auto simp: NUMBER_OF_MESSAGES_def Let_def)
  with r(1) r' shm_layout(4) show ?thesis by (auto simp: holds_numbers_def)
qed

theorem shm_exchange_witness:
  "\<exists>r r'. sender_loop 123456 0 (region_new (replicate 2048 0)) = Inr r \<and>
     receiver_loop NUMBER_OF_MESSAGES 0 0 r = Some (Inr (123456, r'))"
  using shm_exchange [of "replicate 2048 0" 123456 0] by (auto simp: SHM_SLOTS_def SHM_BYTES_def)

text \<open>A receiver that got its region gives back the mapping, the descriptor and the name; but a mapping
  that failed is not noticed, because \<open>MAP_FAILED\<close> is not null.\<close>

lemma receiver_life:
  assumes "receiver_start E s = (Some (a, fd), s')" "distinct (ms_objects s)"
  shows "a = MAP_FAILED \<or> held (receiver_stop a fd s') = held (shm_unlink receiverName s)"
  using assms
  by (auto simp: receiver_start_def receiver_stop_def mem_calls held_def SHM_BYTES_def split: if_splits)

end
