(* ===== verification/C_Wrapper.thy ===== *)
theory C_Wrapper imports Itc_Prelude begin

text \<open>
  The C library wrapper: the interface itcCWrapperIf.h, the class CWrapper of itcCWrapper.cc
  that the platform runs on, and the class CWrapperIfMock of itcCWrapperIfMock.h that the unit
  tests install in its place.

  A call of the interface is a value of one of the datatypes below, one for each section of
  the interface, its arguments at their widths on the target (64-bit Linux; pointers, pthread_t
  and size_t have 64 bits, file descriptors, clock ids and modes 32). A call of the C library
  is its name with the words it is passed. \<open>cwrapper\<close> is None where the class declares the
  method but no translation unit of the repository defines it. The other theories of this development take the
  results of these calls as parameters.
\<close>

section \<open>Words passed to the C library\<close>



datatype arg = W32 u32 | W64 u64

datatype libc_call = Libc string "arg list"

datatype mock_action = Mocked | Forwarded libc_call

section \<open>itcCWrapperIf.h: the calls of the interface\<close>

datatype network_call =
    CSocket i32 i32 i32
  | CConnect i32 ptr u32
  | CSend i32 ptr u64 i32
  | CRecv i32 ptr u64 i32
  | CClose i32

datatype threading_call =
    CPthreadCondAttrInit ptr
  | CPthreadMutexAttrInit ptr
  | CPthreadMutexAttrSetType ptr i32
  | CPthreadCondAttrSetClock ptr i32
  | CPthreadCondInit ptr ptr
  | CPthreadMutexInit ptr ptr
  | CPthreadCondAttrDestroy ptr
  | CPthreadMutexAttrDestroy ptr
  | CPthreadCondDestroy ptr
  | CPthreadMutexDestroy ptr
  | CPthreadCreate ptr ptr ptr ptr
  | CPthreadCancel u64
  | CPthreadJoin u64 ptr
  | CPthreadDetach u64
  | CPthreadMutexLock ptr
  | CPthreadMutexUnlock ptr
  | CPthreadCondTimedWait ptr ptr ptr
  | CPthreadCondWait ptr ptr
  | CPthreadCondSignal ptr
  | CPthreadCondBroadcast ptr
  | CPthreadKeyCreate ptr ptr
  | CPthreadKeyDelete u32
  | CPthreadAttrInit ptr
  | CPthreadAttrDestroy ptr
  | CPthreadSetSpecific u32 ptr
  | CPthreadSetCancelState i32 ptr
  | CGetPid
  | CGetPPid

datatype sched_call =
    CSchedGetPriorityMax i32
  | CSchedGetPriorityMin i32
  | CPthreadAttrSetSchedPolicy ptr i32
  | CPthreadAttrSetSchedParam ptr ptr
  | CPthreadAttrSetInheritSched ptr i32

datatype file_call =
    CAccess ptr i32
  | CMkdir ptr u32
  | CChmod ptr u32
  | CFopen ptr ptr
  | CFclose ptr
  | CEventFd u32 i32
  | CRead i32 ptr u64
  | CWrite i32 ptr u64

datatype time_call =
    CClockGetTime i32 ptr
  | CClockSetTime i32 ptr
  | CUsleep u32
  | CSleep u32

datatype memory_call =
    CMemset ptr i32 u64
  | CMemcpy ptr ptr u64
  | CStrcmp ptr ptr
  | CStrcpy ptr ptr
  | CStrlen ptr

datatype msgqueue_call =
    CFtok ptr i32
  | CMsgGet i32 i32
  | CMsgctl i32 i32 ptr
  | CMsgrcv i32 ptr u64 u64 i32
  | CMsgsnd i32 ptr u64 i32

datatype cwrapper_call =
    Network network_call
  | Threading threading_call
  | Sched sched_call
  | File file_call
  | Time time_call
  | StringMemory memory_call
  | MsgQueue msgqueue_call

section \<open>itcCWrapper.cc: what the wrapper calls\<close>

fun cwrapper_network :: "network_call \<Rightarrow> libc_call option" where
  "cwrapper_network (CSocket domain ty protocol) = Some (Libc ''socket'' [W32 domain, W32 ty, W32 protocol])"
  | "cwrapper_network (CConnect sockfd addr addrlen) = Some (Libc ''connect'' [W32 sockfd, W64 addr, W32 addrlen])"
  | "cwrapper_network (CSend sockfd buf sz flags) = Some (Libc ''send'' [W32 sockfd, W64 buf, W64 sz, W32 flags])"
  | "cwrapper_network (CRecv sockfd buf sz flags) = Some (Libc ''recv'' [W32 sockfd, W64 buf, W64 sz, W32 flags])"
  | "cwrapper_network (CClose fd) = Some (Libc ''close'' [W32 fd])"

fun cwrapper_threading :: "threading_call \<Rightarrow> libc_call option" where
  "cwrapper_threading (CPthreadCondAttrInit attr) = Some (Libc ''pthread_condattr_init'' [W64 attr])"
  | "cwrapper_threading (CPthreadMutexAttrInit attr) = Some (Libc ''pthread_mutexattr_init'' [W64 attr])"
  | "cwrapper_threading (CPthreadMutexAttrSetType attr ty) = Some (Libc ''pthread_mutexattr_settype'' [W64 attr, W32 ty])"
  | "cwrapper_threading (CPthreadCondAttrSetClock attr clock_id) = Some (Libc ''pthread_condattr_setclock'' [W64 attr, W32 clock_id])"
  | "cwrapper_threading (CPthreadCondInit cond attr) = Some (Libc ''pthread_cond_init'' [W64 cond, W64 attr])"
  | "cwrapper_threading (CPthreadMutexInit mutex attr) = Some (Libc ''pthread_mutex_init'' [W64 mutex, W64 attr])"
  | "cwrapper_threading (CPthreadCondAttrDestroy attr) = Some (Libc ''pthread_condattr_destroy'' [W64 attr])"
  | "cwrapper_threading (CPthreadMutexAttrDestroy attr) = Some (Libc ''pthread_mutexattr_destroy'' [W64 attr])"
  | "cwrapper_threading (CPthreadCondDestroy cond) = Some (Libc ''pthread_cond_destroy'' [W64 cond])"
  | "cwrapper_threading (CPthreadMutexDestroy mutex) = Some (Libc ''pthread_mutex_destroy'' [W64 mutex])"
  | "cwrapper_threading (CPthreadCreate thread attr start_routine arg) = Some (Libc ''pthread_create'' [W64 thread, W64 attr, W64 start_routine, W64 arg])"
  | "cwrapper_threading (CPthreadCancel thread) = Some (Libc ''pthread_cancel'' [W64 thread])"
  | "cwrapper_threading (CPthreadJoin thread retval) = Some (Libc ''pthread_join'' [W64 thread, W64 retval])"
  | "cwrapper_threading (CPthreadDetach thread) = Some (Libc ''pthread_detach'' [W64 thread])"
  | "cwrapper_threading (CPthreadMutexLock mutex) = Some (Libc ''pthread_mutex_lock'' [W64 mutex])"
  | "cwrapper_threading (CPthreadMutexUnlock mutex) = Some (Libc ''pthread_mutex_unlock'' [W64 mutex])"
  | "cwrapper_threading (CPthreadCondTimedWait cond mutex abstime) = Some (Libc ''pthread_cond_timedwait'' [W64 cond, W64 mutex, W64 abstime])"
  | "cwrapper_threading (CPthreadCondWait cond mutex) = Some (Libc ''pthread_cond_wait'' [W64 cond, W64 mutex])"
  | "cwrapper_threading (CPthreadCondSignal cond) = Some (Libc ''pthread_cond_signal'' [W64 cond])"
  | "cwrapper_threading (CPthreadCondBroadcast cond) = Some (Libc ''pthread_cond_broadcast'' [W64 cond])"
  | "cwrapper_threading (CPthreadKeyCreate key destructor) = Some (Libc ''pthread_key_create'' [W64 key, W64 destructor])"
  | "cwrapper_threading (CPthreadKeyDelete key) = Some (Libc ''pthread_key_delete'' [W32 key])"
  | "cwrapper_threading (CPthreadAttrInit attr) = Some (Libc ''pthread_attr_init'' [W64 attr])"
  | "cwrapper_threading (CPthreadAttrDestroy attr) = Some (Libc ''pthread_attr_destroy'' [W64 attr])"
  | "cwrapper_threading (CPthreadSetSpecific key val) = Some (Libc ''pthread_setspecific'' [W32 key, W64 val])"
  | "cwrapper_threading (CPthreadSetCancelState state oldstate) = Some (Libc ''pthread_setcancelstate'' [W32 state, W64 oldstate])"
  | "cwrapper_threading CGetPid = Some (Libc ''getpid'' [])"
  | "cwrapper_threading CGetPPid = Some (Libc ''getppid'' [])"

fun cwrapper_sched :: "sched_call \<Rightarrow> libc_call option" where
  "cwrapper_sched (CSchedGetPriorityMax policy) = Some (Libc ''sched_get_priority_max'' [W32 policy])"
  | "cwrapper_sched (CSchedGetPriorityMin policy) = Some (Libc ''sched_get_priority_min'' [W32 policy])"
  | "cwrapper_sched (CPthreadAttrSetSchedPolicy attr policy) = Some (Libc ''pthread_attr_setschedpolicy'' [W64 attr, W32 policy])"
  | "cwrapper_sched (CPthreadAttrSetSchedParam attr param) = Some (Libc ''pthread_attr_setschedparam'' [W64 attr, W64 param])"
  | "cwrapper_sched (CPthreadAttrSetInheritSched attr inheritsched) = Some (Libc ''pthread_attr_setinheritsched'' [W64 attr, W32 inheritsched])"

fun cwrapper_file :: "file_call \<Rightarrow> libc_call option" where
  "cwrapper_file (CAccess pathname mode) = Some (Libc ''access'' [W64 pathname, W32 mode])"
  | "cwrapper_file (CMkdir pathname mode) = Some (Libc ''mkdir'' [W64 pathname, W32 mode])"
  | "cwrapper_file (CChmod pathname mode) = Some (Libc ''chmod'' [W64 pathname, W32 mode])"
  | "cwrapper_file (CFopen pathname mode) = Some (Libc ''fopen'' [W64 pathname, W64 mode])"
  | "cwrapper_file (CFclose stream) = Some (Libc ''fclose'' [W64 stream])"
  | "cwrapper_file (CEventFd _ _) = None"
  | "cwrapper_file (CRead _ _ _) = None"
  | "cwrapper_file (CWrite _ _ _) = None"

fun cwrapper_time :: "time_call \<Rightarrow> libc_call option" where
  "cwrapper_time (CClockGetTime clockid tp) = Some (Libc ''clock_gettime'' [W32 clockid, W64 tp])"
  | "cwrapper_time (CClockSetTime clockid tp) = Some (Libc ''clock_settime'' [W32 clockid, W64 tp])"
  | "cwrapper_time (CUsleep usec) = Some (Libc ''usleep'' [W32 usec])"
  | "cwrapper_time (CSleep seconds) = Some (Libc ''sleep'' [W32 seconds])"

fun cwrapper_memory :: "memory_call \<Rightarrow> libc_call option" where
  "cwrapper_memory (CMemset s c n) = Some (Libc ''memset'' [W64 s, W32 c, W64 n])"
  | "cwrapper_memory (CMemcpy dest src n) = Some (Libc ''memcpy'' [W64 dest, W64 src, W64 n])"
  | "cwrapper_memory (CStrcmp s1 s2) = Some (Libc ''strcmp'' [W64 s1, W64 s2])"
  | "cwrapper_memory (CStrcpy dst src) = Some (Libc ''strcpy'' [W64 dst, W64 src])"
  | "cwrapper_memory (CStrlen s) = Some (Libc ''strlen'' [W64 s])"

fun cwrapper_msgqueue :: "msgqueue_call \<Rightarrow> libc_call option" where
  "cwrapper_msgqueue (CFtok pathname proj_id) = Some (Libc ''ftok'' [W64 pathname, W32 proj_id])"
  | "cwrapper_msgqueue (CMsgGet key msgflg) = Some (Libc ''msgget'' [W32 key, W32 msgflg])"
  | "cwrapper_msgqueue (CMsgctl msqid op buf) = Some (Libc ''msgctl'' [W32 msqid, W32 op, W64 buf])"
  | "cwrapper_msgqueue (CMsgrcv msqid msgp msgsz msgtyp msgflg) = Some (Libc ''msgrcv'' [W32 msqid, W64 msgp, W64 msgsz, W64 msgtyp, W32 msgflg])"
  | "cwrapper_msgqueue (CMsgsnd msqid msgp msgsz msgflg) = Some (Libc ''msgsnd'' [W32 msqid, W64 msgp, W64 msgsz, W32 msgflg])"

fun cwrapper :: "cwrapper_call \<Rightarrow> libc_call option" where
    "cwrapper (Network c) = cwrapper_network c"
  | "cwrapper (Threading c) = cwrapper_threading c"
  | "cwrapper (Sched c) = cwrapper_sched c"
  | "cwrapper (File c) = cwrapper_file c"
  | "cwrapper (Time c) = cwrapper_time c"
  | "cwrapper (StringMemory c) = cwrapper_memory c"
  | "cwrapper (MsgQueue c) = cwrapper_msgqueue c"

section \<open>itcCWrapperIfMock.h: what the mock does\<close>

fun cwrapper_mock_network :: "network_call \<Rightarrow> mock_action" where
  "cwrapper_mock_network (CSocket _ _ _) = Mocked"
  | "cwrapper_mock_network (CConnect _ _ _) = Mocked"
  | "cwrapper_mock_network (CSend _ _ _ _) = Mocked"
  | "cwrapper_mock_network (CRecv _ _ _ _) = Mocked"
  | "cwrapper_mock_network (CClose fd) = Forwarded (Libc ''close'' [W32 fd])"

fun cwrapper_mock_threading :: "threading_call \<Rightarrow> mock_action" where
  "cwrapper_mock_threading (CPthreadCondAttrInit attr) = Forwarded (Libc ''pthread_condattr_init'' [W64 attr])"
  | "cwrapper_mock_threading (CPthreadMutexAttrInit attr) = Forwarded (Libc ''pthread_mutexattr_init'' [W64 attr])"
  | "cwrapper_mock_threading (CPthreadMutexAttrSetType attr ty) = Forwarded (Libc ''pthread_mutexattr_settype'' [W64 attr, W32 ty])"
  | "cwrapper_mock_threading (CPthreadCondAttrSetClock attr clock_id) = Forwarded (Libc ''pthread_condattr_setclock'' [W64 attr, W32 clock_id])"
  | "cwrapper_mock_threading (CPthreadCondInit cond attr) = Forwarded (Libc ''pthread_cond_init'' [W64 cond, W64 attr])"
  | "cwrapper_mock_threading (CPthreadMutexInit mutex attr) = Forwarded (Libc ''pthread_mutex_init'' [W64 mutex, W64 attr])"
  | "cwrapper_mock_threading (CPthreadCondAttrDestroy attr) = Forwarded (Libc ''pthread_condattr_destroy'' [W64 attr])"
  | "cwrapper_mock_threading (CPthreadMutexAttrDestroy attr) = Forwarded (Libc ''pthread_mutexattr_destroy'' [W64 attr])"
  | "cwrapper_mock_threading (CPthreadCondDestroy cond) = Forwarded (Libc ''pthread_cond_destroy'' [W64 cond])"
  | "cwrapper_mock_threading (CPthreadMutexDestroy mutex) = Forwarded (Libc ''pthread_mutex_destroy'' [W64 mutex])"
  | "cwrapper_mock_threading (CPthreadCreate thread attr start_routine arg) = Forwarded (Libc ''pthread_create'' [W64 thread, W64 attr, W64 start_routine, W64 arg])"
  | "cwrapper_mock_threading (CPthreadCancel thread) = Forwarded (Libc ''pthread_cancel'' [W64 thread])"
  | "cwrapper_mock_threading (CPthreadJoin thread retval) = Forwarded (Libc ''pthread_join'' [W64 thread, W64 retval])"
  | "cwrapper_mock_threading (CPthreadDetach thread) = Forwarded (Libc ''pthread_detach'' [W64 thread])"
  | "cwrapper_mock_threading (CPthreadMutexLock mutex) = Forwarded (Libc ''pthread_mutex_lock'' [W64 mutex])"
  | "cwrapper_mock_threading (CPthreadMutexUnlock mutex) = Forwarded (Libc ''pthread_mutex_unlock'' [W64 mutex])"
  | "cwrapper_mock_threading (CPthreadCondTimedWait cond mutex abstime) = Forwarded (Libc ''pthread_cond_timedwait'' [W64 cond, W64 mutex, W64 abstime])"
  | "cwrapper_mock_threading (CPthreadCondWait cond mutex) = Forwarded (Libc ''pthread_cond_wait'' [W64 cond, W64 mutex])"
  | "cwrapper_mock_threading (CPthreadCondSignal cond) = Forwarded (Libc ''pthread_cond_signal'' [W64 cond])"
  | "cwrapper_mock_threading (CPthreadCondBroadcast cond) = Forwarded (Libc ''pthread_cond_broadcast'' [W64 cond])"
  | "cwrapper_mock_threading (CPthreadKeyCreate _ _) = Mocked"
  | "cwrapper_mock_threading (CPthreadKeyDelete _) = Mocked"
  | "cwrapper_mock_threading (CPthreadAttrInit attr) = Forwarded (Libc ''pthread_attr_init'' [W64 attr])"
  | "cwrapper_mock_threading (CPthreadAttrDestroy attr) = Forwarded (Libc ''pthread_attr_destroy'' [W64 attr])"
  | "cwrapper_mock_threading (CPthreadSetSpecific key val) = Forwarded (Libc ''pthread_setspecific'' [W32 key, W64 val])"
  | "cwrapper_mock_threading (CPthreadSetCancelState state oldstate) = Forwarded (Libc ''pthread_setcancelstate'' [W32 state, W64 oldstate])"
  | "cwrapper_mock_threading CGetPid = Forwarded (Libc ''getpid'' [])"
  | "cwrapper_mock_threading CGetPPid = Forwarded (Libc ''getppid'' [])"

fun cwrapper_mock_sched :: "sched_call \<Rightarrow> mock_action" where
  "cwrapper_mock_sched (CSchedGetPriorityMax policy) = Forwarded (Libc ''sched_get_priority_max'' [W32 policy])"
  | "cwrapper_mock_sched (CSchedGetPriorityMin policy) = Forwarded (Libc ''sched_get_priority_min'' [W32 policy])"
  | "cwrapper_mock_sched (CPthreadAttrSetSchedPolicy attr policy) = Forwarded (Libc ''pthread_attr_setschedpolicy'' [W64 attr, W32 policy])"
  | "cwrapper_mock_sched (CPthreadAttrSetSchedParam attr param) = Forwarded (Libc ''pthread_attr_setschedparam'' [W64 attr, W64 param])"
  | "cwrapper_mock_sched (CPthreadAttrSetInheritSched attr inheritsched) = Forwarded (Libc ''pthread_attr_setinheritsched'' [W64 attr, W32 inheritsched])"

fun cwrapper_mock_file :: "file_call \<Rightarrow> mock_action" where
  "cwrapper_mock_file (CAccess pathname mode) = Forwarded (Libc ''access'' [W64 pathname, W32 mode])"
  | "cwrapper_mock_file (CMkdir pathname mode) = Forwarded (Libc ''mkdir'' [W64 pathname, W32 mode])"
  | "cwrapper_mock_file (CChmod pathname mode) = Forwarded (Libc ''chmod'' [W64 pathname, W32 mode])"
  | "cwrapper_mock_file (CFopen pathname mode) = Forwarded (Libc ''fopen'' [W64 pathname, W64 mode])"
  | "cwrapper_mock_file (CFclose stream) = Forwarded (Libc ''fclose'' [W64 stream])"
  | "cwrapper_mock_file (CEventFd initval flags) = Forwarded (Libc ''eventfd'' [W32 initval, W32 flags])"
  | "cwrapper_mock_file (CRead fd buf count) = Forwarded (Libc ''read'' [W32 fd, W64 buf, W64 count])"
  | "cwrapper_mock_file (CWrite fd buf count) = Forwarded (Libc ''write'' [W32 fd, W64 buf, W64 count])"

fun cwrapper_mock_time :: "time_call \<Rightarrow> mock_action" where
  "cwrapper_mock_time (CClockGetTime clockid tp) = Forwarded (Libc ''clock_gettime'' [W32 clockid, W64 tp])"
  | "cwrapper_mock_time (CClockSetTime clockid tp) = Forwarded (Libc ''clock_settime'' [W32 clockid, W64 tp])"
  | "cwrapper_mock_time (CUsleep usec) = Forwarded (Libc ''usleep'' [W32 usec])"
  | "cwrapper_mock_time (CSleep seconds) = Forwarded (Libc ''sleep'' [W32 seconds])"

fun cwrapper_mock_memory :: "memory_call \<Rightarrow> mock_action" where
  "cwrapper_mock_memory (CMemset s c n) = Forwarded (Libc ''memset'' [W64 s, W32 c, W64 n])"
  | "cwrapper_mock_memory (CMemcpy dest src n) = Forwarded (Libc ''memcpy'' [W64 dest, W64 src, W64 n])"
  | "cwrapper_mock_memory (CStrcmp s1 s2) = Forwarded (Libc ''strcmp'' [W64 s1, W64 s2])"
  | "cwrapper_mock_memory (CStrcpy dst src) = Forwarded (Libc ''strcpy'' [W64 dst, W64 src])"
  | "cwrapper_mock_memory (CStrlen s) = Forwarded (Libc ''strlen'' [W64 s])"

fun cwrapper_mock_msgqueue :: "msgqueue_call \<Rightarrow> mock_action" where
  "cwrapper_mock_msgqueue (CFtok _ _) = Mocked"
  | "cwrapper_mock_msgqueue (CMsgGet _ _) = Mocked"
  | "cwrapper_mock_msgqueue (CMsgctl _ _ _) = Mocked"
  | "cwrapper_mock_msgqueue (CMsgrcv _ _ _ _ _) = Mocked"
  | "cwrapper_mock_msgqueue (CMsgsnd _ _ _ _) = Mocked"

fun cwrapper_mock :: "cwrapper_call \<Rightarrow> mock_action" where
    "cwrapper_mock (Network c) = cwrapper_mock_network c"
  | "cwrapper_mock (Threading c) = cwrapper_mock_threading c"
  | "cwrapper_mock (Sched c) = cwrapper_mock_sched c"
  | "cwrapper_mock (File c) = cwrapper_mock_file c"
  | "cwrapper_mock (Time c) = cwrapper_mock_time c"
  | "cwrapper_mock (StringMemory c) = cwrapper_mock_memory c"
  | "cwrapper_mock (MsgQueue c) = cwrapper_mock_msgqueue c"

section \<open>The mock against the wrapper\<close>

lemma undefined_iff: "cwrapper c = None \<longleftrightarrow>
    (\<exists>v f. c = File (CEventFd v f)) \<or> (\<exists>fd b n. c = File (CRead fd b n)) \<or> (\<exists>fd b n. c = File (CWrite fd b n))"
  by (cases c; simp; rename_tac d; case_tac d; simp)

lemma mock_vs_wrapper: "cwrapper_mock c = Mocked \<or> cwrapper c = None \<or> (\<exists>l. cwrapper_mock c = Forwarded l \<and> cwrapper c = Some l)"
  by (cases c; simp; rename_tac d; case_tac d; simp)

text \<open>A test that runs on the mock drives the C library exactly as the platform does: for every
  call of the interface, either the test scripts the answer (Google Mock), or the mock forwards
  it to the C function, with the arguments in the order, that the production wrapper uses. The
  exceptions are the three calls cEventFd, cRead and cWrite, which itcCWrapper.h declares and the mock
  forwards, but for which itcCWrapper.cc has no definition: a platform linked with the
  production wrapper does not have them.\<close>
theorem mock_agrees_with_wrapper:
  "(case cwrapper c of
      Some l \<Rightarrow> cwrapper_mock c \<in> {Mocked, Forwarded l}
    | None \<Rightarrow> (\<exists>v f. c = File (CEventFd v f) \<and> cwrapper_mock c = Forwarded (Libc ''eventfd'' [W32 v, W32 f])) \<or>
        (\<exists>fd b n. c = File (CRead fd b n) \<and> cwrapper_mock c = Forwarded (Libc ''read'' [W32 fd, W64 b, W64 n])) \<or>
        (\<exists>fd b n. c = File (CWrite fd b n) \<and> cwrapper_mock c = Forwarded (Libc ''write'' [W32 fd, W64 b, W64 n])))"
proof (cases "cwrapper c")
  case None
  then show ?thesis by (auto simp: undefined_iff)
next
  case (Some l)
  then show ?thesis using mock_vs_wrapper [of c] by auto
qed

end
