(* ===== verification/File_System_Tests.thy ===== *)
theory File_System_Tests
  imports File_System Itc_Constants
begin

text \<open>
  The tests of \<open>itcFileSystemTest.cc\<close> on the model of \<open>File_System\<close>, each a function of the
  environment and the tree that says whether its assertions hold. \<open>createPathTest2\<close>, whose path ends with a
  slash, is left out: paths have no empty last component here.
\<close>

section \<open>The tests\<close>

text \<open>\<open>perms::all\<close> is 0777; \<open>perms::unknown\<close> asks for existence only.\<close>

definition perms_all :: nat where
  "perms_all = 511"

definition verifyPath :: "fs_env \<Rightarrow> path \<Rightarrow> nat option \<Rightarrow> fsys \<Rightarrow> bool" where
  "verifyPath E path mode fs \<longleftrightarrow> fs_exists E path fs \<and>
     (case mode of None \<Rightarrow> True
      | Some m \<Rightarrow> (case fs path of None \<Rightarrow> False | Some n \<Rightarrow> fn_mode n mod 512 = m))"

definition createAndVerifyPath :: "fs_env \<Rightarrow> path \<Rightarrow> path_type \<Rightarrow> nat \<Rightarrow> fsys \<Rightarrow> bool \<times> fsys" where
  "createAndVerifyPath E path ty pos fs =
     (let (rc, fs) = createPath E path ty pos perms_all fs in (verifyPath E path (Some perms_all) fs, fs))"

abbreviation path_tmp :: path where
  "path_tmp \<equiv> [''/'', ''tmp'']"

abbreviation path_etc :: path where
  "path_etc \<equiv> [''/'', ''etc'']"

text \<open>The stream opens the file for writing, which makes it.\<close>

definition removePathTest1 :: "fs_env \<Rightarrow> fsys \<Rightarrow> bool" where
  "removePathTest1 E fs =
     (let filePath = path_tmp @ [''abc.txt''];
          fs = fs(filePath \<mapsto> \<lparr>fn_kind = FReg, fn_mode = 420\<rparr>);
          (rc, fs) = removePath E filePath fs
      in rc = FS_OK \<and> \<not> verifyPath E filePath (Some perms_all) fs)"

definition removePathTest2 :: "fs_env \<Rightarrow> fsys \<Rightarrow> bool" where
  "removePathTest2 E fs =
     (let (rc, fs) = removePath E path_etc fs in rc = FS_EXCEPTION_THROWN \<and> verifyPath E path_etc None fs)"

definition createPathTest1 :: "fs_env \<Rightarrow> fsys \<Rightarrow> bool \<times> fsys" where
  "createPathTest1 E fs =
     (let (ok, fs) = createAndVerifyPath E (path_tmp @ [''abc'', ''def'', ''ghi'']) DIRECTORY
            ITC_PATH_ITC_DIRECTORY_POSITION fs
      in (ok, snd (removePath E (path_tmp @ [''abc'']) fs)))"

definition createPathTest3 :: "fs_env \<Rightarrow> fsys \<Rightarrow> bool" where
  "createPathTest3 E fs = fst (createAndVerifyPath E path_tmp DIRECTORY 1 fs)"

definition createPathTest4 :: "fs_env \<Rightarrow> fsys \<Rightarrow> bool" where
  "createPathTest4 E fs = (\<not> fst (createAndVerifyPath E path_etc DIRECTORY 1 fs))"

definition existsTest1 :: "fs_env \<Rightarrow> fsys \<Rightarrow> bool" where
  "existsTest1 E fs = fs_exists E path_etc fs"

definition existsTest2 :: "fs_env \<Rightarrow> fsys \<Rightarrow> bool" where
  "existsTest2 E fs = (\<not> fs_exists E [''/'', ''ecc''] fs)"

definition isAccessibleTest1 :: "fs_env \<Rightarrow> bool" where
  "isAccessibleTest1 E = isAccessible E path_tmp"

definition isAccessibleTest2 :: "fs_env \<Rightarrow> bool" where
  "isAccessibleTest2 E = (\<not> isAccessible E path_etc)"

section \<open>They pass\<close>

text \<open>A machine whose user may change the tree below /tmp, which everybody may use, but not /etc, which
  everybody may read.\<close>

definition test_machine :: "fs_env \<Rightarrow> fsys \<Rightarrow> bool" where
  "test_machine E fs \<longleftrightarrow> (\<forall>p. \<not> fe_throws E p) \<and> (\<forall>p. length p > 2 \<and> take 2 p = path_tmp \<longrightarrow> \<not> fe_denied E p) \<and>
     is_kind FDir [''/''] fs \<and>
     (\<exists>n. fs path_tmp = Some n \<and> fn_kind n = FDir \<and> fn_mode n mod 512 = 511) \<and> fe_access E path_tmp \<and>
     (\<exists>n. fs path_etc = Some n \<and> fn_kind n = FDir \<and> fn_mode n mod 512 \<noteq> 511) \<and> fe_denied E path_etc \<and>
     \<not> fe_access E path_etc \<and> fs [''/'', ''ecc''] = None \<and>
     (\<forall>p. take 3 p = path_tmp @ [''abc''] \<longrightarrow> fs p = None)"

lemma test_prefixes:
  "prefixes [''/'', ''tmp'', ''abc'', ''def'', ''ghi''] =
     [[''/''], path_tmp, [''/'', ''tmp'', ''abc''], [''/'', ''tmp'', ''abc'', ''def''],
      [''/'', ''tmp'', ''abc'', ''def'', ''ghi'']]"
  by (simp add: prefixes_def upt_rec)

lemma createPathTest1_passes:
  assumes "test_machine E fs"
  shows "createPathTest1 E fs = (True, fs)"
proof -
  from assms obtain r t where n: "fs [''/''] = Some r" "fn_kind r = FDir" "fs path_tmp = Some t" "fn_kind t = FDir"
    by (auto simp: test_machine_def is_kind_def split: option.splits)
  have none: "fs p = None" if "take 3 p = path_tmp @ [''abc'']" for p using assms that by (simp add: test_machine_def)
  let ?a = "path_tmp @ [''abc'']" and ?b = "path_tmp @ [''abc'', ''def'']" and ?c = "path_tmp @ [''abc'', ''def'', ''ghi'']"
  have abs: "fs ?a = None" "fs ?b = None" "fs ?c = None" by (simp_all add: none)
  have E: "\<not> fe_throws E p" "\<not> fe_denied E ?a" "\<not> fe_denied E ?b" "\<not> fe_denied E ?c" for p
    using assms by (simp_all add: test_machine_def)
  let ?d = "\<lparr>fn_kind = FDir, fn_mode = 511\<rparr>"
  have c: "createPath E ?c DIRECTORY 2 511 fs = (FS_OK, fs(?a \<mapsto> ?d, ?b \<mapsto> ?d, ?c \<mapsto> ?d))"
    using n abs E by (simp add: createPath_def fs_exists_def create_and_grant_def test_prefixes is_kind_def fun_upd_twist)
  have r: "removePath E ?a (fs(?a \<mapsto> ?d, ?b \<mapsto> ?d, ?c \<mapsto> ?d)) = (FS_OK, fs)"
    using E none [unfolded numeral_3_eq_3] by (auto simp: removePath_def is_kind_def fun_eq_iff numeral_3_eq_3)
  show ?thesis using c r E
    by (simp add: createPathTest1_def createAndVerifyPath_def itc_const perms_all_def verifyPath_def fs_exists_def)
qed

text \<open>The tests of the file system component pass on such a machine: removing, creating, granting, existence
  and accessibility give the results that the repository's own tests assert, and the test that
  creates directories leaves the tree as it found it.\<close>

theorem file_system_tests_pass:
  assumes "test_machine E fs"
  shows "removePathTest1 E fs \<and> removePathTest2 E fs \<and> createPathTest1 E fs = (True, fs) \<and> createPathTest3 E fs \<and>
    createPathTest4 E fs \<and> existsTest1 E fs \<and> existsTest2 E fs \<and> isAccessibleTest1 E \<and> isAccessibleTest2 E"
  using assms createPathTest1_passes [OF assms]
  by (auto simp: test_machine_def removePathTest1_def removePathTest2_def createPathTest3_def createPathTest4_def
      existsTest1_def existsTest2_def isAccessibleTest1_def isAccessibleTest2_def isAccessible_def removePath_def
      verifyPath_def createAndVerifyPath_def createPath_def fs_exists_def is_kind_def perms_all_def)

definition demo_test_fs :: fsys where
  "demo_test_fs = [[''/''] \<mapsto> \<lparr>fn_kind = FDir, fn_mode = 493\<rparr>, path_tmp \<mapsto> \<lparr>fn_kind = FDir, fn_mode = 1023\<rparr>,
     path_etc \<mapsto> \<lparr>fn_kind = FDir, fn_mode = 493\<rparr>]"

definition demo_test_env :: fs_env where
  "demo_test_env = \<lparr>fe_denied = (\<lambda>p. p = path_etc), fe_throws = (\<lambda>_. False), fe_access = (\<lambda>p. p = path_tmp)\<rparr>"

theorem file_system_tests_pass_witness: "createPathTest1 demo_test_env demo_test_fs = (True, demo_test_fs)"
proof -
  have "test_machine demo_test_env demo_test_fs"
    by (auto simp: test_machine_def demo_test_env_def demo_test_fs_def is_kind_def)
  from file_system_tests_pass [OF this] show ?thesis by simp
qed

end
