(* ===== verification/Thread_Manager_Tests.thy ===== *)
theory Thread_Manager_Tests
  imports Thread_Manager
begin

text \<open>
  The tests of \<open>itcThreadManagerIfTest.cc\<close> on the model of \<open>Thread_Manager\<close>, each a function of the
  results of the system calls that says whether its assertions hold. A task is known by the address of its
  arguments; \<open>ended\<close> says which tasks have ended when the test looks at their keys.
\<close>

section \<open>The test's task\<close>

definition SCHED_FIFO :: i32 where
  "SCHED_FIFO = 1"

definition SCHED_RR :: i32 where
  "SCHED_RR = 2"

definition ITC_THREAD_SELF_LIMIT_PRIORITY_HIGH :: i32 where
  "ITC_THREAD_SELF_LIMIT_PRIORITY_HIGH = 40"

definition EXPECTED_KEY_VALUE :: i32 where
  "EXPECTED_KEY_VALUE = 999"

abbreviation test_taskFunc :: ptr where
  "test_taskFunc \<equiv> 0x400000"

definition test_task :: "ptr \<Rightarrow> task" where
  "test_task args = \<lparr>taskFunc = test_taskFunc, taskArgs = args\<rparr>"

text \<open>The last thing \<open>taskFunc\<close> does is to set the key of its arguments, which was 0.\<close>

definition key_of :: "(ptr \<Rightarrow> bool) \<Rightarrow> manager \<Rightarrow> ptr \<Rightarrow> i32" where
  "key_of ended s args =
     (if args \<in> (\<lambda>(t, _). taskArgs t) ` set (tm_started s) \<and> ended args then EXPECTED_KEY_VALUE else 0)"

text \<open>\<open>pthread_cancel\<close> and \<open>pthread_detach\<close>, with which the tests end: the thread can no longer be joined.\<close>

definition cancel_and_detach :: "tm_env \<Rightarrow> u64 \<Rightarrow> manager \<Rightarrow> manager res" where
  "cancel_and_detach E tid s = and_then (pthread_cancel E tid s) (\<lambda>(_, s).
     Inr ((snd (sys E s))\<lparr>tm_live := removeAll tid (tm_live s)\<rparr>))"

fun cancel_and_detach_all :: "tm_env \<Rightarrow> thread list \<Rightarrow> manager \<Rightarrow> manager res" where
  "cancel_and_detach_all E [] s = Inr s"
| "cancel_and_detach_all E (thr # thrs) s =
     and_then (cancel_and_detach E (th_tid thr) s) (cancel_and_detach_all E thrs)"

section \<open>Scheduling parameters\<close>

definition checkSchedulingParamsTest1 :: "tm_env \<Rightarrow> bool" where
  "checkSchedulingParamsTest1 E =
     (checkSchedulingParams E SCHED_FIFO ITC_THREAD_SELF_LIMIT_PRIORITY_HIGH 100 = TM_INVALID_ARGUMENTS)"

definition checkSchedulingParamsTest2 :: "tm_env \<Rightarrow> bool" where
  "checkSchedulingParamsTest2 E = (checkSchedulingParams E SCHED_FIFO ITC_THREAD_SELF_LIMIT_PRIORITY_HIGH 15 = TM_OK)"

definition checkSchedulingParamsTest3 :: "tm_env \<Rightarrow> bool" where
  "checkSchedulingParamsTest3 E = (checkSchedulingParams E SCHED_RR ITC_THREAD_SELF_LIMIT_PRIORITY_HIGH 15 = TM_OK)"

definition checkSchedulingParamsTest4 :: "tm_env \<Rightarrow> bool" where
  "checkSchedulingParamsTest4 E =
     (checkSchedulingParams E SCHED_OTHER ITC_THREAD_SELF_LIMIT_PRIORITY_HIGH 10 = TM_INVALID_ARGUMENTS)"

definition setThreadAttributesTest1 :: "tm_env \<Rightarrow> bool" where
  "setThreadAttributesTest1 E =
     (let (rc, s) = setThreadAttributes E SCHED_OTHER ITC_THREAD_SELF_LIMIT_PRIORITY_HIGH 0 manager_new
      in rc = TM_OK \<and> tm_policy s = SCHED_OTHER \<and> tm_limit s = te_prio_max E SCHED_OTHER \<and>
         tm_prio s = te_prio_min E SCHED_OTHER)"

definition setThreadAttributesTest2 :: "tm_env \<Rightarrow> bool" where
  "setThreadAttributesTest2 E =
     (let limit = ITC_THREAD_SELF_LIMIT_PRIORITY_HIGH; priority = ITC_THREAD_SELF_LIMIT_PRIORITY_HIGH - 10;
          (rc, s) = setThreadAttributes E SCHED_RR limit priority manager_new
      in rc = TM_OK \<and> tm_policy s = SCHED_RR \<and> tm_limit s = limit \<and> tm_prio s = priority)"

definition setThreadAttributesTest3 :: "tm_env \<Rightarrow> bool" where
  "setThreadAttributesTest3 E =
     (fst (setThreadAttributes E SCHED_RR ITC_THREAD_SELF_LIMIT_PRIORITY_HIGH
        (ITC_THREAD_SELF_LIMIT_PRIORITY_HIGH + 61) manager_new) = TM_INVALID_ARGUMENTS)"

section \<open>Threads\<close>

definition configureAndStartThreadTest1 :: "tm_env \<Rightarrow> ptr \<Rightarrow> bool" where
  "configureAndStartThreadTest1 E args =
     (fst (configureAndStartThread E (test_task args) 0 SCHED_OTHER 10 manager_new) = TM_SYSCALL_ERROR)"

definition configureAndStartThreadTest2 :: "tm_env \<Rightarrow> (ptr \<Rightarrow> bool) \<Rightarrow> ptr \<Rightarrow> bool res" where
  "configureAndStartThreadTest2 E ended args =
     (let (rc, tid, s) = configureAndStartThread E (test_task args) 0 SCHED_OTHER 0 manager_new
      in and_then (cancel_and_detach E tid s) (\<lambda>_.
           Inr (rc = TM_OK \<and> key_of ended s args = EXPECTED_KEY_VALUE)))"

definition configureAndStartThreadTest3 :: "tm_env \<Rightarrow> ptr \<Rightarrow> bool" where
  "configureAndStartThreadTest3 E args =
     (fst (configureAndStartThread E (test_task args) 0 SCHED_RR 30 manager_new) = TM_SYSCALL_ERROR)"

definition addThreadTest1 :: "tm_env \<Rightarrow> nat \<Rightarrow> bool res" where
  "addThreadTest1 E so = and_then (addThread E (test_task 0) so False manager_new) (\<lambda>(rc, s).
     Inr (rc = TM_OK \<and> length (tm_threads s) = 1))"

text \<open>Each test returns its verdict and the manager that is destroyed when it ends.\<close>

definition startAllThreadsTest1 :: "tm_env \<Rightarrow> (ptr \<Rightarrow> bool) \<Rightarrow> ptr \<Rightarrow> ptr \<Rightarrow> (bool \<times> manager) res" where
  "startAllThreadsTest1 E ended args1 args2 =
     and_then (startAllThreads E (manager_new\<lparr>tm_threads :=
         [thread_new (test_task args1) 1 False, thread_new (test_task args2) 2 False]\<rparr>)) (\<lambda>(rc, s).
     and_then (cancel_and_detach_all E (tm_threads s) s) (\<lambda>s'.
       Inr (rc = TM_OK \<and> key_of ended s args1 = EXPECTED_KEY_VALUE \<and>
            key_of ended s args2 = EXPECTED_KEY_VALUE, s')))"

text \<open>The second synchronisation object has been released.\<close>

definition startAllThreadsTest2 :: "tm_env \<Rightarrow> (ptr \<Rightarrow> bool) \<Rightarrow> ptr \<Rightarrow> ptr \<Rightarrow> (bool \<times> manager) res" where
  "startAllThreadsTest2 E ended args1 args2 =
     and_then (startAllThreads E (manager_new\<lparr>tm_threads :=
         [thread_new (test_task args1) 1 False, (thread_new (test_task args2) 2 False)\<lparr>th_sync := None\<rparr>]\<rparr>)) (\<lambda>(rc, s).
     and_then (cancel_and_detach E (th_tid (tm_threads s ! 0)) s) (\<lambda>s'.
       Inr (rc = TM_SYSCALL_ERROR \<and> key_of ended s args1 = EXPECTED_KEY_VALUE \<and> key_of ended s args2 = 0, s')))"

definition startAllThreadsTest3 :: "tm_env \<Rightarrow> ptr \<Rightarrow> (bool \<times> manager) res" where
  "startAllThreadsTest3 E args =
     and_then (startAllThreads E (manager_new\<lparr>tm_threads := [thread_new (test_task args) 1 False]\<rparr>)) (\<lambda>(rc, s).
     and_then (cancel_and_detach E (th_tid (tm_threads s ! 0)) s) (\<lambda>s'. Inr (rc = TM_INITIALISATION_TIMEOUT, s')))"

definition terminateAllThreadsTest1 :: "tm_env \<Rightarrow> (ptr \<Rightarrow> bool) \<Rightarrow> ptr \<Rightarrow> (bool \<times> manager) res" where
  "terminateAllThreadsTest1 E ended args =
     and_then (startAllThreads E (manager_new\<lparr>tm_threads := [thread_new (test_task args) 1 False]\<rparr>)) (\<lambda>(rc, s).
     and_then (terminateAllThreads E s) (\<lambda>(rc', s).
       Inr (rc = TM_OK \<and> rc' = TM_OK \<and> key_of ended s args = 0, s)))"

section \<open>They pass, and what follows\<close>

text \<open>The priorities of Linux.\<close>

definition linux_priorities :: "tm_env \<Rightarrow> bool" where
  "linux_priorities E \<longleftrightarrow> te_prio_min E SCHED_OTHER = 0 \<and> te_prio_max E SCHED_OTHER = 0 \<and>
     te_prio_min E SCHED_FIFO = 1 \<and> te_prio_max E SCHED_FIFO = 99 \<and>
     te_prio_min E SCHED_RR = 1 \<and> te_prio_max E SCHED_RR = 99"

lemmas test_consts = SCHED_OTHER_def SCHED_FIFO_def SCHED_RR_def ITC_THREAD_SELF_LIMIT_PRIORITY_HIGH_def

lemma scheduling_tests_pass:
  assumes "linux_priorities E"
  shows "checkSchedulingParamsTest1 E" "checkSchedulingParamsTest2 E" "checkSchedulingParamsTest3 E"
    "checkSchedulingParamsTest4 E" "setThreadAttributesTest1 E" "setThreadAttributesTest2 E" "setThreadAttributesTest3 E"
  using assms
  by (simp_all add: linux_priorities_def checkSchedulingParamsTest1_def checkSchedulingParamsTest2_def
      checkSchedulingParamsTest3_def checkSchedulingParamsTest4_def setThreadAttributesTest1_def
      setThreadAttributesTest2_def setThreadAttributesTest3_def setThreadAttributes_def checkSchedulingParams_def test_consts)

lemmas test_simps = thread_new_def manager_new_def startAllThreads_def terminateAllThreads_def with_list_def
  configureAndStartThread_def sys_ok pthread_cancel_def pthread_join_def cancel_and_detach_def test_task_def key_of_def Let_def

lemma startAllThreadsTest1_runs:
  assumes "calls_ok E" "te_tid E 4 \<noteq> te_tid E 10" "ended args1" "ended args2"
  shows "\<exists>s. startAllThreadsTest1 E ended args1 args2 = Inr (True, s) \<and> tm_live s = [] \<and> \<not> tm_locked s \<and>
    map th_tid (tm_threads s) = [te_tid E 4, te_tid E 10] \<and> list_all th_running (tm_threads s)"
  using assms by (auto simp: startAllThreadsTest1_def test_simps eval_nat_numeral)

lemma startAllThreadsTest2_runs:
  assumes "calls_ok E" "ended args1" "args1 \<noteq> args2"
  shows "\<exists>s. startAllThreadsTest2 E ended args1 args2 = Inr (True, s) \<and> tm_live s = [] \<and> \<not> tm_locked s \<and>
    map th_tid (tm_threads s) = [te_tid E 4, 0] \<and> map th_running (tm_threads s) = [True, False]"
  using assms by (auto simp: startAllThreadsTest2_def test_simps eval_nat_numeral)

lemma startAllThreadsTest3_runs:
  assumes "\<forall>k < 5. te_call E k = 0" "te_call E 5 \<noteq> 0"
  shows "\<exists>s. startAllThreadsTest3 E args = Inr (True, s) \<and> tm_live s = [] \<and> \<not> tm_locked s \<and>
    map th_tid (tm_threads s) = [te_tid E 4] \<and> map th_running (tm_threads s) = [False]"
proof -
  have "te_call E 0 = 0" "te_call E 1 = 0" "te_call E 2 = 0" "te_call E 3 = 0" "te_call E 4 = 0" using assms(1) by simp_all
  then show ?thesis using assms(2) by (simp add: startAllThreadsTest3_def test_simps sys_def numeral_2_eq_2 numeral_3_eq_3 eval_nat_numeral)
qed

lemma terminateAllThreadsTest1_runs:
  assumes "calls_ok E" "\<not> ended args"
  shows "\<exists>s. terminateAllThreadsTest1 E ended args = Inr (True, s) \<and> tm_live s = [] \<and> \<not> tm_locked s \<and>
    map th_tid (tm_threads s) = [te_tid E 4] \<and> map th_running (tm_threads s) = [False]"
  using assms by (auto simp: terminateAllThreadsTest1_def test_simps eval_nat_numeral)

text \<open>The tests of the thread manager pass, on Linux, where the system calls do what each test relies on:
  all of them succeed, or the one that the test wants to fail does (setting the priority 10 with
  SCHED_OTHER, creating a real-time thread without the privilege, waiting for a thread that sleeps). The
  tests look at the key a thread sets, so the thread has to have ended by then, or not.\<close>

theorem thread_manager_tests_pass:
  assumes "linux_priorities E" "calls_ok E" "te_tid E 4 \<noteq> te_tid E 10" "ended args1" "ended args2" "\<not> ended args3" "args1 \<noteq> args2"
    and "\<forall>k < 2. te_call E_prio k = 0" "te_call E_prio 2 \<noteq> 0"
    and "\<forall>k < 4. te_call E_perm k = 0" "te_call E_perm 4 \<noteq> 0"
    and "\<forall>k < 5. te_call E_late k = 0" "te_call E_late 5 \<noteq> 0"
  shows "checkSchedulingParamsTest1 E \<and> checkSchedulingParamsTest2 E \<and> checkSchedulingParamsTest3 E \<and>
    checkSchedulingParamsTest4 E \<and> setThreadAttributesTest1 E \<and> setThreadAttributesTest2 E \<and> setThreadAttributesTest3 E \<and>
    configureAndStartThreadTest1 E_prio args1 \<and> configureAndStartThreadTest2 E ended args1 = Inr True \<and>
    configureAndStartThreadTest3 E_perm args1 \<and> addThreadTest1 E so = Inr True \<and>
    (\<exists>s. startAllThreadsTest1 E ended args1 args2 = Inr (True, s)) \<and>
    (\<exists>s. startAllThreadsTest2 E ended args1 args2 = Inr (True, s)) \<and>
    (\<exists>s. startAllThreadsTest3 E_late args1 = Inr (True, s)) \<and>
    (\<exists>s. terminateAllThreadsTest1 E ended args3 = Inr (True, s))"
proof -
  have "configureAndStartThreadTest2 E ended args1 = Inr True" "addThreadTest1 E so = Inr True"
    using assms(2,4)
    by (auto simp: configureAndStartThreadTest2_def addThreadTest1_def addThread_def test_simps)
  moreover have "te_call E_prio 0 = 0" "te_call E_prio 1 = 0" using assms(8) by simp_all
  then have "configureAndStartThreadTest1 E_prio args1"
    using assms(9) by (simp add: configureAndStartThreadTest1_def test_simps sys_def eval_nat_numeral)
  moreover have "te_call E_perm 0 = 0" "te_call E_perm 1 = 0" "te_call E_perm 2 = 0" "te_call E_perm 3 = 0"
    using assms(10) by simp_all
  then have "configureAndStartThreadTest3 E_perm args1"
    using assms(11) by (simp add: configureAndStartThreadTest3_def test_simps sys_def eval_nat_numeral)
  ultimately show ?thesis
    using scheduling_tests_pass [OF assms(1)] startAllThreadsTest1_runs [of E ended args1 args2]
      startAllThreadsTest2_runs [of E ended args1 args2] startAllThreadsTest3_runs [OF assms(12,13), of args1]
      terminateAllThreadsTest1_runs [of E ended args3] assms(2-7) by blast
qed

text \<open>Four of the tests end in undefined behaviour all the same: they detach or join threads whose
  ids stay in the list, and the manager that is destroyed afterwards cancels and joins them again.\<close>

lemma terminate_list_dead:
  assumes "tm_live s = []"
  shows "terminate_list E thrs s = Inl BadThread \<or> terminate_list E thrs s = Inr ((TM_OK, thrs), s)"
proof (induction thrs)
  case (Cons thr thrs)
  with assms show ?case by (cases "th_running thr") (auto simp: pthread_cancel_def)
qed simp

lemma destroy_after_test:
  assumes "calls_ok E" "map th_tid (tm_threads s) = tid # tids" "tid \<noteq> 0" "tm_live s = []" "\<not> tm_locked s"
  shows "manager_destroy E s = Inl BadThread"
proof -
  from assms(2) obtain thr thrs where thr: "tm_threads s = thr # thrs" "th_tid thr = tid" by auto
  show ?thesis
  proof (cases "th_running thr")
    case True
    with thr assms show ?thesis by (simp add: manager_destroy_def terminateAllThreads_def with_list_def pthread_cancel_def)
  next
    case False
    from terminate_list_dead [of "s\<lparr>tm_locked := True\<rparr>" E thrs] assms(4) have
      "terminate_list E thrs (s\<lparr>tm_locked := True\<rparr>) = Inl BadThread \<or>
       (terminate_list E thrs (s\<lparr>tm_locked := True\<rparr>) = Inr ((TM_OK, thrs), s\<lparr>tm_locked := True\<rparr>))" by simp
    with False thr assms show ?thesis
      by (auto simp: manager_destroy_def terminateAllThreads_def with_list_def manager_reset_def thread_reset_def pthread_cancel_def)
  qed
qed

lemma tests_tear_down_undefined:
  assumes "calls_ok E" "te_tid E 4 \<noteq> 0" "te_tid E 4 \<noteq> te_tid E 10" "ended args1" "ended args2" "\<not> ended args3" "args1 \<noteq> args2"
    and "startAllThreadsTest1 E ended args1 args2 = Inr (b, s) \<or> startAllThreadsTest2 E ended args1 args2 = Inr (b, s) \<or>
      terminateAllThreadsTest1 E ended args3 = Inr (b, s)"
  shows "manager_destroy E s = Inl BadThread"
  using assms startAllThreadsTest1_runs [of E ended args1 args2] startAllThreadsTest2_runs [of E ended args1 args2]
    terminateAllThreadsTest1_runs [of E ended args3] destroy_after_test [of E s "te_tid E 4"] by auto

definition failing_at :: "nat \<Rightarrow> tm_env" where
  "failing_at n = \<lparr>te_call = (\<lambda>k. if k = n then 22 else 0), te_tid = (\<lambda>k. of_nat k + 1),
     te_prio_max = (\<lambda>p. if p = SCHED_OTHER then 0 else 99), te_prio_min = (\<lambda>p. if p = SCHED_OTHER then 0 else 1)\<rparr>"

definition linux_env :: tm_env where
  "linux_env = (failing_at 0)\<lparr>te_call := (\<lambda>_. 0), te_tid := (\<lambda>k. if k = 4 then 7 else if k = 10 then 9 else 8)\<rparr>"

theorem thread_manager_tests_pass_witness:
  "\<exists>s. startAllThreadsTest1 linux_env (\<lambda>a. a < 3) 1 2 = Inr (True, s)"
proof -
  have "linux_priorities linux_env" "calls_ok linux_env" "te_tid linux_env 4 \<noteq> te_tid linux_env 10"
    by (simp_all add: linux_env_def failing_at_def linux_priorities_def calls_ok_def test_consts)
  moreover have "\<forall>k < n. te_call (failing_at n) k = 0" "te_call (failing_at n) n \<noteq> 0" for n
    by (simp_all add: failing_at_def)
  ultimately show ?thesis
    using thread_manager_tests_pass [of linux_env "\<lambda>a. a < 3" 1 2 3 "failing_at 2" "failing_at 4" "failing_at 5" 0] by simp
qed

end
